(* ===== verification/Prelude.thy ===== *)
theory Prelude
  imports Complex_Main "HOL-Library.Word" "HOL-Library.Monad_Syntax" "HOL-Library.Sublist"
begin

text \<open>
  Shared vocabulary of the development: the machine types of the Rust sources, the
  panicking reads of slices, big-endian decoding, time, the message templates of
  \<open>format!\<close>, and the generic lemmas on lists and options that the component
  theories use.

  A value of type \<open>'a option\<close> plays two roles.  A Rust \<open>Option<T>\<close> is an Isabelle
  \<open>option\<close>.  A computation that may panic also has an \<open>option\<close> type, named
  \<open>panics\<close>, where \<open>None\<close> is the panic; the two are nested where a function can do both.
\<close>

unbundle bit_operations_syntax

section \<open>Machine types\<close>

type_synonym u8 = "8 word"
type_synonym u16 = "16 word"
type_synonym u32 = "32 word"
type_synonym u64 = "64 word"
type_synonym bytes = "8 word list"

text \<open>\<open>usize\<close> values are lengths and offsets of buffers in memory, which never reach
  \<open>2 ^ 64\<close>: they are natural numbers.\<close>

type_synonym usize = nat

type_synonym 'a panics = "'a option"

section \<open>Time\<close>

text \<open>An \<open>Instant\<close> and a \<open>Duration\<close> are counted in nanoseconds.\<close>

type_synonym instant = nat
type_synonym duration = nat

definition from_secs :: "nat \<Rightarrow> duration" where
  "from_secs s = s * 1000000000"

definition from_millis :: "nat \<Rightarrow> duration" where
  "from_millis s = s * 1000000"

definition as_secs :: "duration \<Rightarrow> nat" where
  "as_secs d = d div 1000000000"

definition subsec_nanos :: "duration \<Rightarrow> nat" where
  "subsec_nanos d = d mod 1000000000"

text \<open>\<open>Instant::duration_since\<close> (and \<open>elapsed\<close>, its use with the current time) saturates
  at zero when the other instant is later, as subtraction of natural numbers does.\<close>

definition duration_since :: "instant \<Rightarrow> instant \<Rightarrow> duration" where
  "duration_since now t = now - t"

section \<open>Collections of rules\<close>

named_theorems time_defs "unfolding of clock arithmetic"
named_theorems det_defs "constant parameters of the detectors"
named_theorems panic_free "a computation in the panicking reading returns a value"

declare from_secs_def [time_defs] from_millis_def [time_defs] as_secs_def [time_defs]
  subsec_nanos_def [time_defs] duration_since_def [time_defs]

section \<open>Reads that may panic\<close>

definition idx :: "'a list \<Rightarrow> usize \<Rightarrow> 'a panics" where
  "idx xs i = (if i < length xs then Some (xs ! i) else None)"

definition slice :: "'a list \<Rightarrow> usize \<Rightarrow> usize \<Rightarrow> 'a list panics" where
  "slice xs a b = (if a \<le> b \<and> b \<le> length xs then Some (take (b - a) (drop a xs)) else None)"

definition slice_from :: "'a list \<Rightarrow> usize \<Rightarrow> 'a list panics" where
  "slice_from xs a = (if a \<le> length xs then Some (drop a xs) else None)"

lemma idx_Some [panic_free]: "i < length xs \<Longrightarrow> idx xs i = Some (xs ! i)"
  by (simp add: idx_def)

lemma idx_eq_Some_iff: "idx xs i = Some x \<longleftrightarrow> i < length xs \<and> x = xs ! i"
  by (auto simp: idx_def)

lemma slice_Some [panic_free]:
  "a \<le> b \<Longrightarrow> b \<le> length xs \<Longrightarrow> slice xs a b = Some (take (b - a) (drop a xs))"
  by (simp add: slice_def)

lemma slice_from_Some [panic_free]: "a \<le> length xs \<Longrightarrow> slice_from xs a = Some (drop a xs)"
  by (simp add: slice_from_def)

section \<open>Big-endian integers\<close>

definition be16 :: "u8 \<Rightarrow> u8 \<Rightarrow> u16" where
  "be16 hi lo = (push_bit 8 (ucast hi)) OR ucast lo"

definition hi8 :: "u16 \<Rightarrow> u8" where
  "hi8 w = ucast (drop_bit 8 w)"

definition lo8 :: "u16 \<Rightarrow> u8" where
  "lo8 w = ucast w"

lemma be16_split [simp]: "be16 (hi8 w) (lo8 w) = w"
  unfolding be16_def hi8_def lo8_def
  by (rule bit_word_eqI) (auto simp: bit_simps)

lemma hi8_be16 [simp]: "hi8 (be16 a b) = a"
  unfolding be16_def hi8_def
  by (rule bit_word_eqI) (auto simp: bit_simps dest: bit_imp_le_length)

lemma lo8_be16 [simp]: "lo8 (be16 a b) = b"
  unfolding be16_def lo8_def
  by (rule bit_word_eqI) (auto simp: bit_simps)

section \<open>Addresses\<close>

text \<open>\<open>IpAddr\<close>: an IPv4 address is its four octets, an IPv6 address its sixteen bytes.\<close>

datatype ip_addr = V4 u8 u8 u8 u8 | V6 bytes

fun u32_from_ipv4 :: "u8 \<Rightarrow> u8 \<Rightarrow> u8 \<Rightarrow> u8 \<Rightarrow> u32" where
  "u32_from_ipv4 a b c d =
     (push_bit 24 (ucast a)) OR (push_bit 16 (ucast b)) OR (push_bit 8 (ucast c)) OR ucast d"

section \<open>Message templates\<close>

text \<open>A \<open>format!\<close> call is kept as its template and its arguments; the text they render to is
  only shown to people.\<close>

datatype fmt_arg =
  FIp ip_addr | FNat nat | FBool bool | FStr bytes | FFloat rat

record message =
  template :: string
  args :: "fmt_arg list"

definition fmt :: "string \<Rightarrow> fmt_arg list \<Rightarrow> message" where
  "fmt t as = \<lparr>template = t, args = as\<rparr>"

section \<open>Generic lemmas\<close>

lemma filter_idem_weaker:
  "(\<And>x. P x \<Longrightarrow> Q x) \<Longrightarrow> filter P (filter Q xs) = filter P xs"
  by (induction xs) auto

lemma subseq_append_single: "subseq xs ys \<Longrightarrow> subseq xs (ys @ [z])"
  by (simp add: subseq_rev_drop_many)

lemma sum_list_le_length:
  fixes f :: "'a \<Rightarrow> nat"
  shows "(\<And>x. x \<in> set xs \<Longrightarrow> f x \<le> b) \<Longrightarrow> sum_list (map f xs) \<le> b * length xs"
  by (induction xs) (auto simp: algebra_simps add_mono)

end
