(* ===== verification/Packet.thy ===== *)
theory Packet
  imports Prelude
begin

text \<open>
  The packet types of \<open>raw_packet.rs\<close>: what the capture thread produces and the analyzer
  and the gRPC sender consume.
\<close>

datatype link_type = Ethernet | RawIp | Loopback | Unknown u32

record transport_meta =
  src_ip :: ip_addr
  dst_ip :: ip_addr
  src_port :: "u16 option"
  dst_port :: "u16 option"
  protocol :: u8
  tcp_flags :: "u8 option"
  ttl :: u8
  ip_flags :: u8
  ip_frag_offset :: u16
  icmp_type :: "u8 option"
  icmp_code :: "u8 option"
  eth_src_mac :: "bytes option"
  vlan_id :: "u16 option"
  payload_offset :: usize

text \<open>A \<open>SystemTime\<close> is counted in nanoseconds from the Unix epoch.\<close>

type_synonym system_time = int

record raw_packet =
  timestamp :: system_time
  pkt_data :: bytes
  orig_len :: u32
  cap_len :: u32
  interface :: bytes
  link_type :: link_type
  transport :: "transport_meta option"
  is_truncated :: bool
  packet_id :: u64
  ids_score :: rat
  ids_flag :: int

end
