(* ===== verification/Floats.thy ===== *)
theory Floats
  imports Prelude "HOL-Library.Log_Nat"
begin

text \<open>
  IEEE 754 arithmetic as the sources use it.  A finite \<open>f32\<close> or \<open>f64\<close> is the rational
  number it stands for, and every arithmetic operation rounds its exact result to
  the nearest number with 24 (53) significant bits, ties to even: \<open>f32\<close> and \<open>f64\<close> below
  are these roundings.  The values of this program are zero or between \<open>2 ^ -64\<close> and
  \<open>2 ^ 70\<close>, so overflow, subnormal numbers and NaN do not occur and are not modelled.
\<close>

section \<open>Rounding\<close>

definition rne :: "rat \<Rightarrow> int" where
  "rne x = (let f = \<lfloor>x\<rfloor>; r = x - of_int f in
     if r < 1 / 2 then f else if r > 1 / 2 then f + 1 else if even f then f else f + 1)"

definition ilog2 :: "rat \<Rightarrow> int" where
  "ilog2 q = (case quotient_of q of (n, d) \<Rightarrow>
     let e = bitlen n - bitlen d in if 2 powi e \<le> q then e else e - 1)"

definition ulp :: "nat \<Rightarrow> rat \<Rightarrow> rat" where
  "ulp p q = 2 powi (ilog2 \<bar>q\<bar> - int p + 1)"

definition rnd :: "nat \<Rightarrow> rat \<Rightarrow> rat" where
  "rnd p q = (if q = 0 then 0 else of_int (rne (q / ulp p q)) * ulp p q)"

definition f32 :: "rat \<Rightarrow> rat" where
  "f32 q = rnd 24 q"

definition f64 :: "rat \<Rightarrow> rat" where
  "f64 q = rnd 53 q"

definition as_secs_f64 :: "duration \<Rightarrow> rat" where
  "as_secs_f64 d = f64 (of_nat (as_secs d) + f64 (of_nat (subsec_nanos d) / 1000000000))"

section \<open>Round to nearest integer, ties to even\<close>

lemma rne_of_int [simp]: "rne (of_int n) = n"
  by (simp add: rne_def)

lemma rne_bounds: "of_int (rne x) - 1 / 2 \<le> x \<and> x \<le> of_int (rne x) + 1 / 2"
  unfolding rne_def Let_def
  by (auto simp: field_simps; linarith)

lemma rne_near: "\<bar>x - of_int n\<bar> < 1 / 2 \<Longrightarrow> rne x = n"
proof -
  assume "\<bar>x - of_int n\<bar> < 1 / 2"
  then have "\<bar>rat_of_int (rne x) - of_int n\<bar> < 1" using rne_bounds [of x] by linarith
  then have "rat_of_int \<bar>rne x - n\<bar> < of_int 1" by simp
  then have "\<bar>rne x - n\<bar> < 1" by (simp only: of_int_less_iff)
  then show ?thesis by simp
qed

lemma rne_mono:
  assumes "x \<le> y" shows "rne x \<le> rne y"
proof -
  have fl: "\<lfloor>x\<rfloor> \<le> \<lfloor>y\<rfloor>" using assms by (rule floor_mono)
  show ?thesis
  proof (cases "\<lfloor>x\<rfloor> = \<lfloor>y\<rfloor>")
    case True
    with assms show ?thesis by (auto simp: rne_def Let_def)
  next
    case False
    with fl have "\<lfloor>x\<rfloor> + 1 \<le> \<lfloor>y\<rfloor>" by simp
    moreover have "rne x \<le> \<lfloor>x\<rfloor> + 1" and "\<lfloor>y\<rfloor> \<le> rne y"
      by (auto simp: rne_def Let_def)
    ultimately show ?thesis by simp
  qed
qed

lemma rne_nonneg: "0 \<le> x \<Longrightarrow> 0 \<le> rne x"
  using rne_mono [of 0 x] by (simp add: rne_def)

lemma rne_le_int: "x \<le> of_int n \<Longrightarrow> rne x \<le> n"
  using rne_mono [of x "of_int n"] by simp

lemma rne_ge_int: "of_int n \<le> x \<Longrightarrow> n \<le> rne x"
  using rne_mono [of "of_int n" x] by simp

section \<open>The binary exponent\<close>

lemma pow2_less_iff: "(2 powi a :: rat) < 2 powi b \<longleftrightarrow> a < b"
proof
  assume "(2 powi a :: rat) < 2 powi b"
  then show "a < b" using power_int_increasing [of b a "2::rat"] by (cases "a < b") auto
qed (rule power_int_strict_increasing, simp_all)

lemma pow2_le_iff: "(2 powi a :: rat) \<le> 2 powi b \<longleftrightarrow> a \<le> b"
  using pow2_less_iff [of b a] by (auto simp flip: not_less)

lemma ilog2_bounds:
  assumes "0 < q"
  shows "2 powi (ilog2 q) \<le> q \<and> q < 2 powi (ilog2 q + 1)"
proof -
  obtain n d where nd: "quotient_of q = (n, d)" by force
  have d: "0 < d" and q: "q = of_int n / of_int d"
    using quotient_of_denom_pos [OF nd] quotient_of_div [OF nd] by auto
  with assms have n: "0 < n" by (simp add: zero_less_divide_iff)
  have bn: "2 ^ nat (bitlen n - 1) \<le> n" "n < 2 ^ nat (bitlen n)"
    and bd: "2 ^ nat (bitlen d - 1) \<le> d" "d < 2 ^ nat (bitlen d)"
    using bitlen_bounds [OF n] bitlen_bounds [OF d] by auto
  have pn: "0 < bitlen n" and pd: "0 < bitlen d"
    using n d bitlen_eq_zero_iff [of n] bitlen_eq_zero_iff [of d]
      bitlen_nonneg [of n] bitlen_nonneg [of d] by auto
  define e where "e = bitlen n - bitlen d"
  have cast: "rat_of_int (2 ^ nat k) = 2 powi k" if "0 \<le> k" for k :: int
    using that by (simp add: power_int_def)
  have n_lo: "2 powi (bitlen n - 1) \<le> rat_of_int n" and n_hi: "rat_of_int n < 2 powi (bitlen n)"
    and d_lo: "2 powi (bitlen d - 1) \<le> rat_of_int d" and d_hi: "rat_of_int d < 2 powi (bitlen d)"
    using bn bd pn pd cast [of "bitlen n - 1"] cast [of "bitlen n"]
      cast [of "bitlen d - 1"] cast [of "bitlen d"]
    by (metis of_int_le_iff of_int_less_iff zle_diff1_eq order_less_imp_le)+
  have lo: "2 powi (e - 1) \<le> q"
  proof -
    have "2 powi (e - 1) * rat_of_int d \<le> 2 powi (e - 1) * 2 powi (bitlen d)"
      using d_hi by (intro mult_left_mono) auto
    also have "\<dots> = 2 powi (bitlen n - 1)"
      by (simp add: e_def flip: power_int_add)
    also note n_lo
    finally show ?thesis using d by (simp add: q field_simps)
  qed
  have hi: "q < 2 powi (e + 1)"
  proof -
    have "rat_of_int n < 2 powi (bitlen n)" by (rule n_hi)
    also have "\<dots> = 2 powi (e + 1) * 2 powi (bitlen d - 1)"
      by (simp add: e_def flip: power_int_add)
    also have "\<dots> \<le> 2 powi (e + 1) * rat_of_int d"
      using d_lo by (intro mult_left_mono) auto
    finally show ?thesis using d by (simp add: q field_simps)
  qed
  show ?thesis
    using lo hi unfolding ilog2_def nd by (auto simp: Let_def e_def [symmetric])
qed

lemma ilog2_unique:
  assumes "2 powi e \<le> q" and "q < 2 powi (e + 1)"
  shows "ilog2 q = e"
proof -
  have "(0::rat) < 2 powi e" by (rule zero_less_power_int) simp
  then have "0 < q" using assms(1) by (rule less_le_trans)
  note b = ilog2_bounds [OF this]
  have "2 powi (ilog2 q) < (2 powi (e + 1) :: rat)" "2 powi e < (2 powi (ilog2 q + 1) :: rat)"
    using b assms by auto
  then have "ilog2 q < e + 1" "e < ilog2 q + 1"
    by (simp_all only: pow2_less_iff)
  then show ?thesis by simp
qed

lemma ulp_pos [simp]: "0 < ulp p q"
  by (simp add: ulp_def)

lemma ulp_nonzero [simp]: "ulp p q \<noteq> 0"
  using ulp_pos [of p q] by linarith

section \<open>Rounding is exact on representable numbers and monotone\<close>

text \<open>\<open>rep p x\<close>: \<open>x\<close> is a number with at most \<open>p\<close> significant bits.\<close>

definition rep :: "nat \<Rightarrow> rat \<Rightarrow> bool" where
  "rep p x \<longleftrightarrow> (\<exists>m e. x = of_int m * 2 powi e \<and> \<bar>m\<bar> < 2 ^ p)"

lemma rep_of_int: "\<bar>n\<bar> < 2 ^ p \<Longrightarrow> rep p (of_int n)"
  unfolding rep_def by (intro exI [of _ n] exI [of _ 0]) simp

lemma rnd_0 [simp]: "rnd p 0 = 0"
  by (simp add: rnd_def)

lemma rnd_pos_eq: "0 < q \<Longrightarrow> rnd p q = of_int (rne (q / ulp p q)) * ulp p q"
  by (simp add: rnd_def)

lemma rnd_nonneg: "0 \<le> q \<Longrightarrow> 0 \<le> rnd p q"
  by (auto simp: rnd_def intro!: mult_nonneg_nonneg rne_nonneg order_less_imp_le [OF ulp_pos] divide_nonneg_pos)

lemma rnd_binade:
  assumes "2 powi e \<le> q" and "q < 2 powi (e + 1)"
  shows "rnd p q = of_int (rne (q / 2 powi (e - int p + 1))) * 2 powi (e - int p + 1)"
proof -
  have "(0::rat) < 2 powi e" by (rule zero_less_power_int) simp
  then have "0 < q" using assms(1) by (rule less_le_trans)
  then show ?thesis
    using ilog2_unique [OF assms] by (simp add: rnd_def ulp_def)
qed

text \<open>A representable number in or above the binade of \<open>q\<close> is a multiple of the unit of \<open>q\<close>.\<close>

lemma rep_multiple:
  assumes "rep p x" and "2 powi e \<le> x"
  shows "\<exists>k. x = of_int k * 2 powi (e - int p + 1)"
proof -
  obtain m f where x: "x = of_int m * 2 powi f" and m: "\<bar>m\<bar> < 2 ^ p"
    using assms(1) unfolding rep_def by blast
  have "e - int p + 1 \<le> f"
  proof (rule ccontr)
    assume "\<not> e - int p + 1 \<le> f"
    then have f: "f + int p \<le> e" by simp
    have "rat_of_int m < 2 ^ p" using m by (metis abs_ge_self le_less_trans of_int_less_iff of_int_numeral of_int_power)
    then have "x < 2 ^ p * 2 powi f" unfolding x by (intro mult_strict_right_mono) auto
    also have "\<dots> = 2 powi (f + int p)" by (simp add: power_int_add)
    also have "\<dots> \<le> 2 powi e" using f by (intro power_int_increasing) auto
    finally show False using assms(2) by simp
  qed
  then have "2 powi f = (of_int (2 ^ nat (f - (e - int p + 1))) * 2 powi (e - int p + 1) :: rat)"
    by (simp add: power_int_def [of 2 "f - (e - int p + 1)", symmetric] flip: power_int_add power_int_of_nat)
  then show ?thesis
    unfolding x by (intro exI [of _ "m * 2 ^ nat (f - (e - int p + 1))"]) simp
qed

lemma rnd_le_rep:
  assumes "0 \<le> q" and "rep p x" and "q \<le> x"
  shows "rnd p q \<le> x"
proof (cases "q = 0")
  case True
  with assms show ?thesis by simp
next
  case False
  with assms(1) have q: "0 < q" by simp
  define e where "e = ilog2 q"
  have b: "2 powi e \<le> q" "q < 2 powi (e + 1)" using ilog2_bounds [OF q] by (auto simp: e_def)
  let ?u = "2 powi (e - int p + 1) :: rat"
  have "2 powi e \<le> x" using b(1) assms(3) by simp
  then obtain k where k: "x = of_int k * ?u" using rep_multiple [OF assms(2)] by blast
  have "q / ?u \<le> of_int k" using assms(3) by (simp add: k divide_le_eq)
  then have "rne (q / ?u) \<le> k" by (rule rne_le_int)
  then show ?thesis by (simp add: rnd_binade [OF b] k)
qed

lemma rnd_ge_rep:
  assumes "0 \<le> x" and "rep p x" and "x \<le> q"
  shows "x \<le> rnd p q"
proof (cases "x = 0")
  case True
  with assms show ?thesis by (simp add: rnd_nonneg)
next
  case False
  with assms have q: "0 < q" and x: "0 < x" by auto
  define e where "e = ilog2 q"
  have b: "2 powi e \<le> q" "q < 2 powi (e + 1)" using ilog2_bounds [OF q] by (auto simp: e_def)
  let ?u = "2 powi (e - int p + 1) :: rat"
  show ?thesis
  proof (cases "2 powi e \<le> x")
    case True
    then obtain k where k: "x = of_int k * ?u" using rep_multiple [OF assms(2)] by blast
    have "of_int k \<le> q / ?u" using assms(3) by (simp add: k le_divide_eq)
    then have "k \<le> rne (q / ?u)" by (rule rne_ge_int)
    then show ?thesis by (simp add: rnd_binade [OF b] k)
  next
    case False
    have "0 < p"
    proof (rule ccontr)
      assume "\<not> 0 < p"
      then have "x = 0" using assms(2) by (auto simp: rep_def)
      then show False using x by simp
    qed
    then have pe: "rat_of_int (2 ^ (p - 1)) * ?u = 2 powi e"
      by (simp add: power_int_def [of 2 "int p - 1", symmetric] of_nat_diff nat_diff_distrib
            flip: power_int_add power_int_of_nat)
    then have "of_int (2 ^ (p - 1)) \<le> q / ?u" using b(1) by (simp add: le_divide_eq)
    then have "2 ^ (p - 1) \<le> rne (q / ?u)" by (rule rne_ge_int)
    then have "2 powi e \<le> rnd p q"
      unfolding rnd_binade [OF b] pe [symmetric] by (simp only: of_int_le_iff mult_right_mono zero_le_power_int zero_le_numeral)
    then show ?thesis using False by simp
  qed
qed

lemma rnd_rep: "0 \<le> x \<Longrightarrow> rep p x \<Longrightarrow> rnd p x = x"
  by (intro antisym rnd_le_rep rnd_ge_rep) auto

lemma rnd_of_nat: "n < 2 ^ p \<Longrightarrow> rnd p (of_nat n) = of_nat n"
  using rnd_rep [of "of_nat n" p] rep_of_int [of "int n" p]
  by (simp add: of_nat_less_numeral_power_cancel_iff [symmetric])

lemma rnd_le_nat: "0 \<le> q \<Longrightarrow> q \<le> of_nat n \<Longrightarrow> n < 2 ^ p \<Longrightarrow> rnd p q \<le> of_nat n"
  using rnd_le_rep [of q p "of_nat n"] rep_of_int [of "int n" p]
  by (simp add: of_nat_less_numeral_power_cancel_iff [symmetric])

lemma rnd_ge_nat: "of_nat n \<le> q \<Longrightarrow> n < 2 ^ p \<Longrightarrow> of_nat n \<le> rnd p q"
  using rnd_ge_rep [of "of_nat n" p q] rep_of_int [of "int n" p]
  by (simp add: of_nat_less_numeral_power_cancel_iff [symmetric])

lemma rnd_mono:
  assumes "0 \<le> q" and "q \<le> r" and "0 < p"
  shows "rnd p q \<le> rnd p r"
proof (cases "q = 0")
  case True
  with assms show ?thesis by (simp add: rnd_nonneg)
next
  case False
  with assms have q: "0 < q" and r: "0 < r" by auto
  define e f where "e = ilog2 q" and "f = ilog2 r"
  have bq: "2 powi e \<le> q" "q < 2 powi (e + 1)" and br: "2 powi f \<le> r" "r < 2 powi (f + 1)"
    using ilog2_bounds [OF q] ilog2_bounds [OF r] by (auto simp: e_def f_def)
  show ?thesis
  proof (cases "e = f")
    case True
    have "rne (q / 2 powi (e - int p + 1)) \<le> rne (r / 2 powi (e - int p + 1))"
      using assms(2) by (intro rne_mono divide_right_mono) auto
    then show ?thesis
      using rnd_binade [OF bq, of p] rnd_binade [OF br, of p] True by simp
  next
    case False
    have "(2 powi e :: rat) < 2 powi (f + 1)" using bq(1) br(2) assms(2) by linarith
    with False have ef: "e + 1 \<le> f" by (simp add: pow2_less_iff)
    then have le: "(2 powi (e + 1) :: rat) \<le> 2 powi f" by (simp only: pow2_le_iff)
    have "rep p (2 powi k)" for k
      unfolding rep_def using assms(3) by (intro exI [of _ 1] exI [of _ k]) simp
    then have "rnd p q \<le> 2 powi (e + 1)" "2 powi f \<le> rnd p r"
      using assms(1) bq(2) br(1) by (auto intro!: rnd_le_rep rnd_ge_rep)
    with le show ?thesis by linarith
  qed
qed

text \<open>The error of one rounding, relative to the exact result.\<close>

lemma rnd_error:
  assumes "0 \<le> q"
  shows "\<bar>rnd p q - q\<bar> \<le> q * 2 powi (- int p)"
proof (cases "q = 0")
  case True
  then show ?thesis by simp
next
  case False
  with assms have q: "0 < q" by simp
  define e where "e = ilog2 q"
  have b: "2 powi e \<le> q" "q < 2 powi (e + 1)" using ilog2_bounds [OF q] by (auto simp: e_def)
  define u where "u = (2 powi (e - int p + 1) :: rat)"
  have u: "0 < u" by (simp add: u_def)
  have "\<bar>of_int (rne (q / u)) - q / u\<bar> \<le> 1 / 2" using rne_bounds [of "q / u"] by linarith
  then have "\<bar>of_int (rne (q / u)) - q / u\<bar> * u \<le> 1 / 2 * u" using u by (intro mult_right_mono) auto
  moreover have "rnd p q - q = (of_int (rne (q / u)) - q / u) * u"
    using u by (simp add: rnd_binade [OF b] u_def [symmetric] left_diff_distrib)
  ultimately have "\<bar>rnd p q - q\<bar> \<le> 1 / 2 * u"
    using u by (simp add: abs_mult)
  also have "1 / 2 * u = 2 powi e * 2 powi (- int p)"
    by (simp add: u_def power_int_add power_int_diff power_int_minus field_simps)
  also have "\<dots> \<le> q * 2 powi (- int p)" using b(1) by (intro mult_right_mono) auto
  finally show ?thesis .
qed

text \<open>The result of a rounding is representable, so rounding again changes nothing.\<close>

lemma rep_rnd:
  assumes "0 \<le> q" and "0 < p"
  shows "rep p (rnd p q)"
proof (cases "q = 0")
  case True
  then show ?thesis using rep_of_int [of 0 p] by simp
next
  case False
  with assms(1) have q: "0 < q" by simp
  define e where "e = ilog2 q"
  have b: "2 powi e \<le> q" "q < 2 powi (e + 1)" using ilog2_bounds [OF q] by (auto simp: e_def)
  define u where "u = (2 powi (e - int p + 1) :: rat)"
  define m where "m = rne (q / u)"
  have u: "0 < u" by (simp add: u_def)
  have r: "rnd p q = of_int m * u" by (simp add: rnd_binade [OF b] u_def m_def)
  have top: "2 powi (e + 1) = rat_of_int (2 ^ p) * u"
    by (simp add: u_def flip: power_int_add power_int_of_nat)
  then have "q / u \<le> of_int (2 ^ p)" using b(2) u by (simp add: divide_le_eq)
  then have m: "m \<le> 2 ^ p" "0 \<le> m"
    using q u by (auto simp: m_def intro: rne_le_int rne_nonneg)
  show ?thesis
  proof (cases "m = 2 ^ p")
    case True
    then have "rnd p q = of_int 1 * 2 powi (e + 1)" using r top by simp
    then show ?thesis unfolding rep_def using assms(2) by (intro exI [of _ 1] exI [of _ "e + 1"]) simp
  next
    case False
    then have "\<bar>m\<bar> < 2 ^ p" using m by simp
    then show ?thesis unfolding rep_def using r by (auto simp: u_def)
  qed
qed

lemma rnd_idem: "0 \<le> q \<Longrightarrow> 0 < p \<Longrightarrow> rnd p (rnd p q) = rnd p q"
  by (intro rnd_rep rnd_nonneg rep_rnd)

section \<open>The two formats\<close>

lemma f32_0 [simp]: "f32 0 = 0" and f64_0 [simp]: "f64 0 = 0"
  by (simp_all add: f32_def f64_def)

lemma f32_nonneg: "0 \<le> q \<Longrightarrow> 0 \<le> f32 q" and f64_nonneg: "0 \<le> q \<Longrightarrow> 0 \<le> f64 q"
  by (simp_all add: f32_def f64_def rnd_nonneg)

lemma f32_idem: "0 \<le> q \<Longrightarrow> f32 (f32 q) = f32 q" and f64_idem: "0 \<le> q \<Longrightarrow> f64 (f64 q) = f64 q"
  by (simp_all add: f32_def f64_def rnd_idem)

lemma f32_mono: "0 \<le> q \<Longrightarrow> q \<le> r \<Longrightarrow> f32 q \<le> f32 r"
  and f64_mono: "0 \<le> q \<Longrightarrow> q \<le> r \<Longrightarrow> f64 q \<le> f64 r"
  by (simp_all add: f32_def f64_def rnd_mono)

lemma f32_of_nat: "n < 2 ^ 24 \<Longrightarrow> f32 (of_nat n) = of_nat n"
  and f64_of_nat: "n < 2 ^ 53 \<Longrightarrow> f64 (of_nat n) = of_nat n"
  unfolding f32_def f64_def by (rule rnd_of_nat, assumption)+

lemma f64_le_nat: "0 \<le> q \<Longrightarrow> q \<le> of_nat n \<Longrightarrow> n < 2 ^ 53 \<Longrightarrow> f64 q \<le> of_nat n"
  and f64_ge_nat: "of_nat n \<le> q \<Longrightarrow> n < 2 ^ 53 \<Longrightarrow> of_nat n \<le> f64 q"
  unfolding f64_def by (rule rnd_le_nat rnd_ge_nat; assumption)+

lemma f32_numeral: "numeral n < (2 ^ 24 :: nat) \<Longrightarrow> f32 (numeral n) = numeral n"
  and f64_numeral: "numeral n < (2 ^ 53 :: nat) \<Longrightarrow> f64 (numeral n) = numeral n"
  using f32_of_nat [of "numeral n"] f64_of_nat [of "numeral n"] by simp_all

lemma f64_1 [simp]: "f64 1 = 1" and f32_1 [simp]: "f32 1 = 1"
  using f64_of_nat [of 1] f32_of_nat [of 1] by simp_all

lemma as_secs_f64_nonneg: "0 \<le> as_secs_f64 d"
  unfolding as_secs_f64_def by (intro f64_nonneg add_nonneg_nonneg) auto

lemma as_secs_f64_0 [simp]: "as_secs_f64 0 = 0"
  by (simp add: as_secs_f64_def time_defs)

text \<open>A duration of at least \<open>k\<close> seconds reads as at least \<open>k\<close>.\<close>

lemma as_secs_f64_ge:
  assumes "from_secs k \<le> d" and "k < 2 ^ 53"
  shows "of_nat k \<le> as_secs_f64 d"
proof -
  have "k \<le> as_secs d" using assms(1) by (simp add: time_defs less_eq_div_iff_mult_less_eq)
  then have "rat_of_nat k \<le> of_nat (as_secs d)" by simp
  also have "\<dots> \<le> of_nat (as_secs d) + f64 (of_nat (subsec_nanos d) / 1000000000)"
    by (simp add: f64_nonneg)
  finally show ?thesis unfolding as_secs_f64_def using assms(2) by (rule f64_ge_nat)
qed

end
