(* ===== verification/Score.thy ===== *)
theory Score
  imports Floats
begin

text \<open>
  The scoring model of \<open>ids/score.rs\<close>: signals, the severity bands and the aggregation
  of a packet's signals into an \<open>IdsResult\<close>.  Scores are \<open>f32\<close> values, so sums round
  after every addition; the lemmas of the last section show that for the integer
  scores of this program no rounding takes place.
\<close>

section \<open>Constants\<close>

definition THRESHOLD_INFO :: rat where "THRESHOLD_INFO = 30"
definition THRESHOLD_WARNING :: rat where "THRESHOLD_WARNING = 60"
definition THRESHOLD_ALERT :: rat where "THRESHOLD_ALERT = 85"

definition SCORE_BLACKLIST_IP :: rat where "SCORE_BLACKLIST_IP = 90"
definition SCORE_BLACKLIST_DOMAIN :: rat where "SCORE_BLACKLIST_DOMAIN = 80"
definition SCORE_PAYLOAD_SIG :: rat where "SCORE_PAYLOAD_SIG = 70"
definition SCORE_SYN_FLOOD :: rat where "SCORE_SYN_FLOOD = 65"
definition SCORE_PORT_SCAN :: rat where "SCORE_PORT_SCAN = 60"
definition SCORE_HALF_OPEN_HIGH :: rat where "SCORE_HALF_OPEN_HIGH = 50"
definition SCORE_DNS_ANOMALY :: rat where "SCORE_DNS_ANOMALY = 45"
definition SCORE_RATE_EXCEEDED :: rat where "SCORE_RATE_EXCEEDED = 40"
definition SCORE_GEO_ANOMALY :: rat where "SCORE_GEO_ANOMALY = 35"
definition SCORE_UNUSUAL_PORT_NETWORK :: rat where "SCORE_UNUSUAL_PORT_NETWORK = 30"
definition SCORE_UNUSUAL_PORT_GLOBAL :: rat where "SCORE_UNUSUAL_PORT_GLOBAL = 20"
definition CORRELATION_BONUS :: rat where "CORRELATION_BONUS = 10"

lemmas score_consts [det_defs] =
  THRESHOLD_INFO_def THRESHOLD_WARNING_def THRESHOLD_ALERT_def
  SCORE_BLACKLIST_IP_def SCORE_BLACKLIST_DOMAIN_def SCORE_PAYLOAD_SIG_def
  SCORE_SYN_FLOOD_def SCORE_PORT_SCAN_def SCORE_HALF_OPEN_HIGH_def
  SCORE_DNS_ANOMALY_def SCORE_RATE_EXCEEDED_def SCORE_GEO_ANOMALY_def
  SCORE_UNUSUAL_PORT_NETWORK_def SCORE_UNUSUAL_PORT_GLOBAL_def CORRELATION_BONUS_def

section \<open>Severity\<close>

datatype severity = Info | Warning | Alert | Critical

fun Severity_fmt :: "severity \<Rightarrow> string" where
  "Severity_fmt Info = ''INFO''"
| "Severity_fmt Warning = ''WARNING''"
| "Severity_fmt Alert = ''ALERT''"
| "Severity_fmt Critical = ''CRITICAL''"

definition Severity_from_score :: "rat \<Rightarrow> severity" where
  "Severity_from_score score =
     (if THRESHOLD_ALERT \<le> score then
        (if 95 \<le> score then Critical else Alert)
      else if THRESHOLD_WARNING \<le> score then Warning
      else Info)"

text \<open>The bands are ordered as they are listed.\<close>

fun sev_rank :: "severity \<Rightarrow> nat" where
  "sev_rank Info = 0"
| "sev_rank Warning = 1"
| "sev_rank Alert = 2"
| "sev_rank Critical = 3"

lemma sev_rank_inj: "sev_rank a = sev_rank b \<Longrightarrow> a = b"
  by (cases a; cases b) simp_all

instantiation severity :: linorder
begin

definition less_eq_severity :: "severity \<Rightarrow> severity \<Rightarrow> bool" where
  "less_eq_severity a b \<longleftrightarrow> sev_rank a \<le> sev_rank b"

definition less_severity :: "severity \<Rightarrow> severity \<Rightarrow> bool" where
  "less_severity a b \<longleftrightarrow> sev_rank a < sev_rank b"

instance
  by standard (auto simp: less_eq_severity_def less_severity_def intro: sev_rank_inj)

end

section \<open>Signals and results\<close>

record signal =
  sig_name :: string
  sig_score :: rat
  sig_detail :: message

record ids_result =
  total_score :: rat
  severity :: severity
  flag_reason :: int
  signals :: "signal list"

text \<open>\<open>iter().map(|s| s.score).sum()\<close> over \<open>f32\<close>: left to right, rounding each addition.\<close>

definition sum_f32 :: "rat list \<Rightarrow> rat" where
  "sum_f32 xs = foldl (\<lambda>acc x. f32 (acc + x)) 0 xs"

definition IdsResult_from_signals :: "signal list \<Rightarrow> int \<Rightarrow> ids_result" where
  "IdsResult_from_signals sigs flag =
     (let base = sum_f32 (map sig_score sigs);
          bonus = (if 2 \<le> length sigs then CORRELATION_BONUS else 0);
          total = min (f32 (base + bonus)) 100
      in \<lparr>total_score = total,
          severity = Severity_from_score total,
          flag_reason = flag,
          signals = sort_key (\<lambda>s. - sig_score s) sigs\<rparr>)"

definition IdsResult_is_clean :: "ids_result \<Rightarrow> bool" where
  "IdsResult_is_clean r \<longleftrightarrow> total_score r < THRESHOLD_INFO"

section \<open>Lemmas on the aggregation\<close>

lemma from_signals_sel [simp]:
  "total_score (IdsResult_from_signals sigs f) =
     min (f32 (sum_f32 (map sig_score sigs) + (if 2 \<le> length sigs then CORRELATION_BONUS else 0))) 100"
  "severity (IdsResult_from_signals sigs f) =
     Severity_from_score (total_score (IdsResult_from_signals sigs f))"
  "flag_reason (IdsResult_from_signals sigs f) = f"
  "signals (IdsResult_from_signals sigs f) = sort_key (\<lambda>s. - sig_score s) sigs"
  by (simp_all add: IdsResult_from_signals_def Let_def)

lemma foldl_f32_nonneg:
  "0 \<le> a \<Longrightarrow> \<forall>x\<in>set xs. 0 \<le> x \<Longrightarrow> 0 \<le> foldl (\<lambda>acc x. f32 (acc + x)) a xs"
  by (induction xs arbitrary: a) (simp_all add: f32_nonneg)

lemma sum_f32_nonneg: "\<forall>x\<in>set xs. 0 \<le> x \<Longrightarrow> 0 \<le> sum_f32 xs"
  unfolding sum_f32_def by (rule foldl_f32_nonneg) simp_all

lemma foldl_f32_exact:
  "a + sum_list ns < 2 ^ 24 \<Longrightarrow>
     foldl (\<lambda>acc x. f32 (acc + x)) (of_nat a) (map of_nat ns) = of_nat (a + sum_list ns)"
proof (induction ns arbitrary: a)
  case Nil
  then show ?case by simp
next
  case (Cons n ns)
  then have "f32 (of_nat a + of_nat n) = of_nat (a + n)"
    using f32_of_nat [of "a + n"] by simp
  with Cons.IH [of "a + n"] Cons.prems show ?case by (simp add: add.assoc)
qed

lemma sum_f32_exact:
  "sum_list ns < 2 ^ 24 \<Longrightarrow> sum_f32 (map of_nat ns) = of_nat (sum_list ns)"
  using foldl_f32_exact [of 0 ns] by (simp add: sum_f32_def)

text \<open>Every score the detectors produce is a natural number.\<close>

definition nat_scores :: "signal list \<Rightarrow> bool" where
  "nat_scores sigs \<longleftrightarrow> (\<forall>s\<in>set sigs. \<exists>n::nat. sig_score s = of_nat n)"

definition score_sum :: "signal list \<Rightarrow> rat" where
  "score_sum sigs = sum_list (map sig_score sigs)"

lemma nat_scores_witness:
  assumes "nat_scores sigs"
  obtains ns where "map sig_score sigs = map of_nat ns"
proof -
  have "\<exists>ns. map sig_score sigs = map rat_of_nat ns"
    using assms
  proof (induction sigs)
    case Nil
    then show ?case by simp
  next
    case (Cons s sigs)
    then obtain n ns where "sig_score s = of_nat n" "map sig_score sigs = map rat_of_nat ns"
      by (auto simp: nat_scores_def)
    then have "map sig_score (s # sigs) = map rat_of_nat (n # ns)" by simp
    then show ?case by blast
  qed
  then show ?thesis using that by blast
qed

lemma total_score_exact:
  assumes "nat_scores sigs" and "score_sum sigs < 16777206"
  shows "total_score (IdsResult_from_signals sigs f) =
     min (score_sum sigs + (if 2 \<le> length sigs then 10 else 0)) 100"
proof -
  obtain ns where ns: "map sig_score sigs = map of_nat ns"
    using assms(1) by (rule nat_scores_witness)
  have sum: "score_sum sigs = of_nat (sum_list ns)"
    by (simp add: score_sum_def ns sum_list_of_nat)
  then have bound: "sum_list ns < 16777206" using assms(2) by simp
  define b :: nat where "b = (if 2 \<le> length sigs then 10 else 0)"
  have "f32 (of_nat (sum_list ns + b)) = of_nat (sum_list ns + b)"
    using bound by (intro f32_of_nat) (auto simp: b_def)
  then show ?thesis
    using bound by (cases "2 \<le> length sigs") (simp_all add: ns sum_f32_exact sum b_def CORRELATION_BONUS_def)
qed

lemma from_score_mono: "a \<le> b \<Longrightarrow> Severity_from_score a \<le> Severity_from_score b"
  by (auto simp: Severity_from_score_def less_eq_severity_def det_defs)

lemma sort_desc: "sorted_wrt (\<lambda>a b. sig_score b \<le> sig_score a) (sort_key (\<lambda>s. - sig_score s) sigs)"
  using sorted_sort_key [of "\<lambda>s. - sig_score s" sigs] by (simp add: sorted_map)

section \<open>The capped total\<close>

text \<open>However many signals there are, rounding never shows in the total: below 100 the sums are
  exact, and once a partial sum has reached 100 it stays there.\<close>

lemma foldl_f32_ge:
  "100 \<le> a \<Longrightarrow> \<forall>x\<in>set xs. 0 \<le> x \<Longrightarrow> 100 \<le> foldl (\<lambda>acc x. f32 (acc + x)) a xs"
proof (induction xs arbitrary: a)
  case (Cons x xs)
  have "f32 100 \<le> f32 (a + x)" using Cons.prems by (intro f32_mono) auto
  moreover have "f32 100 = 100" by (rule f32_numeral) simp
  ultimately show ?case using Cons by simp
qed simp

lemma f32_add_cap:
  assumes "100 \<le> a + n" shows "100 \<le> f32 (of_nat a + of_nat n)"
proof -
  have "rat_of_nat 100 \<le> of_nat (a + n)" using assms by (simp only: of_nat_le_iff)
  then have "f32 (rat_of_nat 100) \<le> f32 (of_nat (a + n))" by (intro f32_mono) simp_all
  moreover have "f32 (rat_of_nat 100) = 100" using f32_of_nat [of 100] by simp
  ultimately show ?thesis by simp
qed

lemma foldl_f32_capped:
  "min (foldl (\<lambda>acc x. f32 (acc + x)) (of_nat a) (map of_nat ns)) 100 = min (of_nat (a + sum_list ns)) 100"
proof (induction ns arbitrary: a)
  case (Cons n ns)
  show ?case
  proof (cases "a + n < 2 ^ 24")
    case True
    then have "f32 (of_nat a + of_nat n) = of_nat (a + n)" using f32_of_nat [of "a + n"] by simp
    with Cons.IH [of "a + n"] show ?thesis by (simp add: add.assoc)
  next
    case False
    then have "100 \<le> f32 (rat_of_nat a + of_nat n)" by (intro f32_add_cap) simp
    then have "100 \<le> foldl (\<lambda>acc x. f32 (acc + x)) (f32 (rat_of_nat a + of_nat n)) (map of_nat ns)"
      by (intro foldl_f32_ge) auto
    moreover have "rat_of_nat 100 \<le> of_nat (a + sum_list (n # ns))" using False by (simp only: of_nat_le_iff) simp
    ultimately show ?thesis by (simp add: min_def)
  qed
qed simp

definition bonus :: "signal list \<Rightarrow> rat" where
  "bonus sigs = (if 2 \<le> length sigs then 10 else 0)"

lemma bonus_nonneg: "0 \<le> bonus sigs"
  by (simp add: bonus_def)

lemma total_score_capped:
  assumes "nat_scores sigs"
  shows "total_score (IdsResult_from_signals sigs f) = min (score_sum sigs + bonus sigs) 100"
proof -
  obtain ns where ns: "map sig_score sigs = map of_nat ns"
    using assms by (rule nat_scores_witness)
  define n where "n = sum_list ns"
  define b :: nat where "b = (if 2 \<le> length sigs then 10 else 0)"
  have sum: "score_sum sigs = of_nat n" by (simp add: score_sum_def ns sum_list_of_nat n_def)
  have s: "min (sum_f32 (map sig_score sigs)) 100 = min (of_nat n) 100"
    using foldl_f32_capped [of 0 ns] by (simp add: sum_f32_def ns n_def)
  have t: "total_score (IdsResult_from_signals sigs f) = min (f32 (sum_f32 (map sig_score sigs) + of_nat b)) 100"
    by (simp add: b_def CORRELATION_BONUS_def)
  have bb: "bonus sigs = of_nat b" by (simp add: bonus_def b_def)
  show ?thesis
  proof (cases "n < 100")
    case True
    then have "rat_of_nat n < of_nat 100" by (simp only: of_nat_less_iff)
    then have "sum_f32 (map sig_score sigs) = of_nat n" using s by (auto simp: min_def split: if_splits)
    moreover have "f32 (of_nat (n + b)) = of_nat (n + b)"
      using True by (intro f32_of_nat) (simp add: b_def)
    ultimately show ?thesis unfolding t sum bb by simp
  next
    case False
    then have "rat_of_nat 100 \<le> of_nat n" by (simp only: of_nat_le_iff not_less)
    then have ge: "100 \<le> sum_f32 (map sig_score sigs)" "(100::rat) \<le> of_nat n"
      using s by (auto simp: min_def split: if_splits)
    then have "f32 (of_nat 100) \<le> f32 (sum_f32 (map sig_score sigs) + of_nat b)"
      by (intro f32_mono) (auto intro: add_increasing2)
    then have "100 \<le> f32 (sum_f32 (map sig_score sigs) + of_nat b)" using f32_of_nat [of 100] by simp
    then show ?thesis unfolding t sum bb using ge(2) by (simp add: min_def add_increasing2)
  qed
qed

lemma nat_scores_append [simp]: "nat_scores (xs @ ys) \<longleftrightarrow> nat_scores xs \<and> nat_scores ys"
  and nat_scores_Nil [simp]: "nat_scores []"
  and nat_scores_Cons [simp]: "nat_scores (x # xs) \<longleftrightarrow> (\<exists>n::nat. sig_score x = of_nat n) \<and> nat_scores xs"
  by (auto simp: nat_scores_def)

lemma nat_scores_nonneg: "nat_scores sigs \<Longrightarrow> s \<in> set sigs \<Longrightarrow> 0 \<le> sig_score s"
  by (auto simp: nat_scores_def)

lemma score_sum_append: "score_sum (xs @ ys) = score_sum xs + score_sum ys"
  by (simp add: score_sum_def)

lemma score_sum_nonneg: "nat_scores sigs \<Longrightarrow> 0 \<le> score_sum sigs"
  unfolding score_sum_def by (rule sum_list_nonneg) (auto simp: nat_scores_def)

lemma score_sum_member: "nat_scores sigs \<Longrightarrow> s \<in> set sigs \<Longrightarrow> sig_score s \<le> score_sum sigs"
  unfolding score_sum_def by (rule member_le_sum_list) (auto simp: nat_scores_def)

end
