(* ===== verification/Table.thy ===== *)
theory Table
  imports Prelude "HOL-Library.AList"
begin

text \<open>
  The keyed tables of the detectors.  The sources keep their state in \<open>DashMap\<close>s, used
  through the interface of a hash map (\<open>entry\<close> with a default, \<open>insert\<close>, \<open>remove\<close>,
  \<open>contains_key\<close>, \<open>len\<close>, \<open>retain\<close>); each call holds the lock of its entry, so it is one
  atomic step.  A table is an association list with distinct keys.  The locale states what
  the detectors rely on, and its interpretation shows that the operations below provide it.
\<close>

type_synonym ('k, 'v) table = "('k \<times> 'v) list"

definition tab_get :: "('k, 'v) table \<Rightarrow> 'k \<Rightarrow> 'v option" where
  "tab_get t k = map_of t k"

definition tab_insert :: "'k \<Rightarrow> 'v \<Rightarrow> ('k, 'v) table \<Rightarrow> ('k, 'v) table" where
  "tab_insert k v t = AList.update k v t"

definition tab_remove :: "'k \<Rightarrow> ('k, 'v) table \<Rightarrow> ('k, 'v) table" where
  "tab_remove k t = AList.delete k t"

text \<open>\<open>retain\<close> may also change the values it keeps.\<close>

definition tab_retain :: "('v \<Rightarrow> 'v option) \<Rightarrow> ('k, 'v) table \<Rightarrow> ('k, 'v) table" where
  "tab_retain f t = concat (map (\<lambda>(k, v). case f v of Some v' \<Rightarrow> [(k, v')] | None \<Rightarrow> []) t)"

definition tab_len :: "('k, 'v) table \<Rightarrow> usize" where
  "tab_len t = length t"

definition tab_ok :: "('k, 'v) table \<Rightarrow> bool" where
  "tab_ok t \<longleftrightarrow> distinct (map fst t)"

text \<open>\<open>entry(k).or_insert_with(d)\<close>: the value to work on.\<close>

definition entry_or :: "'k \<Rightarrow> 'v \<Rightarrow> ('k, 'v) table \<Rightarrow> 'v" where
  "entry_or k d t = (case tab_get t k of Some v \<Rightarrow> v | None \<Rightarrow> d)"

definition all_vals :: "('v \<Rightarrow> bool) \<Rightarrow> ('k \<Rightarrow> 'v option) \<Rightarrow> bool" where
  "all_vals P g \<longleftrightarrow> (\<forall>k v. g k = Some v \<longrightarrow> P v)"

locale keyed_table =
  fixes get :: "'t \<Rightarrow> 'k \<Rightarrow> 'v option"
    and put :: "'k \<Rightarrow> 'v \<Rightarrow> 't \<Rightarrow> 't"
    and del :: "'k \<Rightarrow> 't \<Rightarrow> 't"
    and retain :: "('v \<Rightarrow> 'v option) \<Rightarrow> 't \<Rightarrow> 't"
    and len :: "'t \<Rightarrow> nat"
    and ok :: "'t \<Rightarrow> bool"
  assumes get_put: "get (put k v t) k' = (if k' = k then Some v else get t k')"
    and get_del: "ok t \<Longrightarrow> get (del k t) k' = (if k' = k then None else get t k')"
    and get_retain: "ok t \<Longrightarrow> get (retain f t) k = Option.bind (get t k) f"
    and finite_get: "finite (dom (get t))"
    and len_card: "ok t \<Longrightarrow> len t = card (dom (get t))"
    and ok_put: "ok t \<Longrightarrow> ok (put k v t)"
    and ok_del: "ok t \<Longrightarrow> ok (del k t)"
    and ok_retain: "ok t \<Longrightarrow> ok (retain f t)"
begin

lemma get_put_same [simp]: "get (put k v t) k = Some v"
  and get_put_other [simp]: "k' \<noteq> k \<Longrightarrow> get (put k v t) k' = get t k'"
  by (simp_all add: get_put)

text \<open>Only the entry of the key changes: the independence of sources in every detector.\<close>

lemma put_frame: "k' \<noteq> k \<Longrightarrow> get (put k v t) k' = get t k'"
  by simp

lemma len_put: "ok t \<Longrightarrow> len (put k v t) = (if get t k = None then Suc (len t) else len t)"
proof -
  assume t: "ok t"
  have "dom (get (put k v t)) = insert k (dom (get t))" by (auto simp: get_put dom_def)
  then show ?thesis
    using t finite_get [of t] by (auto simp: len_card ok_put card_insert_if domIff)
qed

lemma len_del: "ok t \<Longrightarrow> len (del k t) = (if get t k = None then len t else len t - 1)"
proof -
  assume t: "ok t"
  then have "dom (get (del k t)) = dom (get t) - {k}" by (auto simp: get_del dom_def split: if_splits)
  then show ?thesis
    using t finite_get [of t] by (auto simp: len_card ok_del card_Diff_singleton domIff)
qed

lemma len_retain_le: "ok t \<Longrightarrow> len (retain f t) \<le> len t"
proof -
  assume t: "ok t"
  have "dom (get (retain f t)) \<subseteq> dom (get t)"
    using t by (auto simp: get_retain dom_def Option.bind_eq_Some_conv)
  then show ?thesis using t finite_get [of t] by (simp add: len_card ok_retain card_mono)
qed

text \<open>A property of all values is kept by the operations that establish it for what they write.\<close>

lemma all_vals_put: "all_vals P (get t) \<Longrightarrow> P v \<Longrightarrow> all_vals P (get (put k v t))"
  by (auto simp: all_vals_def get_put split: if_splits)

lemma all_vals_retain:
  "ok t \<Longrightarrow> all_vals P (get t) \<Longrightarrow> (\<And>v w. P v \<Longrightarrow> f v = Some w \<Longrightarrow> P w) \<Longrightarrow> all_vals P (get (retain f t))"
  by (auto simp: all_vals_def get_retain Option.bind_eq_Some_conv)

end

lemma map_of_retain:
  "distinct (map fst t) \<Longrightarrow> map_of (tab_retain f t) k = Option.bind (map_of t k) f"
proof (induction t)
  case Nil
  then show ?case by (simp add: tab_retain_def)
next
  case (Cons kv t)
  obtain k' v where kv: "kv = (k', v)" by force
  have "map_of t k' = None" using Cons.prems kv by (auto simp: map_of_eq_None_iff)
  then show ?case
    using Cons kv by (auto simp: tab_retain_def split: option.split)
qed

lemma retain_keys: "set (map fst (tab_retain f t)) \<subseteq> set (map fst t)"
  by (force simp: tab_retain_def split: option.splits)

lemma retain_distinct: "distinct (map fst t) \<Longrightarrow> distinct (map fst (tab_retain f t))"
proof (induction t)
  case Nil
  then show ?case by (simp add: tab_retain_def)
next
  case (Cons kv t)
  obtain k v where kv: "kv = (k, v)" by force
  have "tab_retain f (kv # t) = (case f v of Some w \<Rightarrow> [(k, w)] | None \<Rightarrow> []) @ tab_retain f t"
    by (simp add: tab_retain_def kv)
  with Cons kv retain_keys [of f t] show ?case by (auto split: option.split)
qed

interpretation tbl: keyed_table tab_get tab_insert tab_remove tab_retain tab_len tab_ok
proof unfold_locales
  fix t :: "('a, 'b) table"
  assume t: "tab_ok t"
  show "tab_len t = card (dom (tab_get t))"
    using t distinct_card [of "map fst t"]
    by (simp add: tab_len_def tab_get_def [abs_def] tab_ok_def dom_map_of_conv_image_fst)
qed (auto simp: tab_get_def [abs_def] tab_insert_def tab_remove_def tab_ok_def update_conv' delete_conv'
       finite_dom_map_of map_of_retain retain_distinct distinct_update distinct_delete)

lemma tab_ok_Nil [simp]: "tab_ok []"
  by (simp add: tab_ok_def)

lemma tab_get_Nil [simp]: "tab_get [] k = None"
  by (simp add: tab_get_def)

lemma entry_or_put_other: "k' \<noteq> k \<Longrightarrow> entry_or k' d (tab_insert k v t) = entry_or k' d t"
  by (simp add: entry_or_def)

end
