(* ===== verification/Sweep.thy ===== *)
theory Sweep
  imports Prelude
begin

text \<open>
  The contract between a detector and the background sweeper thread: \<open>sweep\<close> evicts stale
  entries to bound memory, and must not change what the detector reports.  A detector that
  meets the contract gives the same verdicts whether or not, and however often, it is swept
  between observations.  Observations carry the clock readings they make; \<open>lo\<close> and \<open>hi\<close>
  are the first and the last of them.
\<close>

datatype 'i detector_event = Observe 'i | Swept instant

fun detector_run ::
  "('i \<Rightarrow> 's \<Rightarrow> 'o \<times> 's) \<Rightarrow> (instant \<Rightarrow> 's \<Rightarrow> 's) \<Rightarrow> 'i detector_event list \<Rightarrow> 's \<Rightarrow> 'o list \<times> 's" where
  "detector_run obs sweep [] s = ([], s)"
| "detector_run obs sweep (Observe i # es) s =
     (case obs i s of (v, s') \<Rightarrow> case detector_run obs sweep es s' of (vs, s'') \<Rightarrow> (v # vs, s''))"
| "detector_run obs sweep (Swept t # es) s = detector_run obs sweep es (sweep t s)"

fun observations :: "'i detector_event list \<Rightarrow> 'i detector_event list" where
  "observations [] = []"
| "observations (Observe i # es) = Observe i # observations es"
| "observations (Swept t # es) = observations es"

fun timeline :: "('i \<Rightarrow> bool) \<Rightarrow> ('i \<Rightarrow> instant) \<Rightarrow> ('i \<Rightarrow> instant) \<Rightarrow> instant \<Rightarrow> 'i detector_event list \<Rightarrow> bool" where
  "timeline okin lo hi t [] \<longleftrightarrow> True"
| "timeline okin lo hi t (Observe i # es) \<longleftrightarrow> okin i \<and> t \<le> lo i \<and> timeline okin lo hi (hi i) es"
| "timeline okin lo hi t (Swept u # es) \<longleftrightarrow> t \<le> u \<and> timeline okin lo hi u es"

definition inputs_of :: "'i detector_event list \<Rightarrow> 'i set" where
  "inputs_of es = {i. Observe i \<in> set es}"

lemma inputs_of_simps [simp]:
  "inputs_of [] = {}"
  "inputs_of (Observe i # es) = insert i (inputs_of es)"
  "inputs_of (Swept t # es) = inputs_of es"
  by (auto simp: inputs_of_def)

lemma finite_inputs_of: "finite (inputs_of es)"
  by (induction es rule: observations.induct) auto

definition observed :: "('i \<Rightarrow> bool) \<Rightarrow> 'i detector_event list \<Rightarrow> nat" where
  "observed P es = length (filter (\<lambda>e. case e of Observe i \<Rightarrow> P i | Swept t \<Rightarrow> False) es)"

lemma observed_simps [simp]:
  "observed P [] = 0"
  "observed P (Observe i # es) = (if P i then Suc (observed P es) else observed P es)"
  "observed P (Swept t # es) = observed P es"
  by (simp_all add: observed_def)

lemma detector_run_state [simp]:
  "snd (detector_run obs sweep [] s) = s"
  "snd (detector_run obs sweep (Observe i # es) s) = snd (detector_run obs sweep es (snd (obs i s)))"
  "snd (detector_run obs sweep (Swept t # es) s) = snd (detector_run obs sweep es (sweep t s))"
  by (simp_all add: split_beta)

locale swept_detector =
  fixes obs :: "'i \<Rightarrow> 's \<Rightarrow> 'o \<times> 's"
    and sweep :: "instant \<Rightarrow> 's \<Rightarrow> 's"
    and okin :: "'i \<Rightarrow> bool"
    and lo :: "'i \<Rightarrow> instant"
    and hi :: "'i \<Rightarrow> instant"
    and ok :: "instant \<Rightarrow> 's \<Rightarrow> bool"
    and sim :: "instant \<Rightarrow> 's \<Rightarrow> 's \<Rightarrow> bool"
  assumes sim_refl: "ok t s \<Longrightarrow> sim t s s"
    and sim_obs: "sim t s s' \<Longrightarrow> okin i \<Longrightarrow> t \<le> lo i \<Longrightarrow>
      fst (obs i s) = fst (obs i s') \<and> sim (hi i) (snd (obs i s)) (snd (obs i s'))"
    and sim_sweep: "sim t s s' \<Longrightarrow> t \<le> u \<Longrightarrow> sim u (sweep u s) s'"
begin

lemma run_sim:
  "timeline okin lo hi t es \<Longrightarrow> sim t s s' \<Longrightarrow>
     fst (detector_run obs sweep es s) = fst (detector_run obs sweep (observations es) s')"
proof (induction es arbitrary: t s s')
  case Nil
  then show ?case by simp
next
  case (Cons e es)
  show ?case
  proof (cases e)
    case (Observe i)
    with Cons.prems have "timeline okin lo hi (hi i) es" "fst (obs i s) = fst (obs i s')"
      "sim (hi i) (snd (obs i s)) (snd (obs i s'))"
      using sim_obs [of t s s' i] by auto
    with Cons.IH show ?thesis using Observe by (auto simp: split_beta)
  next
    case (Swept u)
    with Cons.prems have "timeline okin lo hi u es" "sim u (sweep u s) s'"
      using sim_sweep by auto
    with Cons.IH show ?thesis using Swept by simp
  qed
qed

lemma sweeping_is_transparent:
  "ok t s \<Longrightarrow> timeline okin lo hi t es \<Longrightarrow>
     fst (detector_run obs sweep es s) = fst (detector_run obs sweep (observations es) s)"
  using run_sim sim_refl by blast

end

end
