(* ===== verification/RateLimit.thy ===== *)
theory RateLimit
  imports Score Table Sweep
begin

text \<open>
  Per-source rate limiting, \<open>ids/rate_limit.rs\<close>: a token bucket in \<open>f64\<close> arithmetic and
  two counters per one-second window.  One inspection reads the clock up to five times;
  \<open>rate_clock\<close> holds the readings in the order of the code.
\<close>

section \<open>State and operations\<close>

record bucket =
  tokens :: rat
  last_refill :: instant
  bk_bytes :: u64
  connections :: u64
  window_start :: instant

definition Bucket_new :: "rat \<Rightarrow> instant \<Rightarrow> instant \<Rightarrow> bucket" where
  "Bucket_new capacity t_refill t_window =
     \<lparr>tokens = capacity, last_refill = t_refill, bk_bytes = 0, connections = 0,
      window_start = t_window\<rparr>"

definition Bucket_consume :: "instant \<Rightarrow> rat \<Rightarrow> rat \<Rightarrow> bucket \<Rightarrow> bool \<times> bucket" where
  "Bucket_consume now rate_per_sec capacity b =
     (let elapsed = as_secs_f64 (duration_since now (last_refill b));
          b1 = b\<lparr>tokens := min (f64 (tokens b + f64 (elapsed * rate_per_sec))) capacity,
                 last_refill := now\<rparr>
      in if 1 \<le> tokens b1 then (True, b1\<lparr>tokens := f64 (tokens b1 - 1)\<rparr>) else (False, b1))"

record rate_limiter =
  buckets :: "(ip_addr, bucket) table"
  pkt_rate :: rat
  capacity :: rat
  bytes_rate :: u64
  conn_rate :: u64
  window_secs :: rat

definition RateLimiter_new :: rate_limiter where
  "RateLimiter_new =
     \<lparr>buckets = [], pkt_rate = 500, capacity = 1000, bytes_rate = 10 * 1024 * 1024,
      conn_rate = 50, window_secs = 1\<rparr>"

record rate_clock =
  rc_new_refill :: instant
  rc_new_window :: instant
  rc_elapsed :: instant
  rc_reset :: instant
  rc_consume :: instant

text \<open>The window reset and the counters of one observation.\<close>

definition rate_count :: "rate_limiter \<Rightarrow> rate_clock \<Rightarrow> u64 \<Rightarrow> bool \<Rightarrow> bucket \<Rightarrow> bucket" where
  "rate_count rl clk pkt_bytes is_syn b =
     (let b1 = (if window_secs rl \<le> as_secs_f64 (duration_since (rc_elapsed clk) (window_start b))
                then b\<lparr>bk_bytes := 0, connections := 0, window_start := rc_reset clk\<rparr> else b);
          b2 = b1\<lparr>bk_bytes := bk_bytes b1 + pkt_bytes\<rparr>
      in if is_syn then b2\<lparr>connections := connections b2 + 1\<rparr> else b2)"

definition RateLimiter_inspect ::
  "rate_clock \<Rightarrow> ip_addr \<Rightarrow> u64 \<Rightarrow> bool \<Rightarrow> rate_limiter \<Rightarrow> signal option \<times> rate_limiter" where
  "RateLimiter_inspect clk src pkt_bytes is_syn rl =
     (let b0 = entry_or src (Bucket_new (capacity rl) (rc_new_refill clk) (rc_new_window clk)) (buckets rl);
          b1 = rate_count rl clk pkt_bytes is_syn b0;
          (within_rate, b2) = Bucket_consume (rc_consume clk) (pkt_rate rl) (capacity rl) b1;
          rl' = rl\<lparr>buckets := tab_insert src b2 (buckets rl)\<rparr>
      in if \<not> within_rate then
           (Some \<lparr>sig_name = ''rate_exceeded_packets'', sig_score = SCORE_RATE_EXCEEDED,
                  sig_detail = fmt ''{} exceeded packet rate ({}/s)'' [FIp src, FFloat (pkt_rate rl)]\<rparr>, rl')
         else if bytes_rate rl < bk_bytes b2 then
           (Some \<lparr>sig_name = ''rate_exceeded_bytes'', sig_score = SCORE_RATE_EXCEEDED,
                  sig_detail = fmt ''{} sent {} bytes this window (limit {} B/s)''
                    [FIp src, FNat (unat (bk_bytes b2)), FNat (unat (bytes_rate rl))]\<rparr>, rl')
         else if is_syn \<and> conn_rate rl < connections b2 then
           (Some \<lparr>sig_name = ''rate_exceeded_connections'', sig_score = SCORE_RATE_EXCEEDED,
                  sig_detail = fmt ''{} opened {} connections this window (limit {})''
                    [FIp src, FNat (unat (connections b2)), FNat (unat (conn_rate rl))]\<rparr>, rl')
         else (None, rl'))"

text \<open>\<open>sweep\<close> reads the clock for every bucket; the sweep takes no measurable time here.\<close>

definition RateLimiter_sweep :: "instant \<Rightarrow> rate_limiter \<Rightarrow> rate_limiter" where
  "RateLimiter_sweep now rl =
     rl\<lparr>buckets := tab_retain (\<lambda>b. if as_secs (duration_since now (last_refill b)) < 120
                                   then Some b else None) (buckets rl)\<rparr>"

section \<open>Invariant: the token count stays between zero and the capacity\<close>

text \<open>The parameters are those of \<open>RateLimiter::new\<close>; no operation changes them.\<close>

definition rl_std :: "rate_limiter \<Rightarrow> bool" where
  "rl_std rl \<longleftrightarrow> pkt_rate rl = 500 \<and> capacity rl = 1000 \<and> bytes_rate rl = 10 * 1024 * 1024 \<and>
     conn_rate rl = 50 \<and> window_secs rl = 1"

definition tokens_ok :: "bucket \<Rightarrow> bool" where
  "tokens_ok b \<longleftrightarrow> 0 \<le> tokens b \<and> tokens b \<le> 1000"

definition rate_inv :: "rate_limiter \<Rightarrow> bool" where
  "rate_inv rl \<longleftrightarrow> rl_std rl \<and> tab_ok (buckets rl) \<and> all_vals tokens_ok (tab_get (buckets rl))"

lemma rate_count_sel [simp]:
  "tokens (rate_count rl clk n syn b) = tokens b"
  "last_refill (rate_count rl clk n syn b) = last_refill b"
  by (simp_all add: rate_count_def Let_def)

lemma Bucket_new_ok: "tokens_ok (Bucket_new 1000 t u)"
  by (simp add: tokens_ok_def Bucket_new_def)

text \<open>The tokens before the decision, and the decision.\<close>

definition refilled :: "instant \<Rightarrow> bucket \<Rightarrow> rat" where
  "refilled now b =
     min (f64 (tokens b + f64 (as_secs_f64 (duration_since now (last_refill b)) * 500))) 1000"

lemma consume_eq:
  "Bucket_consume now 500 1000 b =
     (if 1 \<le> refilled now b
      then (True, b\<lparr>tokens := f64 (refilled now b - 1), last_refill := now\<rparr>)
      else (False, b\<lparr>tokens := refilled now b, last_refill := now\<rparr>))"
  by (simp add: Bucket_consume_def refilled_def Let_def)

lemma refilled_bounds: "0 \<le> tokens b \<Longrightarrow> 0 \<le> refilled now b \<and> refilled now b \<le> 1000"
  by (auto simp: refilled_def intro!: f64_nonneg add_nonneg_nonneg mult_nonneg_nonneg as_secs_f64_nonneg)

lemma consume_tokens_ok: "tokens_ok b \<Longrightarrow> tokens_ok (snd (Bucket_consume now 500 1000 b))"
proof -
  assume "tokens_ok b"
  then have r: "0 \<le> refilled now b" "refilled now b \<le> 1000"
    using refilled_bounds by (auto simp: tokens_ok_def)
  have "1 \<le> refilled now b \<Longrightarrow> f64 (refilled now b - 1) \<le> 1000"
    using f64_le_nat [of "refilled now b - 1" 1000] r by simp
  with r show ?thesis by (auto simp: consume_eq tokens_ok_def f64_nonneg)
qed

text \<open>The bucket an inspection works on and the one it leaves.\<close>

definition bucket_for :: "rate_clock \<Rightarrow> ip_addr \<Rightarrow> rate_limiter \<Rightarrow> bucket" where
  "bucket_for clk src rl =
     entry_or src (Bucket_new 1000 (rc_new_refill clk) (rc_new_window clk)) (buckets rl)"

definition consumed :: "rate_clock \<Rightarrow> ip_addr \<Rightarrow> u64 \<Rightarrow> bool \<Rightarrow> rate_limiter \<Rightarrow> bool \<times> bucket" where
  "consumed clk src n syn rl =
     Bucket_consume (rc_consume clk) 500 1000 (rate_count rl clk n syn (bucket_for clk src rl))"

lemma inspect_state:
  "rl_std rl \<Longrightarrow> snd (RateLimiter_inspect clk src n syn rl) =
     rl\<lparr>buckets := tab_insert src (snd (consumed clk src n syn rl)) (buckets rl)\<rparr>"
  by (simp add: RateLimiter_inspect_def rl_std_def consumed_def bucket_for_def Let_def split_beta)

lemma inspect_verdict:
  "rl_std rl \<Longrightarrow> map_option sig_name (fst (RateLimiter_inspect clk src n syn rl)) =
     (if \<not> fst (consumed clk src n syn rl) then Some ''rate_exceeded_packets''
      else if 10 * 1024 * 1024 < bk_bytes (snd (consumed clk src n syn rl)) then Some ''rate_exceeded_bytes''
      else if syn \<and> 50 < connections (snd (consumed clk src n syn rl)) then Some ''rate_exceeded_connections''
      else None)"
  by (cases syn) (simp_all add: RateLimiter_inspect_def rl_std_def consumed_def bucket_for_def Let_def split_beta)

lemma bucket_for_ok: "rate_inv rl \<Longrightarrow> tokens_ok (bucket_for clk src rl)"
  by (auto simp: bucket_for_def entry_or_def rate_inv_def all_vals_def Bucket_new_ok split: option.split)

lemma rate_inv_new: "rate_inv RateLimiter_new"
  by (simp add: rate_inv_def rl_std_def RateLimiter_new_def all_vals_def)

lemma rate_inv_inspect: "rate_inv rl \<Longrightarrow> rate_inv (snd (RateLimiter_inspect clk src n syn rl))"
proof -
  assume inv: "rate_inv rl"
  have "tokens_ok (rate_count rl clk n syn (bucket_for clk src rl))"
    using bucket_for_ok [OF inv] by (simp add: tokens_ok_def)
  then have "tokens_ok (snd (consumed clk src n syn rl))"
    unfolding consumed_def by (rule consume_tokens_ok)
  with inv show ?thesis
    by (simp add: rate_inv_def rl_std_def inspect_state tbl.ok_put tbl.all_vals_put)
qed

lemma rate_inv_sweep: "rate_inv rl \<Longrightarrow> rate_inv (RateLimiter_sweep t rl)"
  by (auto simp: rate_inv_def rl_std_def RateLimiter_sweep_def tbl.ok_retain
           intro!: tbl.all_vals_retain split: if_splits)

section \<open>Sweeping is transparent\<close>

text \<open>An observation of the limiter: the clock readings, the source, the size and the SYN flag.\<close>

type_synonym rate_input = "rate_clock \<times> ip_addr \<times> u64 \<times> bool"

definition rate_obs :: "rate_input \<Rightarrow> rate_limiter \<Rightarrow> signal option \<times> rate_limiter" where
  "rate_obs i rl = (case i of (clk, src, n, syn) \<Rightarrow> RateLimiter_inspect clk src n syn rl)"

definition rate_clock_at :: "instant \<Rightarrow> rate_clock" where
  "rate_clock_at t = \<lparr>rc_new_refill = t, rc_new_window = t, rc_elapsed = t, rc_reset = t, rc_consume = t\<rparr>"

text \<open>The readings of one inspection coincide: it takes less than the clock's resolution.\<close>

definition rate_instant :: "rate_input \<Rightarrow> bool" where
  "rate_instant i \<longleftrightarrow> fst i = rate_clock_at (rc_consume (fst i))"

text \<open>Two limiters that differ only in buckets idle for 120 seconds or more.\<close>

definition stale_bucket :: "instant \<Rightarrow> bucket \<Rightarrow> bool" where
  "stale_bucket t b \<longleftrightarrow> last_refill b + from_secs 120 \<le> t"

definition bucket_sim :: "instant \<Rightarrow> bucket option \<Rightarrow> bucket option \<Rightarrow> bool" where
  "bucket_sim t x y \<longleftrightarrow> x = y \<or> (x = None \<and> (\<exists>b. y = Some b \<and> stale_bucket t b))"

definition bucket_wf :: "instant \<Rightarrow> bucket \<Rightarrow> bool" where
  "bucket_wf t b \<longleftrightarrow> 0 \<le> tokens b \<and> window_start b \<le> last_refill b \<and> last_refill b \<le> t"

definition rate_sim :: "instant \<Rightarrow> rate_limiter \<Rightarrow> rate_limiter \<Rightarrow> bool" where
  "rate_sim t r q \<longleftrightarrow> rl_std r \<and> rl_std q \<and> tab_ok (buckets r) \<and> tab_ok (buckets q) \<and>
     all_vals (bucket_wf t) (tab_get (buckets r)) \<and> all_vals (bucket_wf t) (tab_get (buckets q)) \<and>
     (\<forall>k. bucket_sim t (tab_get (buckets r) k) (tab_get (buckets q) k))"

lemma fresh_refill:
  assumes "0 \<le> tokens b" and "tokens b = 1000 \<or> last_refill b + from_secs 120 \<le> now"
  shows "refilled now b = 1000"
proof -
  have e: "0 \<le> f64 (as_secs_f64 (duration_since now (last_refill b)) * 500)"
    by (intro f64_nonneg mult_nonneg_nonneg as_secs_f64_nonneg) simp
  have "of_nat 1000 \<le> tokens b + f64 (as_secs_f64 (duration_since now (last_refill b)) * 500)"
    using assms(2)
  proof
    assume "tokens b = 1000"
    with e show ?thesis by simp
  next
    assume "last_refill b + from_secs 120 \<le> now"
    then have "of_nat 120 \<le> as_secs_f64 (duration_since now (last_refill b))"
      by (intro as_secs_f64_ge) (auto simp: duration_since_def)
    then have "of_nat 1000 \<le> f64 (as_secs_f64 (duration_since now (last_refill b)) * 500)"
      by (intro f64_ge_nat) auto
    with assms(1) show ?thesis by simp
  qed
  then have "of_nat 1000 \<le> f64 (tokens b + f64 (as_secs_f64 (duration_since now (last_refill b)) * 500))"
    by (rule f64_ge_nat) simp
  then show ?thesis by (simp add: refilled_def)
qed

text \<open>A stale bucket and the one created in its place come out of an inspection equal.\<close>

lemma stale_consumed:
  assumes "rl_std r" and "stale_bucket t b" and "bucket_wf t b" and "t \<le> u"
  shows "Bucket_consume u 500 1000 (rate_count r (rate_clock_at u) n syn b) =
    Bucket_consume u 500 1000 (rate_count r (rate_clock_at u) n syn (Bucket_new 1000 u u))"
proof -
  have idle: "last_refill b + from_secs 120 \<le> u" "window_start b \<le> last_refill b"
    using assms by (auto simp: stale_bucket_def bucket_wf_def)
  then have "window_start b + from_secs 120 \<le> u" by simp
  then have "of_nat 120 \<le> as_secs_f64 (duration_since u (window_start b))"
    by (intro as_secs_f64_ge) (auto simp: duration_since_def)
  then have reset: "1 \<le> as_secs_f64 (duration_since u (window_start b))" by simp
  have 1: "refilled u (rate_count r (rate_clock_at u) n syn b) = 1000"
    using idle assms(3) by (intro fresh_refill) (auto simp: bucket_wf_def)
  have 2: "refilled u (rate_count r (rate_clock_at u) n syn (Bucket_new 1000 u u)) = 1000"
    by (intro fresh_refill) (auto simp: Bucket_new_def)
  show ?thesis
    using assms(1) reset
    by (simp add: consume_eq 1 2, simp add: rate_count_def rl_std_def rate_clock_at_def Bucket_new_def
          duration_since_def Let_def)
qed

lemma bucket_wf_mono: "bucket_wf t b \<Longrightarrow> t \<le> u \<Longrightarrow> bucket_wf u b"
  by (simp add: bucket_wf_def)

lemma bucket_sim_mono: "bucket_sim t x y \<Longrightarrow> t \<le> u \<Longrightarrow> bucket_sim u x y"
  by (auto simp: bucket_sim_def stale_bucket_def)

lemma all_vals_mono: "all_vals P g \<Longrightarrow> (\<And>v. P v \<Longrightarrow> Q v) \<Longrightarrow> all_vals Q g"
  by (auto simp: all_vals_def)

lemma consumed_wf:
  assumes "bucket_wf u b"
  shows "bucket_wf u (snd (Bucket_consume u 500 1000 (rate_count r (rate_clock_at u) n syn b)))"
  using assms refilled_bounds [of "rate_count r (rate_clock_at u) n syn b" u]
  by (auto simp: consume_eq bucket_wf_def f64_nonneg, simp_all add: rate_count_def rate_clock_at_def Let_def)

lemma new_bucket_wf: "bucket_wf u (Bucket_new 1000 u u)"
  by (simp add: bucket_wf_def Bucket_new_def)

lemma rate_count_cong: "rl_std r \<Longrightarrow> rl_std q \<Longrightarrow> rate_count r = rate_count q"
  by (auto simp: rate_count_def rl_std_def fun_eq_iff Let_def)

lemma consumed_sim:
  assumes sim: "rate_sim t r q" and le: "t \<le> u"
  shows "consumed (rate_clock_at u) src n syn r = consumed (rate_clock_at u) src n syn q \<and>
     bucket_wf u (snd (consumed (rate_clock_at u) src n syn r))"
proof -
  have std: "rl_std r" "rl_std q" using sim by (auto simp: rate_sim_def)
  have k: "bucket_sim t (tab_get (buckets r) src) (tab_get (buckets q) src)"
    using sim by (simp add: rate_sim_def)
  have wf: "bucket_wf u (bucket_for (rate_clock_at u) src r)"
    using sim le new_bucket_wf [of u]
    by (auto simp: rate_sim_def all_vals_def bucket_for_def entry_or_def rate_clock_at_def
             dest: bucket_wf_mono split: option.split)
  have "consumed (rate_clock_at u) src n syn r = consumed (rate_clock_at u) src n syn q"
  proof (cases "tab_get (buckets r) src = tab_get (buckets q) src")
    case True
    then have "bucket_for (rate_clock_at u) src r = bucket_for (rate_clock_at u) src q"
      by (simp add: bucket_for_def entry_or_def)
    then show ?thesis by (simp add: consumed_def rate_count_cong [OF std])
  next
    case False
    with k obtain b where b: "tab_get (buckets r) src = None" "tab_get (buckets q) src = Some b"
      "stale_bucket t b" by (auto simp: bucket_sim_def)
    then have "bucket_wf t b" using sim by (simp add: rate_sim_def all_vals_def)
    from stale_consumed [OF std(2) b(3) this le, of n syn] show ?thesis
      using b by (simp add: consumed_def bucket_for_def entry_or_def rate_count_cong [OF std]
                     rate_clock_at_def)
  qed
  moreover have "bucket_wf u (snd (consumed (rate_clock_at u) src n syn r))"
    using consumed_wf [OF wf] by (simp add: consumed_def rate_clock_at_def)
  ultimately show ?thesis by blast
qed

lemma inspect_by_consumed:
  assumes "rl_std r" and "rl_std q" and "consumed clk src n syn r = consumed clk src n syn q"
  shows "fst (RateLimiter_inspect clk src n syn r) = fst (RateLimiter_inspect clk src n syn q)"
  using assms
  by (cases syn) (simp_all add: RateLimiter_inspect_def consumed_def bucket_for_def rl_std_def Let_def split_beta)

lemma rate_sim_obs:
  assumes sim: "rate_sim t r q" and inst: "rate_instant i" and le: "t \<le> rc_consume (fst i)"
  shows "fst (rate_obs i r) = fst (rate_obs i q) \<and>
     rate_sim (rc_consume (fst i)) (snd (rate_obs i r)) (snd (rate_obs i q))"
proof -
  obtain clk src n syn where i: "i = (clk, src, n, syn)" by (cases i)
  define u where "u = rc_consume clk"
  have clk: "clk = rate_clock_at u" and le': "t \<le> u"
    using inst le by (auto simp: rate_instant_def i u_def)
  have std: "rl_std r" "rl_std q" using sim by (auto simp: rate_sim_def)
  note c = consumed_sim [OF sim le', of src n syn]
  have "rate_sim u (snd (RateLimiter_inspect clk src n syn r)) (snd (RateLimiter_inspect clk src n syn q))"
    using sim c le'
    by (auto simp: rate_sim_def rl_std_def inspect_state [OF std(1)] inspect_state [OF std(2)] clk
          tbl.ok_put tbl.get_put bucket_sim_def [of u "Some _" "Some _"]
          intro!: tbl.all_vals_put elim: all_vals_mono intro: bucket_wf_mono bucket_sim_mono)
  with inspect_by_consumed [OF std] c show ?thesis
    by (simp add: rate_obs_def i clk) (simp add: rate_clock_at_def)
qed

lemma stale_iff:
  "\<not> as_secs (duration_since u (last_refill b)) < 120 \<Longrightarrow> stale_bucket u b"
  by (auto simp: stale_bucket_def time_defs)

lemma rate_sim_sweep:
  assumes sim: "rate_sim t r q" and le: "t \<le> u"
  shows "rate_sim u (RateLimiter_sweep u r) q"
proof -
  let ?f = "\<lambda>b. if as_secs (duration_since u (last_refill b)) < 120 then Some b else None"
  have "bucket_sim u (Option.bind (tab_get (buckets r) k) ?f) (tab_get (buckets q) k)" for k
  proof -
    have "bucket_sim u (tab_get (buckets r) k) (tab_get (buckets q) k)"
      using sim le bucket_sim_mono [of t _ _ u] by (auto simp: rate_sim_def)
    then show ?thesis
    proof (cases "tab_get (buckets r) k")
      case (Some b)
      with \<open>bucket_sim u (tab_get (buckets r) k) (tab_get (buckets q) k)\<close>
      have "tab_get (buckets q) k = Some b" by (auto simp: bucket_sim_def)
      with Some show ?thesis using stale_iff [of u b] by (auto simp: bucket_sim_def)
    qed simp
  qed
  with sim le show ?thesis
    by (auto simp: rate_sim_def rl_std_def RateLimiter_sweep_def tbl.ok_retain tbl.get_retain
          intro!: tbl.all_vals_retain elim: all_vals_mono intro: bucket_wf_mono split: if_splits)
qed

definition rate_ok :: "instant \<Rightarrow> rate_limiter \<Rightarrow> bool" where
  "rate_ok t r \<longleftrightarrow> rate_sim t r r"

interpretation rate_sweep: swept_detector rate_obs RateLimiter_sweep rate_instant
  "\<lambda>i. rc_consume (fst i)" "\<lambda>i. rc_consume (fst i)" rate_ok rate_sim
proof unfold_locales
  fix t u s s' i
  show "rate_ok t s \<Longrightarrow> rate_sim t s s" by (simp add: rate_ok_def)
  show "rate_sim t s s' \<Longrightarrow> rate_instant i \<Longrightarrow> t \<le> rc_consume (fst i) \<Longrightarrow>
     fst (rate_obs i s) = fst (rate_obs i s') \<and>
     rate_sim (rc_consume (fst i)) (snd (rate_obs i s)) (snd (rate_obs i s'))"
    by (rule rate_sim_obs)
  show "rate_sim t s s' \<Longrightarrow> t \<le> u \<Longrightarrow> rate_sim u (RateLimiter_sweep u s) s'"
    by (rule rate_sim_sweep)
qed

lemma rate_ok_new: "rate_ok t RateLimiter_new"
  by (auto simp: rate_ok_def rate_sim_def rl_std_def RateLimiter_new_def all_vals_def bucket_sim_def)

section \<open>Bursts and sustained rates\<close>

definition flags_rate :: "signal option \<Rightarrow> bool" where
  "flags_rate v \<longleftrightarrow> map_option sig_name v = Some ''rate_exceeded_packets''"

lemma flags_rate_consumed:
  "rl_std rl \<Longrightarrow> flags_rate (fst (RateLimiter_inspect clk src n syn rl)) \<longleftrightarrow> \<not> fst (consumed clk src n syn rl)"
  by (simp add: flags_rate_def inspect_verdict)

text \<open>Without time passing, each packet takes one of the \<open>k\<close> tokens that are left.\<close>

lemma refilled_same_time:
  "last_refill b = t \<Longrightarrow> tokens b = of_nat k \<Longrightarrow> k \<le> 1000 \<Longrightarrow> refilled t b = of_nat k"
  using f64_of_nat [of k] by (simp add: refilled_def duration_since_def)

lemma consume_same_time:
  assumes "last_refill b = t" and "tokens b = of_nat k" and "k \<le> 1000"
  shows "fst (Bucket_consume t 500 1000 b) \<longleftrightarrow> 0 < k"
    and "tokens (snd (Bucket_consume t 500 1000 b)) = of_nat (k - 1)"
    and "last_refill (snd (Bucket_consume t 500 1000 b)) = t"
proof -
  have "rat_of_nat k - 1 = of_nat (k - 1)" if "0 < k" using that by (simp add: of_nat_diff)
  moreover have "f64 (of_nat (k - 1)) = of_nat (k - 1)" using assms(3) by (intro f64_of_nat) simp
  ultimately show "fst (Bucket_consume t 500 1000 b) \<longleftrightarrow> 0 < k"
    and "tokens (snd (Bucket_consume t 500 1000 b)) = of_nat (k - 1)"
    and "last_refill (snd (Bucket_consume t 500 1000 b)) = t"
    by (auto simp: consume_eq refilled_same_time [OF assms])
qed

lemma burst_verdicts:
  assumes "rl_std rl" and "k \<le> 1000"
    and "last_refill (bucket_for (rate_clock_at t) src rl) = t"
    and "tokens (bucket_for (rate_clock_at t) src rl) = of_nat k"
  shows "map flags_rate (fst (detector_run rate_obs RateLimiter_sweep
      (replicate m (Observe (rate_clock_at t, src, n, syn))) rl)) =
    replicate (min m k) False @ replicate (m - k) True"
  using assms
proof (induction m arbitrary: rl k)
  case 0
  then show ?case by simp
next
  case (Suc m)
  let ?clk = "rate_clock_at t"
  define rl' where "rl' = snd (RateLimiter_inspect ?clk src n syn rl)"
  have rc: "rc_consume ?clk = t" by (simp add: rate_clock_at_def)
  have b: "last_refill (rate_count rl ?clk n syn (bucket_for ?clk src rl)) = t"
    "tokens (rate_count rl ?clk n syn (bucket_for ?clk src rl)) = of_nat k"
    using Suc.prems(3,4) by simp_all
  have now: "bucket_for ?clk src rl' = snd (consumed ?clk src n syn rl)" "rl_std rl'"
    using Suc.prems(1) by (auto simp: rl'_def inspect_state bucket_for_def entry_or_def rl_std_def)
  have "map flags_rate (fst (detector_run rate_obs RateLimiter_sweep
      (replicate m (Observe (?clk, src, n, syn))) rl')) =
      replicate (min m (k - 1)) False @ replicate (m - (k - 1)) True"
    using Suc.prems(2) consume_same_time [OF b Suc.prems(2)]
    by (intro Suc.IH) (simp_all add: now consumed_def rc)
  moreover have "flags_rate (fst (RateLimiter_inspect ?clk src n syn rl)) \<longleftrightarrow> k = 0"
    using consume_same_time(1) [OF b Suc.prems(2)] Suc.prems(1)
    by (simp add: flags_rate_consumed consumed_def rc)
  moreover have "fst (detector_run rate_obs RateLimiter_sweep
      (replicate (Suc m) (Observe (?clk, src, n, syn))) rl) =
      fst (RateLimiter_inspect ?clk src n syn rl) #
      fst (detector_run rate_obs RateLimiter_sweep (replicate m (Observe (?clk, src, n, syn))) rl')"
    by (simp add: rate_obs_def split_beta rl'_def)
  ultimately show ?case by (cases k) simp_all
qed

text \<open>Two milliseconds are worth at least one token, in \<open>f64\<close> arithmetic.\<close>

lemma f64_two_ms: "f64 (2000000 / 1000000000) = 4611686018427388 / 2305843009213693952"
proof -
  have u: "(1 / 500) / 2 powi (-9 - int 53 + 1) = (2305843009213693952 / 500 :: rat)"
    by (simp add: power_int_def power_divide)
  have "rnd 53 (1 / 500) = of_int (rne ((1 / 500) / 2 powi (-9 - int 53 + 1))) * 2 powi (-9 - int 53 + 1)"
    by (rule rnd_binade) (simp_all add: power_int_def power_divide)
  also have "rne ((1 / 500) / 2 powi (-9 - int 53 + 1)) = 4611686018427388"
    unfolding u by (rule rne_near) simp
  also have "of_int 4611686018427388 * 2 powi (-9 - int 53 + 1) = (4611686018427388 / 2305843009213693952 :: rat)"
    by (simp add: power_int_def power_divide)
  finally show ?thesis by (simp add: f64_def)
qed

lemma as_secs_f64_two_ms:
  assumes "2000000 \<le> d" shows "4611686018427388 / 2305843009213693952 \<le> as_secs_f64 d"
proof (cases "1000000000 \<le> d")
  case True
  then have "of_nat 1 \<le> as_secs_f64 d" by (intro as_secs_f64_ge) (auto simp: time_defs)
  then show ?thesis by simp
next
  case False
  then have d: "as_secs d = 0" "subsec_nanos d = d" by (auto simp: time_defs)
  have "f64 (2000000 / 1000000000) \<le> f64 (of_nat d / 1000000000)"
    using assms by (intro f64_mono) (auto simp: divide_simps)
  then have le: "4611686018427388 / 2305843009213693952 \<le> f64 (of_nat d / 1000000000)"
    by (simp only: f64_two_ms)
  then show ?thesis by (simp add: as_secs_f64_def d f64_idem)
qed

lemma spaced_refill:
  assumes "0 \<le> tokens b" and "last_refill b + 2000000 \<le> now"
  shows "1 \<le> refilled now b"
proof -
  have "4611686018427388 / 2305843009213693952 \<le> as_secs_f64 (duration_since now (last_refill b))"
    using assms(2) by (intro as_secs_f64_two_ms) (auto simp: duration_since_def)
  then have "of_nat 1 \<le> as_secs_f64 (duration_since now (last_refill b)) * 500" by simp
  then have "of_nat 1 \<le> f64 (as_secs_f64 (duration_since now (last_refill b)) * 500)"
    by (rule f64_ge_nat) simp
  then have "of_nat 1 \<le> tokens b + f64 (as_secs_f64 (duration_since now (last_refill b)) * 500)"
    using assms(1) by simp
  then have "of_nat 1 \<le> f64 (tokens b + f64 (as_secs_f64 (duration_since now (last_refill b)) * 500))"
    by (rule f64_ge_nat) simp
  then show ?thesis by (simp add: refilled_def)
qed

section \<open>Properties\<close>

lemma rate_inv_run:
  "rate_inv rl \<Longrightarrow> rate_inv (snd (detector_run rate_obs RateLimiter_sweep es rl))"
proof (induction es arbitrary: rl)
  case Nil
  then show ?case by simp
next
  case (Cons e es)
  then show ?case
    by (cases e) (auto simp: split_beta rate_obs_def intro: rate_inv_inspect rate_inv_sweep)
qed

text \<open>Starting from \<open>RateLimiter::new\<close>, whatever is observed and however the clock
  behaves (readings may even go backwards), every bucket keeps between 0 and 1000 tokens, in
  \<open>f64\<close> arithmetic with all its roundings, and the configured limits never change.\<close>

theorem rate_tokens_bounded:
  "rate_inv (snd (detector_run rate_obs RateLimiter_sweep es RateLimiter_new))"
  by (intro rate_inv_run rate_inv_new)

text \<open>C23 (functional). A burst: of any number of packets that a new source sends at one instant,
  exactly the first 1000 are within the packet rate and all later ones are flagged.\<close>

theorem rate_burst_exact:
  "map flags_rate (fst (detector_run rate_obs RateLimiter_sweep
      (replicate m (Observe (rate_clock_at t, src, n, syn))) RateLimiter_new)) =
    replicate (min m 1000) False @ replicate (m - 1000) True"
proof (rule burst_verdicts)
  show "rl_std RateLimiter_new" using rate_inv_new by (simp add: rate_inv_def)
qed (simp_all add: bucket_for_def entry_or_def RateLimiter_new_def Bucket_new_def rate_clock_at_def)



text \<open>C24 (equivalence). Sweeping is invisible as long as an inspection takes no measurable time: for any
  sequence of observations, in each of which all readings of the clock agree, and of sweeps, in
  the order of the clock, the limiter gives the same verdicts as without any sweep, although
  sweeping forgets every source idle for two minutes.  (If the readings within an inspection
  differ, the window of a bucket that was swept and made anew may start a moment earlier than that
  of one that was kept and reset, and the byte count of a later window may differ.)\<close>

theorem rate_sweep_transparent:
  assumes "timeline rate_instant (\<lambda>i. rc_consume (fst i)) (\<lambda>i. rc_consume (fst i)) t es"
  shows "fst (detector_run rate_obs RateLimiter_sweep es RateLimiter_new) =
     fst (detector_run rate_obs RateLimiter_sweep (observations es) RateLimiter_new)"
  using rate_ok_new assms by (rule rate_sweep.sweeping_is_transparent)

theorem rate_sweep_transparent_witness:
  "fst (detector_run rate_obs RateLimiter_sweep
      [Observe (rate_clock_at 0, V4 10 0 0 1, 60, True), Swept (from_secs 200),
       Observe (rate_clock_at (from_secs 201), V4 10 0 0 1, 60, True)] RateLimiter_new) =
   fst (detector_run rate_obs RateLimiter_sweep
      [Observe (rate_clock_at 0, V4 10 0 0 1, 60, True),
       Observe (rate_clock_at (from_secs 201), V4 10 0 0 1, 60, True)] RateLimiter_new)"
proof -
  have "timeline rate_instant (\<lambda>i. rc_consume (fst i)) (\<lambda>i. rc_consume (fst i)) 0
      [Observe (rate_clock_at 0, V4 10 0 0 1, 60, True), Swept (from_secs 200),
       Observe (rate_clock_at (from_secs 201), V4 10 0 0 1, 60, True)]"
    by (simp add: rate_instant_def rate_clock_at_def from_secs_def)
  from rate_sweep_transparent [OF this] show ?thesis by (simp only: observations.simps)
qed

text \<open>Sources are independent: inspecting a packet of one source does not change the
  verdict on a packet of another, whatever state the limiter is in.\<close>

theorem rate_sources_independent:
  assumes "src' \<noteq> src"
  shows "fst (RateLimiter_inspect clk' src' n' syn' (snd (RateLimiter_inspect clk src n syn rl))) =
     fst (RateLimiter_inspect clk' src' n' syn' rl)"
proof -
  define b where "b = snd (Bucket_consume (rc_consume clk) (pkt_rate rl) (capacity rl)
      (rate_count rl clk n syn
        (entry_or src (Bucket_new (capacity rl) (rc_new_refill clk) (rc_new_window clk)) (buckets rl))))"
  have st: "snd (RateLimiter_inspect clk src n syn rl) =
      rl\<lparr>buckets := tab_insert src b (buckets rl)\<rparr>"
    by (simp add: RateLimiter_inspect_def b_def Let_def split_beta)
  have "rate_count (rl\<lparr>buckets := tab_insert src b (buckets rl)\<rparr>) = rate_count rl"
    by (auto simp: rate_count_def fun_eq_iff Let_def)
  with assms show ?thesis
    by (cases syn') (simp_all add: st, simp_all add: RateLimiter_inspect_def entry_or_put_other Let_def split_beta)
qed

theorem rate_sources_independent_witness:
  "fst (RateLimiter_inspect (rate_clock_at 1) (V4 10 0 1 2) 100 False
     (snd (RateLimiter_inspect (rate_clock_at 1) (V4 10 0 1 1) 100 False RateLimiter_new))) =
   fst (RateLimiter_inspect (rate_clock_at 1) (V4 10 0 1 2) 100 False RateLimiter_new)"
  by (rule rate_sources_independent) simp

end
