(* ===== verification/PortScan.thy ===== *)
theory PortScan
  imports Score Table Sweep
begin

unbundle bit_operations_syntax

text \<open>
  Port-scan detection, \<open>ids/port_scan.rs\<close>: per source the distinct destination ports, per
  port the distinct source hashes, each within a sliding window.  The 64-bit hash of an
  address (\<open>DefaultHasher\<close>, whose algorithm the standard library leaves open) is the
  parameter \<open>hash64\<close>.
\<close>

section \<open>State and operations\<close>

record sliding_set =
  entries :: "(u16 \<times> instant) list"
  ss_window :: duration

definition SlidingSet_new :: "duration \<Rightarrow> sliding_set" where
  "SlidingSet_new w = \<lparr>entries = [], ss_window = w\<rparr>"

definition live :: "instant \<Rightarrow> duration \<Rightarrow> (u16 \<times> instant) list \<Rightarrow> (u16 \<times> instant) list" where
  "live now w es = filter (\<lambda>(_, t). duration_since now t < w) es"

definition SlidingSet_insert :: "instant \<Rightarrow> u16 \<Rightarrow> sliding_set \<Rightarrow> usize \<times> sliding_set" where
  "SlidingSet_insert now val s =
     (let es = live now (ss_window s) (entries s);
          es' = (if list_ex (\<lambda>(v, _). v = val) es then es else es @ [(val, now)])
      in (length es', s\<lparr>entries := es'\<rparr>))"

definition SlidingSet_unique_count :: "sliding_set \<Rightarrow> usize" where
  "SlidingSet_unique_count s = length (entries s)"

record port_scan =
  ports_per_src :: "(ip_addr, sliding_set) table"
  srcs_per_port :: "(u16, sliding_set) table"
  ps_window :: duration
  port_threshold :: usize
  src_threshold :: usize

definition PortScanDetector_new :: port_scan where
  "PortScanDetector_new =
     \<lparr>ports_per_src = [], srcs_per_port = [], ps_window = from_secs 60,
      port_threshold = 20, src_threshold = 50\<rparr>"

definition ip_hash :: "(ip_addr \<Rightarrow> u64) \<Rightarrow> ip_addr \<Rightarrow> u16" where
  "ip_hash hash64 ip = ucast (hash64 ip AND 0xFFFF)"

record scan_clock =
  sc_ports :: instant
  sc_srcs :: instant

text \<open>The two blocks that insert into a sliding set, each under the guard of one entry, and the checks
  of the counts they give.\<close>

definition insert_port :: "scan_clock \<Rightarrow> ip_addr \<Rightarrow> u16 \<Rightarrow> port_scan \<Rightarrow> usize \<times> port_scan" where
  "insert_port clk src dst_port d =
     (let (horizontal, ports) =
            SlidingSet_insert (sc_ports clk) dst_port
              (entry_or src (SlidingSet_new (ps_window d)) (ports_per_src d))
      in (horizontal, d\<lparr>ports_per_src := tab_insert src ports (ports_per_src d)\<rparr>))"

definition horizontal_signal :: "ip_addr \<Rightarrow> usize \<Rightarrow> port_scan \<Rightarrow> signal option" where
  "horizontal_signal src horizontal d =
     (if port_threshold d \<le> horizontal then
        Some \<lparr>sig_name = ''port_scan_horizontal'', sig_score = SCORE_PORT_SCAN,
              sig_detail = fmt ''{} contacted {} distinct ports in {}s window''
                [FIp src, FNat horizontal, FNat (as_secs (ps_window d))]\<rparr>
      else None)"

definition insert_src :: "(ip_addr \<Rightarrow> u64) \<Rightarrow> scan_clock \<Rightarrow> ip_addr \<Rightarrow> u16 \<Rightarrow> port_scan \<Rightarrow> usize \<times> port_scan" where
  "insert_src hash64 clk src dst_port d =
     (let (vertical, srcs) =
            SlidingSet_insert (sc_srcs clk) (ip_hash hash64 src)
              (entry_or dst_port (SlidingSet_new (ps_window d)) (srcs_per_port d))
      in (vertical, d\<lparr>srcs_per_port := tab_insert dst_port srcs (srcs_per_port d)\<rparr>))"

definition vertical_signal :: "u16 \<Rightarrow> usize \<Rightarrow> port_scan \<Rightarrow> signal option" where
  "vertical_signal dst_port vertical d =
     (if src_threshold d \<le> vertical then
        Some \<lparr>sig_name = ''port_scan_vertical'', sig_score = SCORE_PORT_SCAN,
              sig_detail = fmt ''port {} hit by {} distinct sources in {}s window''
                [FNat (unat dst_port), FNat vertical, FNat (as_secs (ps_window d))]\<rparr>
      else None)"

definition PortScanDetector_inspect ::
  "(ip_addr \<Rightarrow> u64) \<Rightarrow> scan_clock \<Rightarrow> ip_addr \<Rightarrow> u16 \<Rightarrow> port_scan \<Rightarrow> signal option \<times> port_scan" where
  "PortScanDetector_inspect hash64 clk src dst_port d =
     (let (horizontal, d1) = insert_port clk src dst_port d
      in case horizontal_signal src horizontal d1 of
           Some s \<Rightarrow> (Some s, d1)
         | None \<Rightarrow>
             let (vertical, d2) = insert_src hash64 clk src dst_port d1
             in (vertical_signal dst_port vertical d2, d2))"

lemmas scan_inspect_defs =
  PortScanDetector_inspect_def insert_port_def horizontal_signal_def insert_src_def vertical_signal_def

definition sweep_set :: "instant \<Rightarrow> sliding_set \<Rightarrow> sliding_set option" where
  "sweep_set now v =
     (let es = live now (ss_window v) (entries v)
      in if es \<noteq> [] then Some (v\<lparr>entries := es\<rparr>) else None)"

definition sweep_ports :: "instant \<Rightarrow> port_scan \<Rightarrow> port_scan" where
  "sweep_ports now d = d\<lparr>ports_per_src := tab_retain (sweep_set now) (ports_per_src d)\<rparr>"

definition sweep_srcs :: "instant \<Rightarrow> port_scan \<Rightarrow> port_scan" where
  "sweep_srcs now d = d\<lparr>srcs_per_port := tab_retain (sweep_set now) (srcs_per_port d)\<rparr>"

definition PortScanDetector_sweep :: "instant \<Rightarrow> port_scan \<Rightarrow> port_scan" where
  "PortScanDetector_sweep now d = sweep_srcs now (sweep_ports now d)"

lemmas scan_sweep_defs = PortScanDetector_sweep_def sweep_ports_def sweep_srcs_def

section \<open>The sliding set\<close>

lemma live_live: "t \<le> u \<Longrightarrow> live u w (live t w es) = live u w es"
  unfolding live_def duration_since_def by (rule filter_idem_weaker) auto

lemma live_subset: "set (live t w es) \<subseteq> set es"
  by (auto simp: live_def)

text \<open>The values of a set are distinct, so its length is the number of values seen.\<close>

definition set_ok :: "sliding_set \<Rightarrow> bool" where
  "set_ok s \<longleftrightarrow> distinct (map fst (entries s))"

lemma distinct_live: "distinct (map fst es) \<Longrightarrow> distinct (map fst (live t w es))"
  by (simp add: live_def distinct_map_filter)

lemma insert_ok: "set_ok s \<Longrightarrow> set_ok (snd (SlidingSet_insert t v s))"
  using distinct_live by (auto simp: set_ok_def SlidingSet_insert_def Let_def list_ex_iff)

lemma insert_values:
  "set (map fst (entries (snd (SlidingSet_insert t v s)))) \<subseteq> insert v (set (map fst (entries s)))"
  by (auto simp: SlidingSet_insert_def live_def Let_def)

lemma insert_count:
  "fst (SlidingSet_insert t v s) = length (entries (snd (SlidingSet_insert t v s)))"
  by (simp add: SlidingSet_insert_def Let_def)

lemma insert_window [simp]: "ss_window (snd (SlidingSet_insert t v s)) = ss_window s"
  by (simp add: SlidingSet_insert_def Let_def)

lemma set_count_card: "set_ok s \<Longrightarrow> length (entries s) = card (set (map fst (entries s)))"
  using distinct_card [of "map fst (entries s)"] by (simp add: set_ok_def)

text \<open>Two sets that agree on their live entries behave alike from then on.\<close>

definition set_sim :: "instant \<Rightarrow> duration \<Rightarrow> sliding_set option \<Rightarrow> sliding_set option \<Rightarrow> bool" where
  "set_sim t w x y \<longleftrightarrow>
     live t w (case x of None \<Rightarrow> [] | Some s \<Rightarrow> entries s) = live t w (case y of None \<Rightarrow> [] | Some s \<Rightarrow> entries s)"

lemma set_sim_mono: "set_sim t w x y \<Longrightarrow> t \<le> u \<Longrightarrow> set_sim u w x y"
proof -
  assume s: "set_sim t w x y" and le: "t \<le> u"
  have "live u w (live t w (case x of None \<Rightarrow> [] | Some s \<Rightarrow> entries s)) =
      live u w (live t w (case y of None \<Rightarrow> [] | Some s \<Rightarrow> entries s))"
    using s by (simp add: set_sim_def)
  then show ?thesis by (simp only: live_live [OF le] set_sim_def)
qed

definition window_is :: "duration \<Rightarrow> sliding_set \<Rightarrow> bool" where
  "window_is w s \<longleftrightarrow> ss_window s = w"

lemma sliding_set_eqI: "entries a = entries b \<Longrightarrow> ss_window a = ss_window b \<Longrightarrow> a = (b :: sliding_set)"
  by (cases a; cases b) simp

lemma insert_sim:
  assumes "set_sim t w (tab_get p k) (tab_get q k)" and "t \<le> u"
    and "all_vals (window_is w) (tab_get p)" and "all_vals (window_is w) (tab_get q)"
  shows "SlidingSet_insert u v (entry_or k (SlidingSet_new w) p) =
     SlidingSet_insert u v (entry_or k (SlidingSet_new w) q)"
proof -
  have win: "ss_window (entry_or k (SlidingSet_new w) p) = w" "ss_window (entry_or k (SlidingSet_new w) q) = w"
    using assms(3,4)
    by (auto simp: entry_or_def all_vals_def window_is_def SlidingSet_new_def split: option.split)
  have "live u w (entries (entry_or k (SlidingSet_new w) p)) = live u w (entries (entry_or k (SlidingSet_new w) q))"
    using set_sim_mono [OF assms(1,2)]
    by (auto simp: set_sim_def entry_or_def SlidingSet_new_def split: option.splits)
  with win show ?thesis
    by (simp add: SlidingSet_insert_def Let_def sliding_set_eqI)
qed

lemma sweep_sim: "ss_window s = w \<Longrightarrow> set_sim t w (sweep_set t s) (Some s)"
  using live_live [of t t w "entries s"] by (auto simp: set_sim_def sweep_set_def Let_def)

section \<open>The detector\<close>

type_synonym scan_input = "scan_clock \<times> ip_addr \<times> u16"

definition scan_obs :: "(ip_addr \<Rightarrow> u64) \<Rightarrow> scan_input \<Rightarrow> port_scan \<Rightarrow> signal option \<times> port_scan" where
  "scan_obs hash64 i d = (case i of (clk, src, port) \<Rightarrow> PortScanDetector_inspect hash64 clk src port d)"

definition scan_std :: "port_scan \<Rightarrow> bool" where
  "scan_std d \<longleftrightarrow> ps_window d = from_secs 60 \<and> port_threshold d = 20 \<and> src_threshold d = 50 \<and>
     tab_ok (ports_per_src d) \<and> tab_ok (srcs_per_port d) \<and>
     all_vals (window_is (from_secs 60)) (tab_get (ports_per_src d)) \<and>
     all_vals (window_is (from_secs 60)) (tab_get (srcs_per_port d))"

text \<open>The two insertions of an inspection; the second happens only below the first threshold.\<close>

definition ports_step :: "scan_clock \<Rightarrow> ip_addr \<Rightarrow> u16 \<Rightarrow> port_scan \<Rightarrow> usize \<times> sliding_set" where
  "ports_step clk src port d =
     SlidingSet_insert (sc_ports clk) port (entry_or src (SlidingSet_new (from_secs 60)) (ports_per_src d))"

definition srcs_step :: "(ip_addr \<Rightarrow> u64) \<Rightarrow> scan_clock \<Rightarrow> ip_addr \<Rightarrow> u16 \<Rightarrow> port_scan \<Rightarrow> usize \<times> sliding_set" where
  "srcs_step hash64 clk src port d =
     SlidingSet_insert (sc_srcs clk) (ip_hash hash64 src)
       (entry_or port (SlidingSet_new (from_secs 60)) (srcs_per_port d))"

lemma scan_inspect_eq:
  "scan_std d \<Longrightarrow> map_option sig_name (fst (PortScanDetector_inspect hash64 clk src port d)) =
     (if 20 \<le> fst (ports_step clk src port d) then Some ''port_scan_horizontal''
      else if 50 \<le> fst (srcs_step hash64 clk src port d) then Some ''port_scan_vertical'' else None)"
  "scan_std d \<Longrightarrow> snd (PortScanDetector_inspect hash64 clk src port d) =
     (let d1 = d\<lparr>ports_per_src := tab_insert src (snd (ports_step clk src port d)) (ports_per_src d)\<rparr>
      in if 20 \<le> fst (ports_step clk src port d) then d1
         else d1\<lparr>srcs_per_port := tab_insert port (snd (srcs_step hash64 clk src port d)) (srcs_per_port d)\<rparr>)"
  by (simp_all add: scan_std_def scan_inspect_defs ports_step_def srcs_step_def Let_def split_beta)

lemma scan_verdict_cong:
  assumes "scan_std d" and "scan_std e" and "ports_step clk src port d = ports_step clk src port e"
    and "srcs_step h clk src port d = srcs_step h clk src port e"
  shows "fst (PortScanDetector_inspect h clk src port d) = fst (PortScanDetector_inspect h clk src port e)"
  using assms
  by (simp add: scan_std_def scan_inspect_defs ports_step_def srcs_step_def Let_def split_beta)

lemma entry_window:
  "all_vals (window_is w) (tab_get p) \<Longrightarrow> ss_window (entry_or k (SlidingSet_new w) p) = w"
  by (auto simp: entry_or_def all_vals_def window_is_def SlidingSet_new_def split: option.split)

lemma scan_std_insert_port: "scan_std d \<Longrightarrow> scan_std (snd (insert_port clk src port d))"
  by (simp add: insert_port_def split_beta, simp add: scan_std_def tbl.ok_put tbl.all_vals_put window_is_def entry_window)

lemma scan_std_insert_src: "scan_std d \<Longrightarrow> scan_std (snd (insert_src h clk src port d))"
  by (simp add: insert_src_def split_beta, simp add: scan_std_def tbl.ok_put tbl.all_vals_put window_is_def entry_window)

lemma scan_std_obs: "scan_std d \<Longrightarrow> scan_std (snd (PortScanDetector_inspect h clk src port d))"
  using scan_std_insert_port [of d clk src port] scan_std_insert_src [of "snd (insert_port clk src port d)" h clk src port]
  by (auto simp: PortScanDetector_inspect_def Let_def split_beta split: option.split)

text \<open>Each insertion works on its own map.\<close>

lemma insert_frame:
  "insert_port clk src port (d\<lparr>srcs_per_port := t\<rparr>) =
     (fst (insert_port clk src port d), (snd (insert_port clk src port d))\<lparr>srcs_per_port := t\<rparr>)"
  "fst (insert_src h clk src port (snd (insert_port clk' src' port' d))) = fst (insert_src h clk src port d)"
  "srcs_per_port (snd (insert_port clk src port d)) = srcs_per_port d"
  by (simp_all add: insert_port_def insert_src_def split_beta)

lemma signal_frame:
  "horizontal_signal src n (d\<lparr>srcs_per_port := t\<rparr>) = horizontal_signal src n d"
  "horizontal_signal src n (snd (insert_port clk src' port d)) = horizontal_signal src n d"
  "vertical_signal port n (snd (insert_src h clk src port' d)) = vertical_signal port n d"
  "vertical_signal port n (snd (insert_port clk src port' d)) = vertical_signal port n d"
  "scan_std d \<Longrightarrow> scan_std e \<Longrightarrow> vertical_signal port n d = vertical_signal port n e"
  by (simp_all add: horizontal_signal_def vertical_signal_def insert_port_def insert_src_def split_beta scan_std_def)

lemma sweep_set_window: "window_is w v \<Longrightarrow> sweep_set t v = Some x \<Longrightarrow> window_is w x"
  by (auto simp: sweep_set_def window_is_def Let_def split: if_splits)

lemma scan_std_sweep_ports: "scan_std d \<Longrightarrow> scan_std (sweep_ports t d)"
  by (auto simp: scan_std_def sweep_ports_def tbl.ok_retain intro!: tbl.all_vals_retain intro: sweep_set_window)

lemma scan_std_sweep_srcs: "scan_std d \<Longrightarrow> scan_std (sweep_srcs t d)"
  by (auto simp: scan_std_def sweep_srcs_def tbl.ok_retain intro!: tbl.all_vals_retain intro: sweep_set_window)

lemma scan_std_sweep: "scan_std d \<Longrightarrow> scan_std (PortScanDetector_sweep t d)"
  by (simp add: PortScanDetector_sweep_def scan_std_sweep_ports scan_std_sweep_srcs)

lemma scan_std_new: "scan_std PortScanDetector_new"
  by (simp add: scan_std_def PortScanDetector_new_def all_vals_def)

section \<open>Sweeping is transparent\<close>

definition scan_sim :: "instant \<Rightarrow> port_scan \<Rightarrow> port_scan \<Rightarrow> bool" where
  "scan_sim t d e \<longleftrightarrow> scan_std d \<and> scan_std e \<and>
     (\<forall>k. set_sim t (from_secs 60) (tab_get (ports_per_src d) k) (tab_get (ports_per_src e) k)) \<and>
     (\<forall>k. set_sim t (from_secs 60) (tab_get (srcs_per_port d) k) (tab_get (srcs_per_port e) k))"

definition scan_ordered :: "scan_input \<Rightarrow> bool" where
  "scan_ordered i \<longleftrightarrow> sc_ports (fst i) \<le> sc_srcs (fst i)"

lemma set_sim_refl: "set_sim t w x x"
  by (simp add: set_sim_def)

lemma scan_sim_obs:
  assumes sim: "scan_sim t d e" and ord: "scan_ordered i" and le: "t \<le> sc_ports (fst i)"
  shows "fst (scan_obs h i d) = fst (scan_obs h i e) \<and>
     scan_sim (sc_srcs (fst i)) (snd (scan_obs h i d)) (snd (scan_obs h i e))"
proof -
  obtain clk src port where i: "i = (clk, src, port)" by (cases i)
  have std: "scan_std d" "scan_std e" using sim by (auto simp: scan_sim_def)
  have times: "t \<le> sc_ports clk" "t \<le> sc_srcs clk" using ord le by (auto simp: scan_ordered_def i)
  have p: "ports_step clk src port d = ports_step clk src port e"
    unfolding ports_step_def using sim times
    by (intro insert_sim) (auto simp: scan_sim_def scan_std_def)
  have s: "srcs_step h clk src port d = srcs_step h clk src port e"
    unfolding srcs_step_def using sim times
    by (intro insert_sim) (auto simp: scan_sim_def scan_std_def)
  let ?d = "snd (PortScanDetector_inspect h clk src port d)"
  let ?e = "snd (PortScanDetector_inspect h clk src port e)"
  have later: "set_sim (sc_srcs clk) (from_secs 60) (tab_get (ports_per_src d) k) (tab_get (ports_per_src e) k)"
    "set_sim (sc_srcs clk) (from_secs 60) (tab_get (srcs_per_port d) l) (tab_get (srcs_per_port e) l)" for k l
    using sim times(2) by (auto simp: scan_sim_def intro: set_sim_mono)
  have "set_sim (sc_srcs clk) (from_secs 60) (tab_get (ports_per_src ?d) k) (tab_get (ports_per_src ?e) k)"
    "set_sim (sc_srcs clk) (from_secs 60) (tab_get (srcs_per_port ?d) l) (tab_get (srcs_per_port ?e) l)" for k l
    using later by (simp_all add: scan_inspect_eq(2) [OF std(1)] scan_inspect_eq(2) [OF std(2)] p s
        Let_def tbl.get_put set_sim_refl)
  then have "scan_sim (sc_srcs clk) ?d ?e"
    using std scan_std_obs unfolding scan_sim_def by blast
  with scan_verdict_cong [OF std p s] show ?thesis by (simp add: scan_obs_def i)
qed

lemma retain_sweep_sim:
  assumes "set_sim t w (tab_get p k) (tab_get q k)" and "t \<le> u" and "tab_ok p"
    and "all_vals (window_is w) (tab_get p)"
  shows "set_sim u w (tab_get (tab_retain (sweep_set u) p) k) (tab_get q k)"
proof (cases "tab_get p k")
  case None
  then show ?thesis using assms set_sim_mono by (auto simp: tbl.get_retain)
next
  case (Some s)
  then have "ss_window s = w" using assms(4) by (auto simp: all_vals_def window_is_def)
  then have "set_sim u w (sweep_set u s) (Some s)" by (rule sweep_sim)
  moreover have "set_sim u w (Some s) (tab_get q k)" using set_sim_mono [OF assms(1,2)] Some by simp
  ultimately show ?thesis using assms(3) Some by (simp add: tbl.get_retain set_sim_def)
qed

lemma scan_sim_sweep:
  assumes "scan_sim t d e" and "t \<le> u"
  shows "scan_sim u (PortScanDetector_sweep u d) e"
proof -
  have d: "scan_std d" using assms(1) by (simp add: scan_sim_def)
  then have "set_sim u (from_secs 60) (tab_get (tab_retain (sweep_set u) (ports_per_src d)) k)
      (tab_get (ports_per_src e) k)"
    "set_sim u (from_secs 60) (tab_get (tab_retain (sweep_set u) (srcs_per_port d)) l)
      (tab_get (srcs_per_port e) l)" for k l
    using assms by (auto simp: scan_sim_def scan_std_def [of d] intro!: retain_sweep_sim [of t])
  with assms(1) scan_std_sweep [OF d, of u] show ?thesis
    by (simp add: scan_sim_def scan_sweep_defs)
qed

definition scan_ok :: "instant \<Rightarrow> port_scan \<Rightarrow> bool" where
  "scan_ok t d \<longleftrightarrow> scan_std d"

interpretation scan_sweep: swept_detector "scan_obs h" PortScanDetector_sweep scan_ordered
  "\<lambda>i. sc_ports (fst i)" "\<lambda>i. sc_srcs (fst i)" scan_ok scan_sim for h
proof unfold_locales
  fix t u s s' i
  show "scan_ok t s \<Longrightarrow> scan_sim t s s"
    by (simp add: scan_ok_def scan_sim_def set_sim_refl)
  show "scan_sim t s s' \<Longrightarrow> scan_ordered i \<Longrightarrow> t \<le> sc_ports (fst i) \<Longrightarrow>
     fst (scan_obs h i s) = fst (scan_obs h i s') \<and>
     scan_sim (sc_srcs (fst i)) (snd (scan_obs h i s)) (snd (scan_obs h i s'))"
    by (rule scan_sim_obs)
  show "scan_sim t s s' \<Longrightarrow> t \<le> u \<Longrightarrow> scan_sim u (PortScanDetector_sweep u s) s'"
    by (rule scan_sim_sweep)
qed

section \<open>What the sets remember\<close>

text \<open>Every entry of a set was observed, at the time it carries.\<close>

definition ports_sound :: "scan_input set \<Rightarrow> ip_addr \<Rightarrow> sliding_set \<Rightarrow> bool" where
  "ports_sound H src s \<longleftrightarrow> set_ok s \<and> ss_window s = from_secs 60 \<and>
     (\<forall>(p, t) \<in> set (entries s). \<exists>clk. (clk, src, p) \<in> H \<and> sc_ports clk = t)"

definition srcs_sound :: "(ip_addr \<Rightarrow> u64) \<Rightarrow> scan_input set \<Rightarrow> u16 \<Rightarrow> sliding_set \<Rightarrow> bool" where
  "srcs_sound h H p s \<longleftrightarrow> set_ok s \<and> ss_window s = from_secs 60 \<and>
     (\<forall>(v, t) \<in> set (entries s). \<exists>clk src. (clk, src, p) \<in> H \<and> ip_hash h src = v \<and> sc_srcs clk = t)"

definition scan_sound :: "(ip_addr \<Rightarrow> u64) \<Rightarrow> scan_input set \<Rightarrow> port_scan \<Rightarrow> bool" where
  "scan_sound h H d \<longleftrightarrow> scan_std d \<and>
     (\<forall>k s. tab_get (ports_per_src d) k = Some s \<longrightarrow> ports_sound H k s) \<and>
     (\<forall>k s. tab_get (srcs_per_port d) k = Some s \<longrightarrow> srcs_sound h H k s)"

lemma ports_sound_mono: "ports_sound H k s \<Longrightarrow> H \<subseteq> H' \<Longrightarrow> ports_sound H' k s"
  unfolding ports_sound_def by fast

lemma srcs_sound_mono: "srcs_sound h H k s \<Longrightarrow> H \<subseteq> H' \<Longrightarrow> srcs_sound h H' k s"
  unfolding srcs_sound_def by fast

lemma scan_sound_mono: "scan_sound h H d \<Longrightarrow> H \<subseteq> H' \<Longrightarrow> scan_sound h H' d"
  unfolding scan_sound_def by (blast intro: ports_sound_mono srcs_sound_mono)

lemma ports_sound_new: "ports_sound H k (SlidingSet_new (from_secs 60))"
  and srcs_sound_new: "srcs_sound h H p (SlidingSet_new (from_secs 60))"
  by (simp_all add: ports_sound_def srcs_sound_def SlidingSet_new_def set_ok_def)

lemma insert_entries:
  "set (entries (snd (SlidingSet_insert t v s))) \<subseteq>
     insert (v, t) {(x, u) \<in> set (entries s). duration_since t u < ss_window s}"
  by (auto simp: SlidingSet_insert_def live_def Let_def)

lemma ports_sound_insert:
  assumes "ports_sound H src s"
  shows "ports_sound (insert (clk, src, p) H) src (snd (SlidingSet_insert (sc_ports clk) p s))"
  unfolding ports_sound_def
proof (intro conjI ballI, goal_cases)
  case (3 x)
  with insert_entries [of "sc_ports clk" p s]
  have "x = (p, sc_ports clk) \<or> x \<in> set (entries s)" by auto
  with assms show ?case by (cases x) (fastforce simp: ports_sound_def)
qed (use assms insert_ok in \<open>simp_all add: ports_sound_def\<close>)

lemma srcs_sound_insert:
  assumes "srcs_sound h H p s"
  shows "srcs_sound h (insert (clk, src, p) H) p (snd (SlidingSet_insert (sc_srcs clk) (ip_hash h src) s))"
  unfolding srcs_sound_def
proof (intro conjI ballI, goal_cases)
  case (3 x)
  with insert_entries [of "sc_srcs clk" "ip_hash h src" s]
  have "x = (ip_hash h src, sc_srcs clk) \<or> x \<in> set (entries s)" by auto
  with assms show ?case by (cases x) (fastforce simp: srcs_sound_def)
qed (use assms insert_ok in \<open>simp_all add: srcs_sound_def\<close>)

lemma steps_sound:
  assumes "scan_sound h H d"
  shows "ports_sound (insert (clk, src, p) H) src (snd (ports_step clk src p d))"
    and "srcs_sound h (insert (clk, src, p) H) p (snd (srcs_step h clk src p d))"
  using assms
  by (auto simp: scan_sound_def ports_step_def srcs_step_def entry_or_def ports_sound_new srcs_sound_new
        split: option.split intro!: ports_sound_insert srcs_sound_insert)

lemma scan_sound_insert_port:
  assumes "scan_sound h H d"
  shows "scan_sound h (insert (clk, src, p) H) (snd (insert_port clk src p d))"
proof -
  have std: "scan_std d" using assms by (simp add: scan_sound_def)
  have eq: "snd (insert_port clk src p d) = d\<lparr>ports_per_src := tab_insert src (snd (ports_step clk src p d)) (ports_per_src d)\<rparr>"
    using std by (simp add: insert_port_def ports_step_def scan_std_def split_beta)
  have "scan_sound h (insert (clk, src, p) H) d" by (rule scan_sound_mono [OF assms subset_insertI])
  with steps_sound(1) [OF assms, of clk src p] scan_std_insert_port [OF std, of clk src p] show ?thesis
    unfolding eq scan_sound_def using std by (simp add: tbl.get_put scan_std_def)
qed

lemma scan_sound_insert_src:
  assumes "scan_sound h H d"
  shows "scan_sound h (insert (clk, src, p) H) (snd (insert_src h clk src p d))"
proof -
  have std: "scan_std d" using assms by (simp add: scan_sound_def)
  have eq: "snd (insert_src h clk src p d) = d\<lparr>srcs_per_port := tab_insert p (snd (srcs_step h clk src p d)) (srcs_per_port d)\<rparr>"
    using std by (simp add: insert_src_def srcs_step_def scan_std_def split_beta)
  have "scan_sound h (insert (clk, src, p) H) d" by (rule scan_sound_mono [OF assms subset_insertI])
  with steps_sound(2) [OF assms, of clk src p] scan_std_insert_src [OF std, of h clk src p] show ?thesis
    unfolding eq scan_sound_def using std by (simp add: tbl.get_put scan_std_def)
qed

lemma scan_sound_inspect:
  assumes "scan_sound h H d"
  shows "scan_sound h (insert (clk, src, p) H) (snd (PortScanDetector_inspect h clk src p d))"
  using scan_sound_insert_port [OF assms, of clk src p]
    scan_sound_insert_src [OF scan_sound_insert_port [OF assms, of clk src p], of clk src p]
  by (auto simp: PortScanDetector_inspect_def split_beta split: option.split)

lemma sweep_set_sound:
  "ports_sound H k s \<Longrightarrow> sweep_set t s = Some s' \<Longrightarrow> ports_sound H k s'"
  "srcs_sound h H p s \<Longrightarrow> sweep_set t s = Some s' \<Longrightarrow> srcs_sound h H p s'"
  by (auto simp: sweep_set_def ports_sound_def srcs_sound_def set_ok_def Let_def live_def distinct_map_filter
        split: if_splits)

lemma scan_sound_sweep_ports: "scan_sound h H d \<Longrightarrow> scan_sound h H (sweep_ports t d)"
  using scan_std_sweep_ports [of d t]
  by (auto simp: scan_sound_def sweep_ports_def tbl.get_retain scan_std_def Option.bind_eq_Some_conv intro: sweep_set_sound)

lemma scan_sound_sweep_srcs: "scan_sound h H d \<Longrightarrow> scan_sound h H (sweep_srcs t d)"
  using scan_std_sweep_srcs [of d t]
  by (simp add: scan_sound_def sweep_srcs_def tbl.get_retain scan_std_def Option.bind_eq_Some_conv)
    (blast intro: sweep_set_sound)

lemma scan_sound_sweep: "scan_sound h H d \<Longrightarrow> scan_sound h H (PortScanDetector_sweep t d)"
  by (simp add: PortScanDetector_sweep_def scan_sound_sweep_ports scan_sound_sweep_srcs)

abbreviation scan_state :: "(ip_addr \<Rightarrow> u64) \<Rightarrow> scan_input detector_event list \<Rightarrow> port_scan" where
  "scan_state h es \<equiv> snd (detector_run (scan_obs h) PortScanDetector_sweep es PortScanDetector_new)"

lemma scan_sound_run:
  "scan_sound h H d \<Longrightarrow>
     scan_sound h (H \<union> inputs_of es) (snd (detector_run (scan_obs h) PortScanDetector_sweep es d))"
proof (induction es arbitrary: H d)
  case (Cons e es)
  show ?case
  proof (cases e)
    case (Observe i)
    obtain clk src p where i: "i = (clk, src, p)" by (cases i)
    from Cons.IH [OF scan_sound_inspect [OF Cons.prems, of clk src p]] show ?thesis
      by (simp add: Observe i scan_obs_def split_beta)
  next
    case (Swept t)
    with Cons.IH [OF scan_sound_sweep [OF Cons.prems, of t]] show ?thesis by simp
  qed
qed simp

lemma scan_sound_state: "scan_sound h (inputs_of es) (scan_state h es)"
  using scan_sound_run [of h "{}" PortScanDetector_new es] scan_std_new
  by (simp add: scan_sound_def PortScanDetector_new_def)

section \<open>Completeness within one window\<close>

text \<open>While every observation of a source and every sweep falls into one span of sixty seconds,
  its set holds every port the source was seen with.\<close>

definition in_span :: "instant \<Rightarrow> instant \<Rightarrow> bool" where
  "in_span t0 t \<longleftrightarrow> t0 \<le> t \<and> t < t0 + from_secs 60"

fun event_in_span :: "instant \<Rightarrow> ip_addr \<Rightarrow> scan_input detector_event \<Rightarrow> bool" where
  "event_in_span t0 src (Observe (clk, s, p)) \<longleftrightarrow> s = src \<longrightarrow> in_span t0 (sc_ports clk)"
| "event_in_span t0 src (Swept t) \<longleftrightarrow> in_span t0 t"

definition seen_ports :: "scan_input set \<Rightarrow> ip_addr \<Rightarrow> u16 set" where
  "seen_ports H src = {p. \<exists>clk. (clk, src, p) \<in> H}"

definition has_ports :: "instant \<Rightarrow> u16 set \<Rightarrow> sliding_set option \<Rightarrow> bool" where
  "has_ports t0 P x \<longleftrightarrow> (case x of None \<Rightarrow> P = {}
     | Some s \<Rightarrow> set_ok s \<and> ss_window s = from_secs 60 \<and> fst ` set (entries s) = P \<and>
         (\<forall>e \<in> set (entries s). in_span t0 (snd e)))"

lemma span_live: "in_span t0 t \<Longrightarrow> in_span t0 u \<Longrightarrow> duration_since t u < from_secs 60"
  by (auto simp: in_span_def duration_since_def)

lemma live_span: "\<forall>e \<in> set es. in_span t0 (snd e) \<Longrightarrow> in_span t0 t \<Longrightarrow> live t (from_secs 60) es = es"
  by (auto simp: live_def filter_id_conv span_live)

lemma has_ports_insert:
  assumes "has_ports t0 P (tab_get m k)" and "in_span t0 t"
  shows "has_ports t0 (insert p P) (Some (snd (SlidingSet_insert t p (entry_or k (SlidingSet_new (from_secs 60)) m))))"
proof -
  define s where "s = entry_or k (SlidingSet_new (from_secs 60)) m"
  have s: "set_ok s" "ss_window s = from_secs 60" "fst ` set (entries s) = P"
    "\<forall>e \<in> set (entries s). in_span t0 (snd e)"
    using assms(1)
    by (auto simp: s_def entry_or_def has_ports_def SlidingSet_new_def set_ok_def split: option.splits)
  have "live t (from_secs 60) (entries s) = entries s" by (rule live_span [OF s(4) assms(2)])
  then have "entries (snd (SlidingSet_insert t p s)) =
      (if list_ex (\<lambda>(v, _). v = p) (entries s) then entries s else entries s @ [(p, t)])"
    by (simp add: SlidingSet_insert_def s(2) Let_def)
  moreover have "list_ex (\<lambda>(v, _). v = p) (entries s) \<longleftrightarrow> p \<in> P"
    using s(3) by (force simp: list_ex_iff)
  ultimately show ?thesis
    using s assms(2) insert_ok [OF s(1), of t p] by (auto simp: has_ports_def s_def [symmetric])
qed

lemma has_ports_sweep:
  "has_ports t0 P x \<Longrightarrow> in_span t0 t \<Longrightarrow> has_ports t0 P (Option.bind x (sweep_set t))"
  using live_span [of "entries (the x)" t0 t]
  by (cases x) (auto simp: has_ports_def sweep_set_def Let_def simp del: set_map)

lemma has_ports_run:
  assumes "scan_std d" and "has_ports t0 P (tab_get (ports_per_src d) src)"
    and "\<forall>e \<in> set es. event_in_span t0 src e"
  shows "has_ports t0 (P \<union> seen_ports (inputs_of es) src)
     (tab_get (ports_per_src (snd (detector_run (scan_obs h) PortScanDetector_sweep es d))) src)"
  using assms
proof (induction es arbitrary: d P)
  case Nil
  then show ?case by (simp add: seen_ports_def)
next
  case (Cons e es)
  show ?case
  proof (cases e)
    case (Observe i)
    obtain clk k p where i: "i = (clk, k, p)" by (cases i)
    let ?P = "if k = src then insert p P else P"
    let ?d = "snd (PortScanDetector_inspect h clk k p d)"
    have "has_ports t0 ?P (tab_get (ports_per_src ?d) src)"
      using Cons.prems(2,3) has_ports_insert [of t0 P "ports_per_src d" src "sc_ports clk" p]
      by (auto simp: scan_inspect_eq(2) [OF Cons.prems(1)] Let_def tbl.get_put ports_step_def Observe i)
    from Cons.IH [OF scan_std_obs [OF Cons.prems(1)] this] Cons.prems(3)
    have "has_ports t0 (?P \<union> seen_ports (inputs_of es) src)
        (tab_get (ports_per_src (snd (detector_run (scan_obs h) PortScanDetector_sweep es ?d))) src)" by simp
    moreover have "?P \<union> seen_ports (inputs_of es) src = P \<union> seen_ports (inputs_of (e # es)) src"
      by (auto simp: seen_ports_def Observe i)
    moreover have "snd (detector_run (scan_obs h) PortScanDetector_sweep (e # es) d) =
        snd (detector_run (scan_obs h) PortScanDetector_sweep es ?d)"
      by (simp add: Observe i scan_obs_def [of h "(clk, k, p)"] split_beta)
    ultimately show ?thesis by simp
  next
    case (Swept t)
    have "has_ports t0 P (tab_get (ports_per_src (PortScanDetector_sweep t d)) src)"
      using Cons.prems has_ports_sweep
      by (auto simp: scan_sweep_defs tbl.get_retain scan_std_def Swept)
    from Cons.IH [OF scan_std_sweep [OF Cons.prems(1)] this] Cons.prems(3) show ?thesis
      by (simp add: Swept)
  qed
qed

section \<open>Properties\<close>

definition scan_flag :: "(ip_addr \<Rightarrow> u64) \<Rightarrow> scan_clock \<Rightarrow> ip_addr \<Rightarrow> u16 \<Rightarrow> port_scan \<Rightarrow> string option" where
  "scan_flag h clk src port d = map_option sig_name (fst (PortScanDetector_inspect h clk src port d))"

text \<open>The ports a source was observed with, and the sources a port was observed from, less than
  sixty seconds before a reading of the clock.\<close>

definition recent_ports :: "scan_input set \<Rightarrow> instant \<Rightarrow> ip_addr \<Rightarrow> u16 set" where
  "recent_ports H now src =
     {p. \<exists>clk. (clk, src, p) \<in> H \<and> duration_since now (sc_ports clk) < from_secs 60}"

definition recent_srcs :: "scan_input set \<Rightarrow> instant \<Rightarrow> u16 \<Rightarrow> ip_addr set" where
  "recent_srcs H now port =
     {src. \<exists>clk. (clk, src, port) \<in> H \<and> duration_since now (sc_srcs clk) < from_secs 60}"

lemma finite_recent:
  assumes "finite H" shows "finite (recent_srcs H now port)"
  by (rule finite_subset [OF _ finite_imageI [OF assms, of "\<lambda>i. fst (snd i)"]]) (force simp: recent_srcs_def)

lemma ports_step_recent:
  assumes "scan_sound h H d"
  shows "fst (ports_step clk src port d) \<le> card (recent_ports (insert (clk, src, port) H) (sc_ports clk) src)"
proof -
  let ?s = "entry_or src (SlidingSet_new (from_secs 60)) (ports_per_src d)"
  have s: "ports_sound H src ?s"
    using assms by (auto simp: scan_sound_def entry_or_def ports_sound_new split: option.split)
  have "set (map fst (entries (snd (ports_step clk src port d)))) \<subseteq>
      recent_ports (insert (clk, src, port) H) (sc_ports clk) src"
    using s insert_entries [of "sc_ports clk" port ?s]
    by (fastforce simp: ports_step_def recent_ports_def ports_sound_def duration_since_def from_secs_def)
  moreover have "set_ok (snd (ports_step clk src port d))"
    using s by (simp add: ports_step_def insert_ok ports_sound_def)
  moreover have "fst (ports_step clk src port d) = length (entries (snd (ports_step clk src port d)))"
    by (simp add: ports_step_def insert_count)
  ultimately show ?thesis
    using card_mono [OF finite [of "recent_ports (insert (clk, src, port) H) (sc_ports clk) src"]]
    by (simp add: set_count_card)
qed

lemma srcs_step_recent:
  assumes "scan_sound h H d" and "finite H"
  shows "fst (srcs_step h clk src port d) \<le> card (recent_srcs (insert (clk, src, port) H) (sc_srcs clk) port)"
proof -
  let ?s = "entry_or port (SlidingSet_new (from_secs 60)) (srcs_per_port d)"
  let ?R = "recent_srcs (insert (clk, src, port) H) (sc_srcs clk) port"
  have s: "srcs_sound h H port ?s"
    using assms by (auto simp: scan_sound_def entry_or_def srcs_sound_new split: option.split)
  have "set (map fst (entries (snd (srcs_step h clk src port d)))) \<subseteq> ip_hash h ` ?R"
    using s insert_entries [of "sc_srcs clk" "ip_hash h src" ?s]
    by (fastforce simp: srcs_step_def recent_srcs_def srcs_sound_def duration_since_def from_secs_def)
  moreover have "finite ?R" using assms(2) by (simp add: finite_recent)
  ultimately have "card (set (map fst (entries (snd (srcs_step h clk src port d))))) \<le> card ?R"
    by (meson card_image_le card_mono finite_imageI le_trans)
  moreover have "set_ok (snd (srcs_step h clk src port d))"
    using s by (simp add: srcs_step_def insert_ok srcs_sound_def)
  moreover have "fst (srcs_step h clk src port d) = length (entries (snd (srcs_step h clk src port d)))"
    by (simp add: srcs_step_def insert_count)
  ultimately show ?thesis by (simp add: set_count_card)
qed

text \<open>Without the times: what the detector reports about packets that all come from a set of pairs of
  a source and a port.\<close>

definition any_time :: "(ip_addr \<times> u16) set \<Rightarrow> scan_input set" where
  "any_time C = {(clk, src, p). (src, p) \<in> C}"

lemma any_time_insert: "(src, p) \<in> C \<Longrightarrow> insert (clk, src, p) (any_time C) = any_time C"
  by (auto simp: any_time_def)

lemma any_time_mono: "C \<subseteq> C' \<Longrightarrow> any_time C \<subseteq> any_time C'"
  by (auto simp: any_time_def)

lemma scan_sound_merge:
  "scan_sound h H d \<Longrightarrow> scan_sound h H f \<Longrightarrow> scan_sound h H (d\<lparr>srcs_per_port := srcs_per_port f\<rparr>)"
  by (simp add: scan_sound_def scan_std_def)

lemma scan_sound_new: "scan_sound h H PortScanDetector_new"
  using scan_std_new by (simp add: scan_sound_def PortScanDetector_new_def)

lemma scan_evidence:
  assumes "scan_sound h (any_time C) d" and "(src, port) \<in> C" and "finite C"
    and "fst (PortScanDetector_inspect h clk src port d) \<noteq> None"
  shows "20 \<le> card {p. (src, p) \<in> C} \<or> 50 \<le> card {s. (s, port) \<in> C}"
proof -
  have "recent_ports (any_time C) (sc_ports clk) src \<subseteq> {p. (src, p) \<in> C}"
    by (auto simp: recent_ports_def any_time_def)
  then have "fst (ports_step clk src port d) \<le> card {p. (src, p) \<in> C}"
    using ports_step_recent [OF assms(1), of clk src port]
    by (simp only: any_time_insert [OF assms(2)]) (meson card_mono finite le_trans)
  moreover have fin: "finite {s. (s, port) \<in> C}"
    by (rule finite_subset [OF _ finite_imageI [OF assms(3), of fst]]) force
  have "fst (srcs_step h clk src port d) \<le> card {s. (s, port) \<in> C}"
  proof -
    let ?s = "snd (srcs_step h clk src port d)"
    have sound: "srcs_sound h (any_time C) port ?s"
      using steps_sound(2) [OF assms(1), of clk src port] by (simp only: any_time_insert [OF assms(2)])
    then have "set (map fst (entries ?s)) \<subseteq> ip_hash h ` {s. (s, port) \<in> C}"
      by (fastforce simp: srcs_sound_def any_time_def)
    then have "card (set (map fst (entries ?s))) \<le> card {s. (s, port) \<in> C}"
      using fin by (meson card_image_le card_mono finite_imageI le_trans)
    with sound show ?thesis by (simp add: srcs_sound_def set_count_card srcs_step_def insert_count)
  qed
  ultimately show ?thesis
    using assms(1,4) scan_inspect_eq(1) [of d h clk src port] by (auto simp: scan_sound_def split: if_splits)
qed

lemma horizontal_count:
  assumes "\<forall>e \<in> set es. event_in_span t0 src e" and "in_span t0 (sc_ports clk)"
  shows "scan_flag h clk src port (scan_state h es) = Some ''port_scan_horizontal'' \<longleftrightarrow>
     20 \<le> card (insert port (seen_ports (inputs_of es) src))"
proof -
  let ?d = "scan_state h es"
  have std: "scan_std ?d" using scan_sound_state [of h es] by (simp add: scan_sound_def)
  have "has_ports t0 {} (tab_get (ports_per_src PortScanDetector_new) src)"
    by (simp add: has_ports_def PortScanDetector_new_def)
  from has_ports_insert [OF has_ports_run [OF scan_std_new this assms(1), of h] assms(2), of port]
  have "has_ports t0 (insert port (seen_ports (inputs_of es) src)) (Some (snd (ports_step clk src port ?d)))"
    by (simp add: ports_step_def)
  then have "fst (ports_step clk src port ?d) = card (insert port (seen_ports (inputs_of es) src))"
    by (auto simp: has_ports_def ports_step_def insert_count set_count_card)
  then show ?thesis by (simp add: scan_flag_def scan_inspect_eq(1) [OF std])
qed

text \<open>C21 (safety). No false scan alarms: whatever has been observed and swept before, a source is
  reported for a horizontal scan only if it was seen with at least 20 distinct ports in the last
  60 seconds, and a port for a vertical scan only if at least 50 distinct sources were seen with
  it; collisions of the 16-bit source hash can only lower the count.\<close>

theorem scan_no_false_alarm:
  fixes es clk src port
  defines "H \<equiv> insert (clk, src, port) (inputs_of es)"
  shows "(scan_flag h clk src port (scan_state h es) = Some ''port_scan_horizontal'' \<longrightarrow>
       20 \<le> card (recent_ports H (sc_ports clk) src)) \<and>
     (scan_flag h clk src port (scan_state h es) = Some ''port_scan_vertical'' \<longrightarrow>
       50 \<le> card (recent_srcs H (sc_srcs clk) port))"
proof -
  note snd_st = scan_sound_state [of h es]
  have std: "scan_std (scan_state h es)" using snd_st by (simp add: scan_sound_def)
  from ports_step_recent [OF snd_st, of clk src port]
    srcs_step_recent [OF snd_st finite_inputs_of, of clk src port]
  show ?thesis by (auto simp: scan_flag_def scan_inspect_eq(1) [OF std] H_def split: if_splits)
qed

text \<open>C20 (functional). Horizontal scans are counted exactly: while every packet of a source and every
  sweep falls into one span of 60 seconds, and whatever other sources do, its packet is
  reported exactly if with this one it has been seen with at least 20 distinct ports.\<close>

theorem scan_horizontal_exact:
  assumes "\<forall>e \<in> set es. event_in_span t0 src e" and "in_span t0 (sc_ports clk)"
  shows "scan_flag h clk src port (scan_state h es) = Some ''port_scan_horizontal'' \<longleftrightarrow>
     20 \<le> card (insert port (seen_ports (inputs_of es) src))"
  using assms by (rule horizontal_count)

definition scan_clock_at :: "instant \<Rightarrow> scan_clock" where
  "scan_clock_at t = \<lparr>sc_ports = t, sc_srcs = t\<rparr>"

text \<open>C25 (equivalence). Sweeping is invisible: on any timeline of observations and sweeps the
  detector gives the verdicts it would give without sweeps.\<close>

theorem scan_sweep_transparent:
  assumes "timeline scan_ordered (\<lambda>i. sc_ports (fst i)) (\<lambda>i. sc_srcs (fst i)) t es"
  shows "fst (detector_run (scan_obs h) PortScanDetector_sweep es PortScanDetector_new) =
     fst (detector_run (scan_obs h) PortScanDetector_sweep (observations es) PortScanDetector_new)"
proof -
  have "scan_ok t PortScanDetector_new" by (simp add: scan_ok_def scan_std_new)
  then show ?thesis using assms by (rule scan_sweep.sweeping_is_transparent)
qed

section \<open>Instances\<close>

definition probe :: "u16 list \<Rightarrow> scan_input detector_event list" where
  "probe ps = map (\<lambda>p. Observe (scan_clock_at 5, V4 10 0 0 9, p)) ps"

lemma in_span_5: "in_span 0 5"
  by (simp add: in_span_def from_secs_def)

lemma probe_seen: "seen_ports (inputs_of (probe ps)) (V4 10 0 0 9) = set ps"
  by (auto simp: seen_ports_def inputs_of_def probe_def)

theorem scan_horizontal_exact_witness:
  "scan_flag (\<lambda>_. 0) (scan_clock_at 5) (V4 10 0 0 9) 443
     (scan_state (\<lambda>_. 0) (probe [1,2,3,4,5,6,7,8,9,10,11,12,13,14,15,16,17,18,19])) =
     Some ''port_scan_horizontal'' \<and>
   scan_flag (\<lambda>_. 0) (scan_clock_at 5) (V4 10 0 0 9) 7
     (scan_state (\<lambda>_. 0) (probe [1,2,3,4,5,6,7,8,9,10,11,12,13,14,15,16,17,18,19])) \<noteq>
     Some ''port_scan_horizontal''"
proof -
  have c: "in_span 0 (sc_ports (scan_clock_at 5))" by (simp add: scan_clock_at_def in_span_5)
  have e: "\<forall>e \<in> set (probe ps). event_in_span 0 (V4 10 0 0 9) e" for ps
    by (auto simp: probe_def scan_clock_at_def in_span_5)
  let ?l = "[1,2,3,4,5,6,7,8,9,10,11,12,13,14,15,16,17,18,19] :: u16 list"
  have "insert 7 (set ?l) = set ?l" by (rule insert_absorb) simp
  then have "card (insert 7 (set ?l)) \<le> 19" using card_length [of ?l] by simp
  then have "\<not> 20 \<le> card (insert 7 (set ?l))" by linarith
  then show ?thesis
    unfolding scan_horizontal_exact [OF e c] probe_seen by simp
qed

theorem scan_no_false_alarm_witness:
  "20 \<le> card (recent_ports (insert (scan_clock_at 5, V4 10 0 0 9, 443)
     (inputs_of (probe [1,2,3,4,5,6,7,8,9,10,11,12,13,14,15,16,17,18,19]))) 5 (V4 10 0 0 9))"
proof -
  let ?es = "probe [1,2,3,4,5,6,7,8,9,10,11,12,13,14,15,16,17,18,19]"
  have "scan_flag (\<lambda>_. 0) (scan_clock_at 5) (V4 10 0 0 9) 443 (scan_state (\<lambda>_. 0) ?es) =
      Some ''port_scan_horizontal''"
    by (subst horizontal_count [of _ 0])
      (auto simp: probe_seen, auto simp: probe_def scan_clock_at_def in_span_5)
  with scan_no_false_alarm [of "\<lambda>_. 0" "scan_clock_at 5" "V4 10 0 0 9" 443 ?es] show ?thesis
    by (simp add: scan_clock_at_def)
qed

theorem scan_sweep_transparent_witness:
  "fst (detector_run (scan_obs (\<lambda>_. 0)) PortScanDetector_sweep
      [Observe (scan_clock_at 0, V4 10 0 0 9, 22), Swept (from_secs 61),
       Observe (scan_clock_at (from_secs 62), V4 10 0 0 9, 23)] PortScanDetector_new) =
   fst (detector_run (scan_obs (\<lambda>_. 0)) PortScanDetector_sweep
      [Observe (scan_clock_at 0, V4 10 0 0 9, 22),
       Observe (scan_clock_at (from_secs 62), V4 10 0 0 9, 23)] PortScanDetector_new)"
proof -
  have "timeline scan_ordered (\<lambda>i. sc_ports (fst i)) (\<lambda>i. sc_srcs (fst i)) 0
      [Observe (scan_clock_at 0, V4 10 0 0 9, 22), Swept (from_secs 61),
       Observe (scan_clock_at (from_secs 62), V4 10 0 0 9, 23)]"
    by (simp add: scan_ordered_def scan_clock_at_def from_secs_def)
  from scan_sweep_transparent [OF this, of "\<lambda>_. 0"] show ?thesis by (simp only: observations.simps)
qed

end
