(* ===== verification/SynFlood.thy ===== *)
theory SynFlood
  imports Score Table Sweep
begin

unbundle bit_operations_syntax

text \<open>
  TCP flag anomalies, \<open>ids/syn_flood.rs\<close>: SYN/ACK counters per source within a ten-second
  window, the table of half-open connections, RST and Xmas checks.  The counters are
  \<open>u64\<close> and wrap; their ratio is an \<open>f32\<close>.  The readings that one sweep makes of the clock
  are taken as one.
\<close>

section \<open>State and operations\<close>

definition TCP_SYN :: u8 where "TCP_SYN = 0x02"
definition TCP_ACK :: u8 where "TCP_ACK = 0x10"
definition TCP_RST :: u8 where "TCP_RST = 0x04"
definition TCP_FIN :: u8 where "TCP_FIN = 0x01"
definition TCP_PSH :: u8 where "TCP_PSH = 0x08"
definition TCP_URG :: u8 where "TCP_URG = 0x20"
definition TCP_XMAS :: u8 where "TCP_XMAS = TCP_FIN OR TCP_PSH OR TCP_URG"

definition SCORE_PORT_SCAN_XMAS :: rat where "SCORE_PORT_SCAN_XMAS = 55"

lemmas tcp_consts [det_defs] =
  TCP_SYN_def TCP_ACK_def TCP_RST_def TCP_FIN_def TCP_PSH_def TCP_URG_def TCP_XMAS_def
  SCORE_PORT_SCAN_XMAS_def

record per_ip_counters =
  syns :: u64
  acks :: u64
  last_reset :: instant
  pc_window :: duration

definition PerIpCounters_new :: "instant \<Rightarrow> per_ip_counters" where
  "PerIpCounters_new now = \<lparr>syns = 0, acks = 0, last_reset = now, pc_window = from_secs 10\<rparr>"

text \<open>The two readings of the clock: \<open>elapsed()\<close>, and \<open>now()\<close> when the window is over.\<close>

definition maybe_reset :: "instant \<Rightarrow> instant \<Rightarrow> per_ip_counters \<Rightarrow> per_ip_counters" where
  "maybe_reset now_elapsed now_reset c =
     (if pc_window c \<le> duration_since now_elapsed (last_reset c)
      then c\<lparr>syns := 0, acks := 0, last_reset := now_reset\<rparr> else c)"

definition syn_ack_ratio :: "per_ip_counters \<Rightarrow> rat" where
  "syn_ack_ratio c =
     (if acks c = 0 then f32 (of_nat (unat (syns c)))
      else f32 (f32 (of_nat (unat (syns c))) / f32 (of_nat (unat (acks c)))))"

type_synonym flow_key = "ip_addr \<times> ip_addr \<times> u16 \<times> u16"

record syn_flood =
  counters :: "(ip_addr, per_ip_counters) table"
  half_open :: "(flow_key, instant) table"
  syn_ack_ratio_threshold :: rat
  half_open_threshold :: usize
  half_open_ttl :: duration

definition SynFloodDetector_new :: syn_flood where
  "SynFloodDetector_new =
     \<lparr>counters = [], half_open = [], syn_ack_ratio_threshold = 5, half_open_threshold = 200,
      half_open_ttl = from_secs 30\<rparr>"

text \<open>The readings an inspection makes of the clock: for a new counter entry, in
  \<open>maybe_reset\<close>, and for the time of a SYN.\<close>

record syn_clock =
  yc_new :: instant
  yc_elapsed :: instant
  yc_reset :: instant
  yc_insert :: instant

definition is_syn :: "u8 \<Rightarrow> bool" where
  "is_syn flags \<longleftrightarrow> flags AND TCP_SYN \<noteq> 0 \<and> flags AND TCP_ACK = 0"

definition is_syn_ack :: "u8 \<Rightarrow> bool" where
  "is_syn_ack flags \<longleftrightarrow> flags AND TCP_SYN \<noteq> 0 \<and> flags AND TCP_ACK \<noteq> 0"

definition is_rst :: "u8 \<Rightarrow> bool" where
  "is_rst flags \<longleftrightarrow> flags AND TCP_RST \<noteq> 0"

definition is_ack :: "u8 \<Rightarrow> bool" where
  "is_ack flags \<longleftrightarrow> \<not> is_syn flags \<and> flags AND TCP_ACK \<noteq> 0"

definition count_flags :: "u8 \<Rightarrow> per_ip_counters \<Rightarrow> per_ip_counters" where
  "count_flags flags c =
     (let c1 = (if is_syn flags then c\<lparr>syns := syns c + 1\<rparr> else c)
      in if is_ack flags \<or> is_syn_ack flags then c1\<lparr>acks := acks c1 + 1\<rparr> else c1)"

definition track_half_open :: "instant \<Rightarrow> flow_key \<Rightarrow> flow_key \<Rightarrow> u8 \<Rightarrow> (flow_key, instant) table \<Rightarrow> (flow_key, instant) table" where
  "track_half_open now flow_key rev_key flags t =
     (if is_syn flags then tab_insert flow_key now t
      else if is_syn_ack flags \<or> is_rst flags \<or> is_ack flags
        then tab_remove flow_key (tab_remove rev_key t)
      else t)"

text \<open>The block on the counters, under the guard of one entry, and the checks.\<close>

definition count_packet :: "syn_clock \<Rightarrow> ip_addr \<Rightarrow> u8 \<Rightarrow> syn_flood \<Rightarrow> per_ip_counters \<times> syn_flood" where
  "count_packet clk src flags d =
     (let c = count_flags flags (maybe_reset (yc_elapsed clk) (yc_reset clk)
                (entry_or src (PerIpCounters_new (yc_new clk)) (counters d)))
      in (c, d\<lparr>counters := tab_insert src c (counters d)\<rparr>))"

definition flood_signals :: "ip_addr \<Rightarrow> per_ip_counters \<Rightarrow> syn_flood \<Rightarrow> signal list" where
  "flood_signals src c d =
     (if 50 \<le> syns c \<and> syn_ack_ratio_threshold d \<le> syn_ack_ratio c then
        [\<lparr>sig_name = ''syn_flood'', sig_score = SCORE_SYN_FLOOD,
          sig_detail = fmt ''{} SYN/ACK ratio {:.1} ({} SYNs, {} ACKs)''
            [FIp src, FFloat (syn_ack_ratio c), FNat (unat (syns c)), FNat (unat (acks c))]\<rparr>] else [])"

definition half_open_signals :: "usize \<Rightarrow> syn_flood \<Rightarrow> signal list" where
  "half_open_signals half_open_count d =
     (if half_open_threshold d \<le> half_open_count then
        [\<lparr>sig_name = ''half_open_high'', sig_score = SCORE_HALF_OPEN_HIGH,
          sig_detail = fmt ''{} half-open connections tracked'' [FNat half_open_count]\<rparr>] else [])"

definition rst_signals :: "ip_addr \<Rightarrow> u8 \<Rightarrow> bool \<Rightarrow> signal list" where
  "rst_signals src flags tracked =
     (if is_rst flags \<and> \<not> tracked then
        [\<lparr>sig_name = ''rst_injection'', sig_score = 25,
          sig_detail = fmt ''RST from {} with no tracked SYN'' [FIp src]\<rparr>] else [])"

definition xmas_signals :: "ip_addr \<Rightarrow> u8 \<Rightarrow> signal list" where
  "xmas_signals src flags =
     (if flags = TCP_XMAS then
        [\<lparr>sig_name = ''xmas_scan'', sig_score = SCORE_PORT_SCAN_XMAS,
          sig_detail = fmt ''Xmas scan flags (FIN+PSH+URG) from {}'' [FIp src]\<rparr>] else [])"

definition SynFloodDetector_inspect ::
  "syn_clock \<Rightarrow> ip_addr \<Rightarrow> ip_addr \<Rightarrow> u16 \<Rightarrow> u16 \<Rightarrow> u8 \<Rightarrow> syn_flood \<Rightarrow> signal list \<times> syn_flood" where
  "SynFloodDetector_inspect clk src dst src_port dst_port flags d =
     (let (c, d1) = count_packet clk src flags d;
          flow_key = (src, dst, src_port, dst_port);
          rev_key = (dst, src, dst_port, src_port);
          ho = track_half_open (yc_insert clk) flow_key rev_key flags (half_open d1);
          d2 = d1\<lparr>half_open := ho\<rparr>
      in (flood_signals src c d1 @ half_open_signals (tab_len ho) d2 @
            rst_signals src flags (tab_get ho flow_key \<noteq> None \<or> tab_get ho rev_key \<noteq> None) @ xmas_signals src flags, d2))"

lemmas syn_signal_defs = flood_signals_def half_open_signals_def rst_signals_def xmas_signals_def

lemmas syn_inspect_defs = SynFloodDetector_inspect_def count_packet_def syn_signal_defs

definition sweep_half_open :: "instant \<Rightarrow> syn_flood \<Rightarrow> syn_flood" where
  "sweep_half_open now d =
     d\<lparr>half_open := tab_retain (\<lambda>created. if duration_since now created < half_open_ttl d
                                       then Some created else None) (half_open d)\<rparr>"

definition sweep_counters :: "instant \<Rightarrow> syn_flood \<Rightarrow> syn_flood" where
  "sweep_counters now d =
     d\<lparr>counters := tab_retain (\<lambda>c. if duration_since now (last_reset c) < pc_window c * 10
                                     then Some c else None) (counters d)\<rparr>"

definition SynFloodDetector_sweep :: "instant \<Rightarrow> syn_flood \<Rightarrow> syn_flood" where
  "SynFloodDetector_sweep now d = sweep_counters now (sweep_half_open now d)"

lemmas syn_sweep_defs = SynFloodDetector_sweep_def sweep_half_open_def sweep_counters_def

section \<open>The ratio in \<open>f32\<close>\<close>

text \<open>Rounding never lifts a ratio below five to five while there are fewer than
  \<open>2 ^ 24\<close> SYNs.\<close>

lemma f32_below_five:
  assumes "0 \<le> q" and "q < 5 - 1 / 4194304" shows "f32 q < 5"
proof (cases "q < 4")
  case True
  then have "rnd 24 q \<le> of_nat 4" using assms(1) by (intro rnd_le_nat) auto
  then show ?thesis by (simp add: f32_def)
next
  case False
  then have b: "2 powi 2 \<le> q" "q < 2 powi (2 + 1)" using assms(2) by simp_all
  let ?y = "q / 2 powi (2 - int 24 + 1)"
  have y: "?y = q * 2097152" by (simp add: power_int_def power_divide)
  have "?y < 5 * 2097152 - 1 / 2" unfolding y using assms(2) by simp
  then have "rat_of_int (rne ?y) < of_int (5 * 2097152)" using rne_bounds [of ?y] by simp
  then have r: "rne ?y \<le> 5 * 2097152 - 1" by linarith
  have "rnd 24 q = of_int (rne ?y) * 2 powi (2 - int 24 + 1)" by (rule rnd_binade [OF b])
  also have "\<dots> \<le> of_int (5 * 2097152 - 1) * 2 powi (2 - int 24 + 1)"
    using r by (intro mult_right_mono) (simp_all only: of_int_le_iff zero_le_power_int zero_le_numeral)
  also have "\<dots> < 5" by (simp add: power_int_def power_divide)
  finally show ?thesis by (simp add: f32_def)
qed

lemma ratio_five:
  assumes "unat (syns c) < 2 ^ 24" and "5 \<le> unat (syns c)"
  shows "5 \<le> syn_ack_ratio c \<longleftrightarrow> 5 * unat (acks c) \<le> unat (syns c)"
proof (cases "acks c = 0")
  case True
  have "f32 (of_nat (unat (syns c))) = of_nat (unat (syns c))" using assms(1) by (rule f32_of_nat)
  moreover have "(5::rat) \<le> of_nat (unat (syns c))" using assms(2) by (metis of_nat_le_iff of_nat_numeral)
  ultimately show ?thesis using True by (simp add: syn_ack_ratio_def)
next
  case False
  define s where "s = unat (syns c)"
  define a where "a = unat (acks c)"
  have a0: "0 < a" using False by (simp add: a_def unat_gt_0)
  have fs: "f32 (of_nat s) = of_nat s" using assms(1) by (intro f32_of_nat) (simp add: s_def)
  have ratio: "syn_ack_ratio c = f32 (of_nat s / f32 (of_nat a))"
    using False fs by (simp add: syn_ack_ratio_def s_def a_def)
  show ?thesis
  proof (cases "a < 4194304")
    case True
    then have fa: "f32 (of_nat a) = of_nat a" by (intro f32_of_nat) simp
    show ?thesis
    proof (cases "5 * a \<le> s")
      case ge: True
      then have "rat_of_nat (5 * a) \<le> of_nat s" by (simp only: of_nat_le_iff)
      then have "of_nat 5 \<le> rat_of_nat s / of_nat a" using a0 by (simp add: pos_le_divide_eq)
      then have "of_nat 5 \<le> rnd 24 (rat_of_nat s / of_nat a)" by (rule rnd_ge_nat) simp
      then have "5 \<le> syn_ack_ratio c" unfolding ratio fa by (simp add: f32_def)
      with ge show ?thesis by (simp add: s_def a_def)
    next
      case lt: False
      then have "s + 1 \<le> 5 * a" by simp
      then have "rat_of_nat (s + 1) \<le> of_nat (5 * a)" by (simp only: of_nat_le_iff)
      moreover have "rat_of_nat a < 4194304" using True by (metis of_nat_less_iff of_nat_numeral)
      ultimately have "rat_of_nat s < (5 - 1 / 4194304) * of_nat a" by (simp add: algebra_simps)
      then have "rat_of_nat s / of_nat a < 5 - 1 / 4194304" using a0 by (simp add: pos_divide_less_eq)
      then have "syn_ack_ratio c < 5" unfolding ratio fa by (intro f32_below_five) simp_all
      with lt show ?thesis by (simp add: s_def a_def)
    qed
  next
    case False
    then have "rat_of_nat 4194304 \<le> of_nat a" by (simp only: of_nat_le_iff not_less)
    then have "rat_of_nat 4194304 \<le> rnd 24 (of_nat a)" by (rule rnd_ge_nat) simp
    then have fa: "4194304 \<le> f32 (of_nat a)" by (simp add: f32_def)
    have s24: "s < 16777216" using assms(1) by (simp add: s_def)
    then have "rat_of_nat s < 16777216" by (metis of_nat_less_iff of_nat_numeral)
    then have "rat_of_nat s / f32 (of_nat a) < 5 - 1 / 4194304"
      using fa by (simp add: pos_divide_less_eq)
    then have "syn_ack_ratio c < 5" unfolding ratio using fa by (intro f32_below_five) simp_all
    moreover have "s < 5 * a" using s24 False by simp
    ultimately show ?thesis by (simp add: s_def a_def)
  qed
qed

section \<open>The detector\<close>

type_synonym syn_input = "syn_clock \<times> ip_addr \<times> ip_addr \<times> u16 \<times> u16 \<times> u8"

definition syn_obs :: "syn_input \<Rightarrow> syn_flood \<Rightarrow> signal list \<times> syn_flood" where
  "syn_obs i d = (case i of (clk, src, dst, sp, dp, flags) \<Rightarrow> SynFloodDetector_inspect clk src dst sp dp flags d)"

abbreviation syn_run :: "syn_input detector_event list \<Rightarrow> syn_flood \<Rightarrow> syn_flood" where
  "syn_run es d \<equiv> snd (detector_run syn_obs SynFloodDetector_sweep es d)"

definition ten_secs :: "per_ip_counters \<Rightarrow> bool" where
  "ten_secs c \<longleftrightarrow> pc_window c = from_secs 10"

definition syn_std :: "syn_flood \<Rightarrow> bool" where
  "syn_std d \<longleftrightarrow> syn_ack_ratio_threshold d = 5 \<and> half_open_threshold d = 200 \<and>
     half_open_ttl d = from_secs 30 \<and> tab_ok (counters d) \<and> tab_ok (half_open d) \<and>
     all_vals ten_secs (tab_get (counters d))"

definition counter_step :: "syn_clock \<Rightarrow> ip_addr \<Rightarrow> u8 \<Rightarrow> syn_flood \<Rightarrow> per_ip_counters" where
  "counter_step clk src flags d = count_flags flags (maybe_reset (yc_elapsed clk) (yc_reset clk)
     (entry_or src (PerIpCounters_new (yc_new clk)) (counters d)))"

definition ho_step :: "syn_clock \<Rightarrow> ip_addr \<Rightarrow> ip_addr \<Rightarrow> u16 \<Rightarrow> u16 \<Rightarrow> u8 \<Rightarrow> syn_flood \<Rightarrow> (flow_key, instant) table" where
  "ho_step clk src dst sp dp flags d =
     track_half_open (yc_insert clk) (src, dst, sp, dp) (dst, src, dp, sp) flags (half_open d)"

text \<open>The signals as a function of what the accesses to the two maps give.\<close>

definition syn_verdict :: "ip_addr \<Rightarrow> u8 \<Rightarrow> per_ip_counters \<Rightarrow> usize \<Rightarrow> bool \<Rightarrow> syn_flood \<Rightarrow> signal list" where
  "syn_verdict src flags c n tracked d =
     flood_signals src c d @ half_open_signals n d @ rst_signals src flags tracked @ xmas_signals src flags"

lemma syn_signals_frame [simp]:
  "flood_signals src c (d\<lparr>counters := t\<rparr>) = flood_signals src c d" "flood_signals src c (d\<lparr>half_open := h\<rparr>) = flood_signals src c d"
  "half_open_signals n (d\<lparr>counters := t\<rparr>) = half_open_signals n d" "half_open_signals n (d\<lparr>half_open := h\<rparr>) = half_open_signals n d"
  by (simp_all add: syn_signal_defs)

lemma ho_step_frame [simp]: "ho_step clk src dst sp dp flags (d\<lparr>counters := t\<rparr>) = ho_step clk src dst sp dp flags d"
  by (simp add: ho_step_def)

lemma syn_inspect_verdict:
  "SynFloodDetector_inspect clk src dst sp dp flags d =
     (let c = counter_step clk src flags d; ho = ho_step clk src dst sp dp flags d
      in (syn_verdict src flags c (tab_len ho) (tab_get ho (src, dst, sp, dp) \<noteq> None \<or> tab_get ho (dst, src, dp, sp) \<noteq> None) d,
          d\<lparr>counters := tab_insert src c (counters d), half_open := ho\<rparr>))"
  by (simp add: SynFloodDetector_inspect_def count_packet_def counter_step_def [symmetric] ho_step_def [symmetric]
      syn_verdict_def Let_def)

lemma syn_inspect_state:
  "snd (SynFloodDetector_inspect clk src dst sp dp flags d) =
     d\<lparr>counters := tab_insert src (counter_step clk src flags d) (counters d),
       half_open := ho_step clk src dst sp dp flags d\<rparr>"
  by (simp add: syn_inspect_verdict Let_def)

lemma track_ok: "tab_ok t \<Longrightarrow> tab_ok (track_half_open now k r flags t)"
  by (simp add: track_half_open_def tbl.ok_put tbl.ok_del)

lemma track_get:
  "tab_ok t \<Longrightarrow> tab_get (track_half_open now k r flags t) x =
     (if is_syn flags then (if x = k then Some now else tab_get t x)
      else if is_syn_ack flags \<or> is_rst flags \<or> is_ack flags then (if x = k \<or> x = r then None else tab_get t x)
      else tab_get t x)"
  by (simp add: track_half_open_def tbl.get_put tbl.get_del tbl.ok_del)

text \<open>The lookups of the RST check come after both directions of the flow have left the table.\<close>

lemma rst_lookup:
  assumes "tab_ok (half_open d)" and "is_rst flags"
  shows "tab_get (ho_step clk src dst sp dp flags d) (src, dst, sp, dp) = None \<and>
     tab_get (ho_step clk src dst sp dp flags d) (dst, src, dp, sp) = None \<longleftrightarrow> \<not> is_syn flags"
  using assms by (simp add: ho_step_def track_get)

lemma syn_inspect_names:
  assumes "syn_std d"
  shows "map sig_name (fst (SynFloodDetector_inspect clk src dst sp dp flags d)) =
     (if 50 \<le> syns (counter_step clk src flags d) \<and> 5 \<le> syn_ack_ratio (counter_step clk src flags d)
      then [''syn_flood''] else []) @
     (if 200 \<le> tab_len (ho_step clk src dst sp dp flags d) then [''half_open_high''] else []) @
     (if is_rst flags \<and> \<not> is_syn flags then [''rst_injection''] else []) @
     (if flags = TCP_XMAS then [''xmas_scan''] else [])"
proof -
  have "tab_ok (half_open d)" using assms by (simp add: syn_std_def)
  from rst_lookup [OF this, of flags clk src dst sp dp]
  have "is_rst flags \<and> \<not> (tab_get (ho_step clk src dst sp dp flags d) (src, dst, sp, dp) \<noteq> None \<or>
     tab_get (ho_step clk src dst sp dp flags d) (dst, src, dp, sp) \<noteq> None) \<longleftrightarrow> is_rst flags \<and> \<not> is_syn flags"
    by (simp cong: conj_cong)
  then show ?thesis
    using assms by (simp add: syn_inspect_verdict Let_def syn_verdict_def syn_signal_defs syn_std_def)
qed

lemma counter_window: "syn_std d \<Longrightarrow> pc_window (entry_or src (PerIpCounters_new t) (counters d)) = from_secs 10"
  by (auto simp: syn_std_def all_vals_def ten_secs_def entry_or_def PerIpCounters_new_def split: option.split)

lemma counter_step_window: "syn_std d \<Longrightarrow> ten_secs (counter_step clk src flags d)"
  by (simp add: ten_secs_def counter_step_def count_flags_def maybe_reset_def Let_def counter_window)

lemma syn_std_new: "syn_std SynFloodDetector_new"
  by (simp add: syn_std_def SynFloodDetector_new_def all_vals_def)

lemma syn_std_inspect: "syn_std d \<Longrightarrow> syn_std (snd (SynFloodDetector_inspect clk src dst sp dp flags d))"
  using counter_step_window [of d clk src flags]
  by (simp add: syn_std_def syn_inspect_state tbl.ok_put tbl.all_vals_put ho_step_def track_ok)

lemma syn_std_half_open: "syn_std d \<Longrightarrow> tab_ok h \<Longrightarrow> syn_std (d\<lparr>half_open := h\<rparr>)"
  by (simp add: syn_std_def)

lemma syn_std_count: "syn_std d \<Longrightarrow> syn_std (snd (count_packet clk src flags d))"
  using counter_step_window [of d clk src flags]
  by (simp add: count_packet_def counter_step_def [symmetric] Let_def syn_std_def tbl.ok_put tbl.all_vals_put)

lemma syn_std_sweep_half_open: "syn_std d \<Longrightarrow> syn_std (sweep_half_open t d)"
  by (auto simp: syn_std_def sweep_half_open_def tbl.ok_retain)

lemma syn_std_sweep_counters: "syn_std d \<Longrightarrow> syn_std (sweep_counters t d)"
  by (auto simp: syn_std_def sweep_counters_def tbl.ok_retain intro!: tbl.all_vals_retain split: if_splits)

lemma syn_std_sweep: "syn_std d \<Longrightarrow> syn_std (SynFloodDetector_sweep t d)"
  by (simp add: SynFloodDetector_sweep_def syn_std_sweep_half_open syn_std_sweep_counters)

text \<open>The limits are the same in every detector that is well formed.\<close>

lemma syn_signals_std:
  "syn_std d \<Longrightarrow> syn_std e \<Longrightarrow> flood_signals src c d = flood_signals src c e"
  "syn_std d \<Longrightarrow> syn_std e \<Longrightarrow> half_open_signals n d = half_open_signals n e"
  by (simp_all add: syn_std_def syn_signal_defs)

lemma syn_std_run: "syn_std d \<Longrightarrow> syn_std (syn_run es d)"
proof (induction es arbitrary: d)
  case (Cons e es)
  then show ?case
    by (cases e) (auto simp: syn_obs_def split_beta syn_std_inspect syn_std_sweep)
qed simp

section \<open>Counting within one window\<close>

definition in_ten :: "instant \<Rightarrow> instant \<Rightarrow> bool" where
  "in_ten t0 t \<longleftrightarrow> t0 \<le> t \<and> t < t0 + from_secs 10"

fun syn_in_span :: "instant \<Rightarrow> ip_addr \<Rightarrow> syn_input detector_event \<Rightarrow> bool" where
  "syn_in_span t0 src (Observe (clk, s, _)) \<longleftrightarrow>
     (s = src \<longrightarrow> in_ten t0 (yc_new clk) \<and> in_ten t0 (yc_elapsed clk))"
| "syn_in_span t0 src (Swept t) \<longleftrightarrow> in_ten t0 t"

definition syn_from :: "ip_addr \<Rightarrow> syn_input \<Rightarrow> bool" where
  "syn_from src i \<longleftrightarrow> (case i of (_, s, _, _, _, flags) \<Rightarrow> s = src \<and> is_syn flags)"

definition ack_from :: "ip_addr \<Rightarrow> syn_input \<Rightarrow> bool" where
  "ack_from src i \<longleftrightarrow> (case i of (_, s, _, _, _, flags) \<Rightarrow> s = src \<and> flags AND TCP_ACK \<noteq> 0)"

definition counted :: "instant \<Rightarrow> nat \<Rightarrow> nat \<Rightarrow> per_ip_counters option \<Rightarrow> bool" where
  "counted t0 m n x \<longleftrightarrow> (case x of None \<Rightarrow> m = 0 \<and> n = 0
     | Some c \<Rightarrow> syns c = of_nat m \<and> acks c = of_nat n \<and> in_ten t0 (last_reset c) \<and> ten_secs c)"

lemma is_ack_iff: "is_ack flags \<or> is_syn_ack flags \<longleftrightarrow> flags AND TCP_ACK \<noteq> 0"
  by (auto simp: is_ack_def is_syn_ack_def is_syn_def)

lemma counted_step:
  assumes "counted t0 m n (tab_get (counters d) src)"
    and "in_ten t0 (yc_new clk)" and "in_ten t0 (yc_elapsed clk)"
  shows "counted t0 (m + (if is_syn flags then 1 else 0)) (n + (if flags AND TCP_ACK \<noteq> 0 then 1 else 0))
     (Some (counter_step clk src flags d))"
proof -
  let ?c = "entry_or src (PerIpCounters_new (yc_new clk)) (counters d)"
  have c: "syns ?c = of_nat m" "acks ?c = of_nat n" "in_ten t0 (last_reset ?c)" "ten_secs ?c"
    using assms(1,2)
    by (auto simp: counted_def entry_or_def PerIpCounters_new_def ten_secs_def split: option.splits)
  then have "maybe_reset (yc_elapsed clk) (yc_reset clk) ?c = ?c"
    using assms(3) by (auto simp: maybe_reset_def in_ten_def duration_since_def ten_secs_def)
  with c show ?thesis
    by (simp add: counted_def counter_step_def count_flags_def Let_def is_ack_iff ten_secs_def)
qed

lemma counted_sweep:
  "tab_ok (counters d) \<Longrightarrow> counted t0 m n (tab_get (counters d) src) \<Longrightarrow> in_ten t0 t \<Longrightarrow>
     counted t0 m n (tab_get (counters (SynFloodDetector_sweep t d)) src)"
  by (auto simp: syn_sweep_defs tbl.get_retain counted_def ten_secs_def in_ten_def time_defs
        split: option.splits)

lemma counted_run:
  "syn_std d \<Longrightarrow> counted t0 m n (tab_get (counters d) src) \<Longrightarrow> \<forall>e \<in> set es. syn_in_span t0 src e \<Longrightarrow>
     counted t0 (m + observed (syn_from src) es) (n + observed (ack_from src) es)
       (tab_get (counters (syn_run es d)) src)"
proof (induction es arbitrary: d m n)
  case (Cons e es)
  show ?case
  proof (cases e)
    case (Observe i)
    obtain clk s dst sp dp flags where i: "i = (clk, s, dst, sp, dp, flags)" by (cases i)
    let ?d = "snd (SynFloodDetector_inspect clk s dst sp dp flags d)"
    let ?m = "m + (if syn_from src i then 1 else 0)" and ?n = "n + (if ack_from src i then 1 else 0)"
    have "counted t0 ?m ?n (tab_get (counters ?d) src)"
      using Cons.prems(2,3) counted_step [of t0 m n d src clk flags]
      by (cases "s = src") (auto simp: syn_inspect_state tbl.get_put syn_from_def ack_from_def Observe i)
    from Cons.IH [OF syn_std_inspect [OF Cons.prems(1)] this] Cons.prems(3)
    have "counted t0 (?m + observed (syn_from src) es) (?n + observed (ack_from src) es)
        (tab_get (counters (syn_run es ?d)) src)" by simp
    moreover have state: "syn_run (e # es) d = syn_run es ?d"
      by (simp only: Observe i detector_run_state syn_obs_def prod.case)
    moreover have "m + observed (syn_from src) (e # es) = ?m + observed (syn_from src) es"
      "n + observed (ack_from src) (e # es) = ?n + observed (ack_from src) es"
      by (simp_all add: Observe)
    ultimately show ?thesis by (simp only:)
  next
    case (Swept t)
    then have "in_ten t0 t" using Cons.prems(3) by simp
    then have "counted t0 m n (tab_get (counters (SynFloodDetector_sweep t d)) src)"
      using Cons.prems(1,2) by (intro counted_sweep) (simp_all add: syn_std_def)
    from Cons.IH [OF syn_std_sweep [OF Cons.prems(1)] this] Cons.prems(3) show ?thesis
      by (simp add: Swept)
  qed
qed simp

section \<open>Half-open connections\<close>

text \<open>The abstract view: the flows whose last SYN has not been answered.\<close>

fun track_flow :: "syn_input \<Rightarrow> flow_key set \<Rightarrow> flow_key set" where
  "track_flow (_, src, dst, sp, dp, flags) F =
     (if is_syn flags then insert (src, dst, sp, dp) F
      else if is_rst flags \<or> flags AND TCP_ACK \<noteq> 0 then F - {(src, dst, sp, dp), (dst, src, dp, sp)}
      else F)"

fun open_flows :: "syn_input list \<Rightarrow> flow_key set \<Rightarrow> flow_key set" where
  "open_flows [] F = F"
| "open_flows (i # is) F = open_flows is (track_flow i F)"

lemma ho_step_dom:
  "syn_std d \<Longrightarrow> dom (tab_get (half_open (snd (syn_obs i d)))) = track_flow i (dom (tab_get (half_open d)))"
proof -
  assume d: "syn_std d"
  obtain clk src dst sp dp flags where i: "i = (clk, src, dst, sp, dp, flags)" by (cases i)
  have ok: "tab_ok (half_open d)" using d by (simp add: syn_std_def)
  have ans: "is_syn_ack flags \<or> is_rst flags \<or> is_ack flags \<longleftrightarrow> is_rst flags \<or> flags AND TCP_ACK \<noteq> 0"
    using is_ack_iff [of flags] by blast
  have "x \<in> dom (tab_get (ho_step clk src dst sp dp flags d)) \<longleftrightarrow> x \<in> track_flow i (dom (tab_get (half_open d)))" for x
    unfolding i ho_step_def domIff track_get [OF ok] ans by (simp add: domIff)
  then have "dom (tab_get (ho_step clk src dst sp dp flags d)) = track_flow i (dom (tab_get (half_open d)))"
    by (rule set_eqI)
  then show ?thesis by (simp add: i syn_obs_def syn_inspect_state del: track_flow.simps)
qed

lemma open_flows_run:
  "syn_std d \<Longrightarrow> dom (tab_get (half_open (syn_run (map Observe is) d))) = open_flows is (dom (tab_get (half_open d)))"
proof (induction "is" arbitrary: d)
  case (Cons i "is")
  have state: "syn_run (map Observe (i # is)) d = syn_run (map Observe is) (snd (syn_obs i d))"
    by (simp only: list.map detector_run_state)
  have "syn_std (snd (syn_obs i d))" using Cons.prems by (auto simp: syn_obs_def syn_std_inspect split: prod.split)
  from Cons.IH [OF this] ho_step_dom [OF Cons.prems, of i] show ?case unfolding state by simp
qed simp

section \<open>Properties\<close>

definition syn_names :: "syn_clock \<Rightarrow> ip_addr \<Rightarrow> ip_addr \<Rightarrow> u16 \<Rightarrow> u16 \<Rightarrow> u8 \<Rightarrow> syn_flood \<Rightarrow> string list" where
  "syn_names clk src dst sp dp flags d = map sig_name (fst (SynFloodDetector_inspect clk src dst sp dp flags d))"

lemma flood_reported:
  "syn_std d \<Longrightarrow> ''syn_flood'' \<in> set (syn_names clk src dst sp dp flags d) \<longleftrightarrow>
     50 \<le> syns (counter_step clk src flags d) \<and> 5 \<le> syn_ack_ratio (counter_step clk src flags d)"
  by (auto simp: syn_names_def syn_inspect_names)

lemma flood_iff:
  assumes "\<forall>e \<in> set es. syn_in_span t0 src e"
    and "in_ten t0 (yc_new clk)" and "in_ten t0 (yc_elapsed clk)"
    and "m = observed (syn_from src) es + (if is_syn flags then 1 else 0)"
    and "n = observed (ack_from src) es + (if flags AND TCP_ACK \<noteq> 0 then 1 else 0)"
    and "m < 2 ^ 24" and "n < 2 ^ 64"
  shows "''syn_flood'' \<in> set (syn_names clk src dst sp dp flags (syn_run es SynFloodDetector_new)) \<longleftrightarrow>
     50 \<le> m \<and> 5 * n \<le> m"
proof -
  let ?d = "syn_run es SynFloodDetector_new"
  let ?c = "counter_step clk src flags ?d"
  have std: "syn_std ?d" by (rule syn_std_run [OF syn_std_new])
  have "counted t0 0 0 (tab_get (counters SynFloodDetector_new) src)"
    by (simp add: counted_def SynFloodDetector_new_def)
  from counted_step [OF counted_run [OF syn_std_new this assms(1)] assms(2,3), of flags]
  have c: "syns ?c = of_nat m" "acks ?c = of_nat n" by (simp_all add: counted_def assms(4,5))
  have u: "unat (syns ?c) = m" "unat (acks ?c) = n"
    using assms(6,7) by (simp_all add: c unat_of_nat take_bit_nat_eq_self)
  have "50 \<le> syns ?c \<longleftrightarrow> 50 \<le> m" by (simp add: word_le_nat_alt u)
  moreover have "5 \<le> m \<Longrightarrow> 5 \<le> syn_ack_ratio ?c \<longleftrightarrow> 5 * n \<le> m"
    using ratio_five [of ?c] assms(6) by (simp add: u)
  ultimately show ?thesis using flood_reported [OF std] by auto
qed

text \<open>C19 (functional). SYN floods are recognised exactly: while the packets of a source and the
  sweeps fall into one span of ten seconds, a packet of the source is reported as a flood
  exactly if, with it, there have been at least 50 SYNs and at least five SYNs per ACK.  Neither
  the wrap-around of the \<open>u64\<close> counters nor the two roundings of the \<open>f32\<close> ratio move the
  boundary, for fewer than \<open>2 ^ 24\<close> SYNs.\<close>

theorem syn_flood_exact:
  assumes "\<forall>e \<in> set es. syn_in_span t0 src e"
    and "in_ten t0 (yc_new clk)" and "in_ten t0 (yc_elapsed clk)"
    and "m = observed (syn_from src) es + (if is_syn flags then 1 else 0)"
    and "n = observed (ack_from src) es + (if flags AND TCP_ACK \<noteq> 0 then 1 else 0)"
    and "m < 2 ^ 24" and "n < 2 ^ 64"
  shows "''syn_flood'' \<in> set (syn_names clk src dst sp dp flags (syn_run es SynFloodDetector_new)) \<longleftrightarrow>
     50 \<le> m \<and> 5 * n \<le> m"
  using assms by (rule flood_iff)

definition syn_clock_at :: "instant \<Rightarrow> syn_clock" where
  "syn_clock_at t = \<lparr>yc_new = t, yc_elapsed = t, yc_reset = t, yc_insert = t\<rparr>"

theorem syn_flood_exact_witness:
  "''syn_flood'' \<in> set (syn_names (syn_clock_at 7) (V4 10 0 0 1) (V4 10 0 0 2) 999 80 0x02
     (syn_run (replicate 49 (Observe (syn_clock_at 7, V4 10 0 0 1, V4 10 0 0 2, 999, 80, 0x02))) SynFloodDetector_new))"
proof -
  let ?es = "replicate 49 (Observe (syn_clock_at 7, V4 10 0 0 1, V4 10 0 0 2, 999 :: u16, 80 :: u16, 0x02 :: u8))"
  have e: "\<forall>e \<in> set ?es. syn_in_span 0 (V4 10 0 0 1) e"
    by (simp add: syn_clock_at_def in_ten_def from_secs_def)
  have s: "is_syn 0x02" by (simp add: is_syn_def det_defs)
  have m: "50 = observed (syn_from (V4 10 0 0 1)) ?es + (if is_syn 0x02 then 1 else 0)"
    by (simp add: observed_def syn_from_def s)
  have n: "0 = observed (ack_from (V4 10 0 0 1)) ?es + (if (0x02 :: u8) AND TCP_ACK \<noteq> 0 then 1 else 0)"
    by (simp add: observed_def ack_from_def det_defs)
  show ?thesis
    by (subst syn_flood_exact [OF e _ _ m n]) (simp_all add: syn_clock_at_def in_ten_def from_secs_def)
qed

text \<open>The verdicts of one inspection, in order: in any reachable state the signals
  are exactly the flood check on the updated counters, the half-open count reaching 200, a
  reset that is not also a SYN, and the Xmas flags.  In particular every RST without SYN
  raises \<open>rst_injection\<close>, also one that closes a tracked connection, because its half-open
  entry has just been removed when the check looks for it.\<close>

theorem syn_flood_verdicts:
  fixes es clk src dst sp dp flags
  defines "d \<equiv> syn_run es SynFloodDetector_new"
  shows "syn_names clk src dst sp dp flags d =
     (if 50 \<le> syns (counter_step clk src flags d) \<and> 5 \<le> syn_ack_ratio (counter_step clk src flags d)
      then [''syn_flood''] else []) @
     (if 200 \<le> tab_len (half_open (snd (SynFloodDetector_inspect clk src dst sp dp flags d)))
      then [''half_open_high''] else []) @
     (if flags AND 0x04 \<noteq> 0 \<and> \<not> (flags AND 0x02 \<noteq> 0 \<and> flags AND 0x10 = 0) then [''rst_injection''] else []) @
     (if flags = 0x29 then [''xmas_scan''] else [])"
proof -
  have std: "syn_std d" unfolding d_def by (rule syn_std_run [OF syn_std_new])
  have k: "is_rst flags \<longleftrightarrow> flags AND 0x04 \<noteq> 0" "is_syn flags \<longleftrightarrow> flags AND 0x02 \<noteq> 0 \<and> flags AND 0x10 = 0"
    "TCP_XMAS = 0x29"
    by (simp_all add: is_rst_def is_syn_def det_defs)
  show ?thesis unfolding syn_names_def syn_inspect_names [OF std] k by (simp add: syn_inspect_state)
qed

text \<open>C26 (refinement). Without sweeps the half-open table is the set of flows whose last SYN has not
  been acknowledged or reset in either direction, and its length is the size of that set, so
  the alarm is raised exactly when 200 such flows are open.\<close>

theorem half_open_refines:
  fixes "is"
  defines "F \<equiv> open_flows is {}"
  shows "dom (tab_get (half_open (syn_run (map Observe is) SynFloodDetector_new))) = F \<and>
     (''half_open_high'' \<in> set (syn_names clk src dst sp dp flags (syn_run (map Observe is) SynFloodDetector_new))
        \<longleftrightarrow> 200 \<le> card (track_flow (clk, src, dst, sp, dp, flags) F))"
proof -
  let ?d = "syn_run (map Observe is) SynFloodDetector_new"
  have std: "syn_std ?d" by (rule syn_std_run [OF syn_std_new])
  have dom: "dom (tab_get (half_open ?d)) = F"
    using open_flows_run [OF syn_std_new] by (simp add: F_def SynFloodDetector_new_def dom_def)
  let ?d' = "snd (syn_obs (clk, src, dst, sp, dp, flags) ?d)"
  have "tab_ok (half_open ?d')"
    using syn_std_inspect [OF std] by (simp add: syn_obs_def syn_std_def)
  then have "tab_len (half_open ?d') = card (track_flow (clk, src, dst, sp, dp, flags) F)"
    by (simp only: tbl.len_card ho_step_dom [OF std] dom)
  then have "tab_len (ho_step clk src dst sp dp flags ?d) = card (track_flow (clk, src, dst, sp, dp, flags) F)"
    by (simp add: syn_obs_def syn_inspect_state)
  with dom show ?thesis unfolding syn_names_def syn_inspect_names [OF std] by simp
qed

end
