(* ===== verification/RustStr.thy ===== *)
theory RustStr
  imports Prelude
begin

unbundle bit_operations_syntax

text \<open>
  The part of Rust's strings that the sources use.  A \<open>str\<close> is its sequence of UTF-8
  bytes, as in Rust: \<open>len\<close> counts bytes, \<open>as_bytes\<close> is the identity, and splitting at an
  ASCII character is splitting at its byte.  \<open>to_lowercase\<close> depends on the Unicode tables
  and is a parameter of the definitions that call it; \<open>lowercase_ok\<close> states its documented
  effect on ASCII text.
\<close>

definition str :: "string \<Rightarrow> bytes" where
  "str s = map of_char s"

abbreviation dot :: u8 where "dot \<equiv> 0x2E"

section \<open>Splitting, joining, trimming\<close>

fun split_on :: "u8 \<Rightarrow> bytes \<Rightarrow> bytes list" where
  "split_on c [] = [[]]"
| "split_on c (x # xs) =
     (if x = c then [] # split_on c xs
      else (case split_on c xs of [] \<Rightarrow> [[x]] | w # ws \<Rightarrow> (x # w) # ws))"

fun join :: "bytes \<Rightarrow> bytes list \<Rightarrow> bytes" where
  "join sep [] = []"
| "join sep [w] = w"
| "join sep (w # ws) = w @ sep @ join sep ws"

definition split_once :: "u8 \<Rightarrow> bytes \<Rightarrow> (bytes \<times> bytes) option" where
  "split_once c s =
     (if c \<in> set s then Some (takeWhile (\<lambda>b. b \<noteq> c) s, drop 1 (dropWhile (\<lambda>b. b \<noteq> c) s)) else None)"

definition trim_end_matches :: "u8 \<Rightarrow> bytes \<Rightarrow> bytes" where
  "trim_end_matches c s = rev (dropWhile (\<lambda>b. b = c) (rev s))"

definition starts_with :: "u8 \<Rightarrow> bytes \<Rightarrow> bool" where
  "starts_with c s \<longleftrightarrow> (case s of [] \<Rightarrow> False | b # _ \<Rightarrow> b = c)"

text \<open>The UTF-8 encodings of the characters with the Unicode property \<open>White_Space\<close>.\<close>

definition white_space :: "bytes list" where
  "white_space =
     [[0x09], [0x0A], [0x0B], [0x0C], [0x0D], [0x20], [0xC2, 0x85], [0xC2, 0xA0],
      [0xE1, 0x9A, 0x80], [0xE2, 0x80, 0x80], [0xE2, 0x80, 0x81], [0xE2, 0x80, 0x82],
      [0xE2, 0x80, 0x83], [0xE2, 0x80, 0x84], [0xE2, 0x80, 0x85], [0xE2, 0x80, 0x86],
      [0xE2, 0x80, 0x87], [0xE2, 0x80, 0x88], [0xE2, 0x80, 0x89], [0xE2, 0x80, 0x8A],
      [0xE2, 0x80, 0xA8], [0xE2, 0x80, 0xA9], [0xE2, 0x80, 0xAF], [0xE2, 0x81, 0x9F],
      [0xE3, 0x80, 0x80]]"

function strip_pats :: "bytes list \<Rightarrow> bytes \<Rightarrow> bytes" where
  "strip_pats ps s =
     (case find (\<lambda>p. p \<noteq> [] \<and> prefix p s) ps of
        None \<Rightarrow> s
      | Some p \<Rightarrow> strip_pats ps (drop (length p) s))"
  by pat_completeness auto
termination
  by (relation "measure (\<lambda>(ps, s). length s)") (auto simp: find_Some_iff prefix_def)

declare strip_pats.simps [simp del]

lemma strip_pats_none: "\<forall>p \<in> set ps. p \<noteq> [] \<longrightarrow> hd p \<notin> set s \<Longrightarrow> strip_pats ps s = s"
proof -
  assume h: "\<forall>p \<in> set ps. p \<noteq> [] \<longrightarrow> hd p \<notin> set s"
  have "find (\<lambda>p. p \<noteq> [] \<and> prefix p s) ps = None"
    unfolding find_None_iff
  proof clarify
    fix p assume p: "p \<in> set ps" "p \<noteq> []" "prefix p s"
    then have "hd p \<in> set p" by simp
    then have "hd p \<in> set s" using p(3) set_mono_prefix by blast
    with h p show False by blast
  qed
  then show ?thesis by (simp add: strip_pats.simps)
qed

definition trim :: "bytes \<Rightarrow> bytes" where
  "trim s = rev (strip_pats (map rev white_space) (rev (strip_pats white_space s)))"

text \<open>\<open>split_whitespace\<close>: the non-empty pieces between white space; \<open>cur\<close> is the piece so far.\<close>

function split_whitespace :: "bytes \<Rightarrow> bytes \<Rightarrow> bytes list" where
  "split_whitespace cur s =
     (if s = [] then (if cur = [] then [] else [cur])
      else (case find (\<lambda>p. p \<noteq> [] \<and> prefix p s) white_space of
              Some p \<Rightarrow> (if cur = [] then [] else [cur]) @ split_whitespace [] (drop (length p) s)
            | None \<Rightarrow> split_whitespace (cur @ [hd s]) (tl s)))"
  by pat_completeness auto
termination
  by (relation "measure (\<lambda>(cur, s). length s)") (auto simp: find_Some_iff prefix_def)

declare split_whitespace.simps [simp del]

text \<open>\<open>str::lines\<close>: a line ends at a line feed, and a carriage return before it goes too.\<close>

definition strip_cr :: "bytes \<Rightarrow> bytes" where
  "strip_cr s = (if s \<noteq> [] \<and> last s = 0x0D then butlast s else s)"

definition str_lines :: "bytes \<Rightarrow> bytes list" where
  "str_lines s = (let ps = split_on 0x0A s in
     map strip_cr (butlast ps) @ (if last ps = [] then [] else [last ps]))"

section \<open>Case\<close>

definition ascii_lower :: "u8 \<Rightarrow> u8" where
  "ascii_lower b = (if 0x41 \<le> b \<and> b \<le> 0x5A then b + 0x20 else b)"

definition is_ascii :: "bytes \<Rightarrow> bool" where
  "is_ascii s \<longleftrightarrow> (\<forall>b\<in>set s. b < 0x80)"

definition lowercase_ok :: "(bytes \<Rightarrow> bytes) \<Rightarrow> bool" where
  "lowercase_ok lc \<longleftrightarrow> (\<forall>s. is_ascii s \<longrightarrow> lc s = map ascii_lower s)"

lemma lowercase_ok_ascii: "lowercase_ok (map ascii_lower)"
  by (simp add: lowercase_ok_def)

section \<open>UTF-8\<close>

text \<open>\<open>utf8_head s\<close> reads one unit of a non-empty byte string as \<open>String::from_utf8_lossy\<close>
  does: the number of bytes it takes, and whether they are one well-formed character.  An
  ill-formed unit is the longest prefix that could still have become a character.\<close>

definition cont :: "bytes \<Rightarrow> usize \<Rightarrow> bool" where
  "cont s i \<longleftrightarrow> i < length s \<and> s ! i AND 0xC0 = 0x80"

definition between :: "bytes \<Rightarrow> usize \<Rightarrow> u8 \<Rightarrow> u8 \<Rightarrow> bool" where
  "between s i lo hi \<longleftrightarrow> i < length s \<and> lo \<le> s ! i \<and> s ! i \<le> hi"

definition second_ok :: "bytes \<Rightarrow> bool" where
  "second_ok s =
     (let b = s ! 0 in
      if b = 0xE0 then between s 1 0xA0 0xBF
      else if b = 0xED then between s 1 0x80 0x9F
      else if b = 0xF0 then between s 1 0x90 0xBF
      else if b = 0xF4 then between s 1 0x80 0x8F
      else between s 1 0x80 0xBF)"

definition utf8_head :: "bytes \<Rightarrow> usize \<times> bool" where
  "utf8_head s =
     (let b = s ! 0 in
      if b < 0x80 then (1, True)
      else if 0xC2 \<le> b \<and> b \<le> 0xDF then (if cont s 1 then (2, True) else (1, False))
      else if 0xE0 \<le> b \<and> b \<le> 0xEF then
        (if \<not> second_ok s then (1, False) else if \<not> cont s 2 then (2, False) else (3, True))
      else if 0xF0 \<le> b \<and> b \<le> 0xF4 then
        (if \<not> second_ok s then (1, False) else if \<not> cont s 2 then (2, False)
         else if \<not> cont s 3 then (3, False) else (4, True))
      else (1, False))"

definition REPLACEMENT :: bytes where
  "REPLACEMENT = [0xEF, 0xBF, 0xBD]"

lemma utf8_head_bounds:
  assumes "utf8_head s = (n, ok)" and "s \<noteq> []"
  shows "1 \<le> n \<and> n \<le> 4 \<and> n \<le> length s"
  using assms
  by (auto simp: utf8_head_def Let_def cont_def second_ok_def between_def Suc_le_eq split: if_splits)

lemma utf8_head_decreases:
  "s \<noteq> [] \<Longrightarrow> (n, ok) = utf8_head s \<Longrightarrow> length s - n < length s"
  using utf8_head_bounds [of s n ok] by auto

function from_utf8_lossy :: "bytes \<Rightarrow> bytes" where
  "from_utf8_lossy s =
     (if s = [] then []
      else (case utf8_head s of (n, ok) \<Rightarrow>
              (if ok then take n s else REPLACEMENT) @ from_utf8_lossy (drop n s)))"
  by pat_completeness auto
termination
  by (relation "measure length") (auto intro: utf8_head_decreases)

declare from_utf8_lossy.simps [simp del]

function utf8_valid :: "bytes \<Rightarrow> bool" where
  "utf8_valid s =
     (if s = [] then True
      else (case utf8_head s of (n, ok) \<Rightarrow> ok \<and> utf8_valid (drop n s)))"
  by pat_completeness auto
termination
  by (relation "measure length") (auto intro: utf8_head_decreases)

declare utf8_valid.simps [simp del]

lemma lossy_valid_id: "utf8_valid s \<Longrightarrow> from_utf8_lossy s = s"
proof (induction s rule: from_utf8_lossy.induct)
  case (1 s)
  show ?case
  proof (cases "s = []")
    case True
    then show ?thesis by (simp add: from_utf8_lossy.simps)
  next
    case False
    obtain n ok where h: "utf8_head s = (n, ok)" by force
    have "ok" "utf8_valid (drop n s)"
      using 1(2) False h by (auto simp: utf8_valid.simps [of s])
    then show ?thesis
      using 1(1) [OF False h [symmetric]] False h by (simp add: from_utf8_lossy.simps [of s])
  qed
qed

lemma lossy_eq_Nil [simp]: "from_utf8_lossy s = [] \<longleftrightarrow> s = []"
proof (cases "s = []")
  case False
  obtain n ok where h: "utf8_head s = (n, ok)" by force
  then have "take n s \<noteq> []" using utf8_head_bounds [OF h False] by auto
  then show ?thesis
    using False h by (auto simp: from_utf8_lossy.simps [of s] REPLACEMENT_def)
qed (simp add: from_utf8_lossy.simps)

lemma ascii_valid: "is_ascii s \<Longrightarrow> utf8_valid s"
proof (induction s)
  case Nil
  then show ?case by (simp add: utf8_valid.simps)
next
  case (Cons b s)
  then show ?case
    by (simp add: utf8_valid.simps [of "b # s"] is_ascii_def utf8_head_def Let_def)
qed

text \<open>Lossy decoding neither adds nor removes the ASCII characters: the bytes below 128 of the
  result are those of the units that were read, and a label cannot gain a dot.\<close>

lemma lossy_count_le:
  "b < 0x80 \<Longrightarrow> count_list (from_utf8_lossy s) b \<le> count_list s b"
proof (induction s rule: from_utf8_lossy.induct)
  case (1 s)
  show ?case
  proof (cases "s = []")
    case True
    then show ?thesis by (simp add: from_utf8_lossy.simps)
  next
    case False
    obtain n ok where h: "utf8_head s = (n, ok)" by force
    have rep: "count_list REPLACEMENT b = 0"
      using 1(2) by (auto simp: REPLACEMENT_def)
    have "count_list s b = count_list (take n s) b + count_list (drop n s) b"
      by (metis append_take_drop_id count_list_append)
    moreover have "from_utf8_lossy s = (if ok then take n s else REPLACEMENT) @ from_utf8_lossy (drop n s)"
      using False h by (simp add: from_utf8_lossy.simps [of s])
    ultimately show ?thesis
      using 1(1) [OF False h [symmetric] 1(2)] rep by (auto simp: count_list_append)
  qed
qed

lemma lossy_length_le: "length (from_utf8_lossy s) \<le> 3 * length s"
proof (induction s rule: from_utf8_lossy.induct)
  case (1 s)
  show ?case
  proof (cases "s = []")
    case True
    then show ?thesis by (simp add: from_utf8_lossy.simps)
  next
    case False
    obtain n ok where h: "utf8_head s = (n, ok)" by force
    have n: "1 \<le> n" "n \<le> length s" using utf8_head_bounds [OF h False] by auto
    have "length (from_utf8_lossy s) =
        (if ok then n else 3) + length (from_utf8_lossy (drop n s))"
      using False h n by (simp add: from_utf8_lossy.simps [of s] REPLACEMENT_def)
    also have "\<dots> \<le> 3 * n + 3 * (length s - n)"
      using 1(1) [OF False h [symmetric]] n by (intro add_mono) auto
    finally show ?thesis using n by simp
  qed
qed

section \<open>Lemmas on splitting and joining\<close>

lemma split_on_nonempty [simp]: "split_on c s \<noteq> []"
  by (induction s) (auto split: list.splits)

lemma split_on_no_sep: "c \<notin> set s \<Longrightarrow> split_on c s = [s]"
  by (induction s) auto

lemma split_on_append_sep: "c \<notin> set w \<Longrightarrow> split_on c (w @ c # s) = w # split_on c s"
  by (induction w) auto

lemma split_join:
  "ws \<noteq> [] \<Longrightarrow> \<forall>w\<in>set ws. c \<notin> set w \<Longrightarrow> split_on c (join [c] ws) = ws"
  by (induction "[c]" ws rule: join.induct) (auto simp: split_on_no_sep split_on_append_sep)

lemma length_split_on: "length (split_on c s) = Suc (count_list s c)"
  by (induction s) (auto split: list.splits)

lemma count_list_join:
  "ws \<noteq> [] \<Longrightarrow> count_list (join [c] ws) b =
     sum_list (map (\<lambda>w. count_list w b) ws) + (if b = c then length ws - 1 else 0)"
  by (induction "[c]" ws rule: join.induct) (auto simp: count_list_append)

end
