(* ===== verification/AddrText.thy ===== *)
theory AddrText
  imports RustStr
begin

unbundle bit_operations_syntax

text \<open>
  Numbers and addresses as text: \<open>str::parse\<close> for \<open>u32\<close> and \<open>Ipv4Addr\<close>, used by the
  blacklist loader, and \<open>to_string\<close> of \<open>IpAddr\<close>, used by the baseline and the events sent
  to the service.
\<close>

section \<open>Decimal numbers\<close>

fun parse_digits :: "nat \<Rightarrow> nat \<Rightarrow> bytes \<Rightarrow> nat option" where
  "parse_digits mx acc [] = Some acc"
| "parse_digits mx acc (b # bs) =
     (if 0x30 \<le> b \<and> b \<le> 0x39 then
        let v = acc * 10 + unat (b - 0x30) in
        if v \<le> mx then parse_digits mx v bs else None
      else None)"

text \<open>\<open>str::parse::<u32>\<close>: an optional plus sign, then decimal digits that fit.\<close>

definition parse_u32 :: "bytes \<Rightarrow> u32 option" where
  "parse_u32 s =
     (let ds = (case s of b # bs \<Rightarrow> if b = 0x2B then bs else s | [] \<Rightarrow> s)
      in if ds = [] then None else map_option of_nat (parse_digits (2 ^ 32 - 1) 0 ds))"

text \<open>\<open>str::parse::<Ipv4Addr>\<close>: four octets of one to three digits without leading zeros.\<close>

definition parse_octet :: "bytes \<Rightarrow> u8 option" where
  "parse_octet s =
     (if s = [] \<or> 3 < length s \<or> (1 < length s \<and> s ! 0 = 0x30) then None
      else map_option of_nat (parse_digits 255 0 s))"

definition parse_ipv4_addr :: "bytes \<Rightarrow> (u8 \<times> u8 \<times> u8 \<times> u8) option" where
  "parse_ipv4_addr s =
     (case split_on dot s of
        [a, b, c, d] \<Rightarrow> do {
          a' \<leftarrow> parse_octet a; b' \<leftarrow> parse_octet b; c' \<leftarrow> parse_octet c; d' \<leftarrow> parse_octet d;
          Some (a', b', c', d') }
      | _ \<Rightarrow> None)"

fun show_nat :: "nat \<Rightarrow> bytes" where
  "show_nat n = (if n < 10 then [of_nat (0x30 + n)] else show_nat (n div 10) @ [of_nat (0x30 + n mod 10)])"

declare show_nat.simps [simp del]

definition hex_digit :: "nat \<Rightarrow> u8" where
  "hex_digit n = (if n < 10 then of_nat (0x30 + n) else of_nat (0x57 + n))"

fun show_hex :: "nat \<Rightarrow> bytes" where
  "show_hex n = (if n < 16 then [hex_digit n] else show_hex (n div 16) @ [hex_digit (n mod 16)])"

declare show_hex.simps [simp del]

section \<open>Addresses\<close>

definition ipv4_to_string :: "u8 \<Rightarrow> u8 \<Rightarrow> u8 \<Rightarrow> u8 \<Rightarrow> bytes" where
  "ipv4_to_string a b c d =
     join [dot] [show_nat (unat a), show_nat (unat b), show_nat (unat c), show_nat (unat d)]"

fun segments :: "bytes \<Rightarrow> u16 list" where
  "segments (a # b # bs) = be16 a b # segments bs"
| "segments _ = []"

text \<open>\<open>Display for Ipv6Addr\<close>: the first longest run of two or more zero segments is written
  \<open>::\<close>, and a mapped IPv4 address in dotted form.  The scan keeps the current run and the
  longest, each as its start and length.\<close>

fun zero_runs :: "nat \<Rightarrow> u16 list \<Rightarrow> nat \<times> nat \<Rightarrow> nat \<times> nat \<Rightarrow> nat \<times> nat" where
  "zero_runs i [] cur best = best"
| "zero_runs i (s # ss) cur best =
     (if s = 0 then
        let cur' = (if snd cur = 0 then i else fst cur, snd cur + 1);
            best' = (if snd best < snd cur' then cur' else best)
        in zero_runs (i + 1) ss cur' best'
      else zero_runs (i + 1) ss (0, 0) best)"

definition fmt_subslice :: "u16 list \<Rightarrow> bytes" where
  "fmt_subslice ss = join [0x3A] (map (\<lambda>s. show_hex (unat s)) ss)"

definition ipv6_to_string :: "bytes \<Rightarrow> bytes" where
  "ipv6_to_string bs =
     (let ss = segments bs in
      if take 6 ss = [0, 0, 0, 0, 0, 0xFFFF] then
        str ''::ffff:'' @ ipv4_to_string (bs ! 12) (bs ! 13) (bs ! 14) (bs ! 15)
      else
        (case zero_runs 0 ss (0, 0) (0, 0) of (start, len) \<Rightarrow>
           if 1 < len then
             fmt_subslice (take start ss) @ [0x3A, 0x3A] @ fmt_subslice (drop (start + len) ss)
           else fmt_subslice ss))"

fun ip_to_string :: "ip_addr \<Rightarrow> bytes" where
  "ip_to_string (V4 a b c d) = ipv4_to_string a b c d"
| "ip_to_string (V6 bs) = ipv6_to_string bs"

section \<open>Printing and parsing an IPv4 address\<close>

lemma parse_digits_snoc:
  "parse_digits mx acc (xs @ [b]) =
     (case parse_digits mx acc xs of None \<Rightarrow> None
      | Some v \<Rightarrow> if 0x30 \<le> b \<and> b \<le> 0x39 \<and> v * 10 + unat (b - 0x30) \<le> mx
                 then Some (v * 10 + unat (b - 0x30)) else None)"
  by (induction mx acc xs rule: parse_digits.induct) (auto simp: Let_def)

lemma digit_byte:
  assumes "k < 10"
  shows "0x30 \<le> (of_nat (0x30 + k) :: u8)" "(of_nat (0x30 + k) :: u8) \<le> 0x39"
    "unat (of_nat (0x30 + k) - 0x30 :: u8) = k"
proof -
  have "unat (of_nat (0x30 + k) :: u8) = 0x30 + k" using assms by (simp only: unat_of_nat take_bit_nat_eq_self_iff) simp
  then show "0x30 \<le> (of_nat (0x30 + k) :: u8)" "(of_nat (0x30 + k) :: u8) \<le> 0x39"
    using assms by (simp_all add: word_le_nat_alt)
  have "of_nat (0x30 + k) - 0x30 = (of_nat k :: u8)" by simp
  then show "unat (of_nat (0x30 + k) - 0x30 :: u8) = k"
    using assms by (simp only: unat_of_nat take_bit_nat_eq_self_iff) simp
qed

lemma parse_show_nat: "n \<le> mx \<Longrightarrow> parse_digits mx 0 (show_nat n) = Some n"
proof (induction n rule: show_nat.induct)
  case (1 n)
  show ?case
  proof (cases "n < 10")
    case True
    then show ?thesis
      using 1(2) digit_byte [OF True] by (simp add: show_nat.simps [of n] Let_def)
  next
    case False
    have "n div 10 \<le> mx" using 1(2) by linarith
    then have "parse_digits mx 0 (show_nat (n div 10)) = Some (n div 10)" using 1(1) False by simp
    moreover have "n div 10 * 10 + n mod 10 \<le> mx" using 1(2) by simp
    ultimately show ?thesis
      using False digit_byte [of "n mod 10"]
      by (simp add: show_nat.simps [of n] parse_digits_snoc)
  qed
qed

lemma show_nat_digits: "b \<in> set (show_nat n) \<Longrightarrow> 0x30 \<le> b \<and> b \<le> 0x39"
proof (induction n rule: show_nat.induct)
  case (1 n)
  then show ?case
    using digit_byte [of n] digit_byte [of "n mod 10"]
    by (auto simp: show_nat.simps [of n] split: if_splits)
qed

lemma parse_show_octet: "parse_octet (show_nat (unat a)) = Some a"
proof -
  define n where "n = unat a"
  have n: "n < 256" using unsigned_less [of a] by (simp add: n_def)
  have d: "of_nat (0x30 + k) = (0x30 :: u8) \<longleftrightarrow> k = 0" if "k < 10" for k
    using digit_byte(3) [OF that] by (metis add.right_neutral of_nat_numeral right_minus_eq unat_0 unat_eq_zero)
  have "show_nat n \<noteq> [] \<and> length (show_nat n) \<le> 3 \<and> (1 < length (show_nat n) \<longrightarrow> show_nat n ! 0 \<noteq> 0x30)"
  proof -
    consider "n < 10" | "10 \<le> n" "n < 100" | "100 \<le> n" by linarith
    then show ?thesis
    proof cases
      case 1
      then show ?thesis by (simp add: show_nat.simps)
    next
      case 2
      then have "show_nat n = [of_nat (0x30 + n div 10), of_nat (0x30 + n mod 10)]"
        by (simp add: show_nat.simps [of n] show_nat.simps [of "n div 10"])
      then show ?thesis using d [of "n div 10"] 2 by simp
    next
      case 3
      then have "show_nat n = [of_nat (0x30 + n div 10 div 10), of_nat (0x30 + n div 10 mod 10), of_nat (0x30 + n mod 10)]"
        using n by (subst show_nat.simps, subst show_nat.simps, subst show_nat.simps) auto
      then show ?thesis using d [of "n div 10 div 10"] 3 n by simp
    qed
  qed
  then show ?thesis
    using parse_show_nat [of n 255] n by (auto simp: parse_octet_def n_def)
qed

lemma dot_not_digit: "dot \<notin> set (show_nat n)"
  using show_nat_digits [of dot n] by auto

lemma parse_ipv4_to_string: "parse_ipv4_addr (ipv4_to_string a b c d) = Some (a, b, c, d)"
proof -
  have "split_on dot (ipv4_to_string a b c d) =
      [show_nat (unat a), show_nat (unat b), show_nat (unat c), show_nat (unat d)]"
    unfolding ipv4_to_string_def by (rule split_join) (auto simp: dot_not_digit)
  then show ?thesis by (simp add: parse_ipv4_addr_def parse_show_octet)
qed

end
