(* ===== verification/Blacklist.thy ===== *)
theory Blacklist
  imports Score AddrText
begin

unbundle bit_operations_syntax

text \<open>
  The blacklist of \<open>ids/blacklist.rs\<close>: exact addresses behind a Bloom filter, CIDR ranges
  and domains, with the loaders for text lists.  The Bloom filter is a library: its three
  operations are parameters, and \<open>bloom_ok\<close> states the one thing the code relies on, that
  there are no false negatives.  Lower-casing (\<open>lc\<close>) is a parameter as well.  The release
  build is modelled: subtraction of \<open>u32\<close> wraps and a shift uses the low five bits of
  its amount.
\<close>

section \<open>State and operations\<close>

record 'b bloom =
  bloom_new :: 'b
  bloom_set :: "u32 \<Rightarrow> 'b \<Rightarrow> 'b"
  bloom_check :: "'b \<Rightarrow> u32 \<Rightarrow> bool"

record cidr_entry =
  cidr_base :: u32
  cidr_mask :: u32

definition prefix_mask :: "u32 \<Rightarrow> u32" where
  "prefix_mask p = (if p = 0 then 0 else push_bit (unat ((32 - p) AND 31)) (NOT 0))"

definition CidrEntry_from_cidr :: "bytes \<Rightarrow> cidr_entry option" where
  "CidrEntry_from_cidr s = do {
     (ip_str, prefix_len_str) \<leftarrow> split_once 0x2F s;
     prefix_len \<leftarrow> parse_u32 (trim prefix_len_str);
     (a, b, c, d) \<leftarrow> parse_ipv4_addr (trim ip_str);
     let mask = prefix_mask prefix_len;
     Some \<lparr>cidr_base = u32_from_ipv4 a b c d AND mask, cidr_mask = mask\<rparr>
   }"

definition CidrEntry_contains :: "cidr_entry \<Rightarrow> u32 \<Rightarrow> bool" where
  "CidrEntry_contains e ip \<longleftrightarrow> ip AND cidr_mask e = cidr_base e"

record 'b blacklist =
  ip_bloom :: 'b
  ip_exact :: "u32 set"
  ip_cidrs :: "cidr_entry list"
  domains :: "bytes set"

definition Blacklist_new :: "'b bloom \<Rightarrow> 'b blacklist" where
  "Blacklist_new B = \<lparr>ip_bloom = bloom_new B, ip_exact = {}, ip_cidrs = [], domains = {}\<rparr>"

fun Blacklist_check_ip :: "'b bloom \<Rightarrow> ip_addr \<Rightarrow> 'b blacklist \<Rightarrow> signal option" where
  "Blacklist_check_ip B (V6 bs) bl = None"
| "Blacklist_check_ip B (V4 a b c d) bl =
     (let ipv4 = u32_from_ipv4 a b c d in
      if bloom_check B (ip_bloom bl) ipv4 \<and> ipv4 \<in> ip_exact bl then
        Some \<lparr>sig_name = ''blacklisted_ip'', sig_score = SCORE_BLACKLIST_IP,
              sig_detail = fmt ''IP {} matched blacklist'' [FIp (V4 a b c d)]\<rparr>
      else if list_ex (\<lambda>cidr. CidrEntry_contains cidr ipv4) (ip_cidrs bl) then
        Some \<lparr>sig_name = ''blacklisted_cidr'', sig_score = SCORE_BLACKLIST_IP,
              sig_detail = fmt ''IP {} matched CIDR blacklist'' [FIp (V4 a b c d)]\<rparr>
      else None)"

definition Blacklist_check_domain :: "(bytes \<Rightarrow> bytes) \<Rightarrow> bytes \<Rightarrow> 'b blacklist \<Rightarrow> signal option" where
  "Blacklist_check_domain lc domain bl =
     (let d = lc (trim_end_matches dot domain) in
      if d \<in> domains bl then
        Some \<lparr>sig_name = ''blacklisted_domain'', sig_score = SCORE_BLACKLIST_DOMAIN,
              sig_detail = fmt ''Domain '{}' matched blacklist'' [FStr domain]\<rparr>
      else None)"

definition Blacklist_add_ip :: "'b bloom \<Rightarrow> u32 \<Rightarrow> 'b blacklist \<Rightarrow> 'b blacklist" where
  "Blacklist_add_ip B ip bl =
     bl\<lparr>ip_bloom := bloom_set B ip (ip_bloom bl), ip_exact := insert ip (ip_exact bl)\<rparr>"

definition Blacklist_add_cidr :: "bytes \<Rightarrow> 'b blacklist \<Rightarrow> 'b blacklist" where
  "Blacklist_add_cidr cidr_str bl =
     (case CidrEntry_from_cidr cidr_str of
        Some entry \<Rightarrow> bl\<lparr>ip_cidrs := ip_cidrs bl @ [entry]\<rparr>
      | None \<Rightarrow> bl)"

definition Blacklist_add_domain :: "(bytes \<Rightarrow> bytes) \<Rightarrow> bytes \<Rightarrow> 'b blacklist \<Rightarrow> 'b blacklist" where
  "Blacklist_add_domain lc domain bl =
     bl\<lparr>domains := insert (lc (trim_end_matches dot domain)) (domains bl)\<rparr>"

definition load_ip_line :: "'b bloom \<Rightarrow> bytes \<Rightarrow> 'b blacklist \<Rightarrow> 'b blacklist" where
  "load_ip_line B raw bl =
     (let line = trim raw in
      if line = [] \<or> starts_with 0x3B line \<or> starts_with 0x23 line then bl
      else if 0x2F \<in> set line then Blacklist_add_cidr line bl
      else (case parse_ipv4_addr line of
              Some (a, b, c, d) \<Rightarrow> Blacklist_add_ip B (u32_from_ipv4 a b c d) bl
            | None \<Rightarrow> bl))"

definition Blacklist_load_ip_list :: "'b bloom \<Rightarrow> bytes \<Rightarrow> 'b blacklist \<Rightarrow> 'b blacklist" where
  "Blacklist_load_ip_list B content bl = fold (load_ip_line B) (str_lines content) bl"

definition load_domain_line :: "(bytes \<Rightarrow> bytes) \<Rightarrow> bytes \<Rightarrow> 'b blacklist \<Rightarrow> 'b blacklist" where
  "load_domain_line lc raw bl =
     (let line = trim raw in
      if line \<noteq> [] \<and> \<not> starts_with 0x23 line then Blacklist_add_domain lc line bl else bl)"

definition Blacklist_load_domain_list :: "(bytes \<Rightarrow> bytes) \<Rightarrow> bytes \<Rightarrow> 'b blacklist \<Rightarrow> 'b blacklist" where
  "Blacklist_load_domain_list lc content bl = fold (load_domain_line lc) (str_lines content) bl"

section \<open>The Bloom filter\<close>

definition bloom_ok :: "'b bloom \<Rightarrow> bool" where
  "bloom_ok B \<longleftrightarrow> (\<forall>b x. bloom_check B (bloom_set B x b) x) \<and>
     (\<forall>b x y. bloom_check B b y \<longrightarrow> bloom_check B (bloom_set B x b) y)"

text \<open>A small filter that really has false positives: it remembers the low byte.\<close>

definition low_byte_bloom :: "u8 set bloom" where
  "low_byte_bloom = \<lparr>bloom_new = {}, bloom_set = (\<lambda>x b. insert (ucast x) b),
     bloom_check = (\<lambda>b x. ucast x \<in> b)\<rparr>"

lemma low_byte_bloom_ok: "bloom_ok low_byte_bloom"
  by (simp add: bloom_ok_def low_byte_bloom_def)

section \<open>Prefixes\<close>

text \<open>The prefix length the mask stands for: a length above 32 wraps around.\<close>

definition effective_prefix :: "nat \<Rightarrow> nat" where
  "effective_prefix p = (if p = 0 then 0 else (p - 1) mod 32 + 1)"

lemma effective_prefix_le: "effective_prefix p \<le> 32"
  by (simp add: effective_prefix_def Suc_le_eq)

lemma effective_prefix_id: "p \<le> 32 \<Longrightarrow> effective_prefix p = p"
  by (auto simp: effective_prefix_def)

lemma wrapped_amount:
  assumes "0 < n" and "n \<le> 4294967296"
  shows "(4294967328 - n) mod 32 = 32 - effective_prefix n"
proof -
  define q where "q = (n - 1) div 32"
  define r where "r = (n - 1) mod 32"
  have n: "n = 32 * q + r + 1" "r < 32" using assms(1) by (simp_all add: q_def r_def)
  then have "4294967328 - n = 32 * (134217728 - q) + (31 - r)" using assms(2) by simp
  then have "(4294967328 - n) mod 32 = (31 - r) mod 32" by (simp only: mod_mult_self4)
  then have "(4294967328 - n) mod 32 = 31 - r" by simp
  then show ?thesis using assms(1) by (simp add: effective_prefix_def r_def)
qed

lemma shift_amount:
  assumes "p \<noteq> 0" shows "unat ((32 - p) AND 31 :: u32) = 32 - effective_prefix (unat p)"
proof -
  have p: "0 < unat p" "unat p < 4294967296" using assms unsigned_less [of p] by (simp_all add: unat_gt_0)
  have "(32 - p) AND 31 = take_bit 5 (32 - p)" by (simp add: take_bit_eq_mask mask_eq_exp_minus_1)
  then have "unat ((32 - p) AND 31) = take_bit 5 (unat (32 - p))"
    by (simp only: unsigned_take_bit_eq)
  then have *: "unat ((32 - p) AND 31) = unat (32 - p) mod 32" by (simp add: take_bit_eq_mod)
  show ?thesis
  proof (cases "unat p \<le> 32")
    case True
    then have "unat (32 - p) = 32 - unat p" by (simp add: unat_sub_if')
    then show ?thesis using * p True by (simp add: effective_prefix_id)
  next
    case False
    then have "unat (32 - p) = 4294967328 - unat p" by (simp add: unat_sub_if')
    then show ?thesis using * wrapped_amount [of "unat p"] p by simp
  qed
qed

lemma masked_eq_iff:
  "x AND push_bit k (NOT 0) = y AND push_bit k (NOT 0) \<longleftrightarrow> drop_bit k x = drop_bit k (y :: u32)"
proof
  assume h: "x AND push_bit k (NOT 0) = y AND push_bit k (NOT 0)"
  show "drop_bit k x = drop_bit k y"
  proof (rule bit_word_eqI)
    fix n assume "n < LENGTH(32)"
    from h have "bit (x AND push_bit k (NOT 0)) (n + k) = bit (y AND push_bit k (NOT 0)) (n + k)" by simp
    then show "bit (drop_bit k x) n = bit (drop_bit k y) n"
      by (auto simp: bit_simps ac_simps dest: bit_imp_le_length)
  qed
next
  assume h: "drop_bit k x = drop_bit k y"
  show "x AND push_bit k (NOT 0) = y AND push_bit k (NOT 0)"
  proof (rule bit_word_eqI)
    fix n assume "n < LENGTH(32)"
    from h have "bit (drop_bit k x) (n - k) = bit (drop_bit k y) (n - k)" by simp
    then show "bit (x AND push_bit k (NOT 0)) n = bit (y AND push_bit k (NOT 0)) n"
      by (auto simp: bit_simps)
  qed
qed

lemma prefix_mask_push: "prefix_mask p = push_bit (32 - effective_prefix (unat p)) (NOT 0)"
proof (cases "p = 0")
  case True
  have "push_bit 32 (NOT 0 :: u32) = 0" by (rule bit_word_eqI) (auto simp: bit_simps)
  with True show ?thesis by (simp add: prefix_mask_def effective_prefix_def)
qed (simp add: prefix_mask_def shift_amount)

text \<open>An address matches an entry if the leading bits of the prefix agree.\<close>

definition same_prefix :: "nat \<Rightarrow> u32 \<Rightarrow> u32 \<Rightarrow> bool" where
  "same_prefix n x y \<longleftrightarrow> drop_bit (32 - n) x = drop_bit (32 - n) y"

lemma contains_iff:
  "CidrEntry_contains \<lparr>cidr_base = ip AND prefix_mask p, cidr_mask = prefix_mask p\<rparr> x \<longleftrightarrow>
     same_prefix (effective_prefix (unat p)) x ip"
  by (simp only: CidrEntry_contains_def cidr_entry.select_convs prefix_mask_push masked_eq_iff same_prefix_def)

section \<open>The abstract blacklist\<close>

text \<open>What a list of operations blocks, read off their texts: the specification, with
  neither masks nor a Bloom filter.\<close>

definition cidr_blocks :: "bytes \<Rightarrow> u32 \<Rightarrow> bool" where
  "cidr_blocks s x \<longleftrightarrow> (\<exists>ip_str len_str p a b c d. split_once 0x2F s = Some (ip_str, len_str) \<and>
     parse_u32 (trim len_str) = Some p \<and> parse_ipv4_addr (trim ip_str) = Some (a, b, c, d) \<and>
     same_prefix (effective_prefix (unat p)) x (u32_from_ipv4 a b c d))"

definition comment_line :: "bytes \<Rightarrow> bool" where
  "comment_line line \<longleftrightarrow> line = [] \<or> starts_with 0x3B line \<or> starts_with 0x23 line"

definition line_blocks :: "bytes \<Rightarrow> u32 \<Rightarrow> bool" where
  "line_blocks raw x \<longleftrightarrow> \<not> comment_line (trim raw) \<and>
     (if 0x2F \<in> set (trim raw) then cidr_blocks (trim raw) x
      else \<exists>a b c d. parse_ipv4_addr (trim raw) = Some (a, b, c, d) \<and> x = u32_from_ipv4 a b c d)"

datatype bl_op = AddIp u32 | AddCidr bytes | AddDomain bytes | LoadIps bytes | LoadDomains bytes

fun bl_step :: "'b bloom \<Rightarrow> (bytes \<Rightarrow> bytes) \<Rightarrow> bl_op \<Rightarrow> 'b blacklist \<Rightarrow> 'b blacklist" where
  "bl_step B lc (AddIp ip) bl = Blacklist_add_ip B ip bl"
| "bl_step B lc (AddCidr s) bl = Blacklist_add_cidr s bl"
| "bl_step B lc (AddDomain s) bl = Blacklist_add_domain lc s bl"
| "bl_step B lc (LoadIps s) bl = Blacklist_load_ip_list B s bl"
| "bl_step B lc (LoadDomains s) bl = Blacklist_load_domain_list lc s bl"

definition bl_run :: "'b bloom \<Rightarrow> (bytes \<Rightarrow> bytes) \<Rightarrow> bl_op list \<Rightarrow> 'b blacklist" where
  "bl_run B lc ops = fold (bl_step B lc) ops (Blacklist_new B)"

fun op_blocks :: "bl_op \<Rightarrow> u32 \<Rightarrow> bool" where
  "op_blocks (AddIp ip) x \<longleftrightarrow> x = ip"
| "op_blocks (AddCidr s) x \<longleftrightarrow> cidr_blocks s x"
| "op_blocks (LoadIps s) x \<longleftrightarrow> (\<exists>l \<in> set (str_lines s). line_blocks l x)"
| "op_blocks _ x \<longleftrightarrow> False"

text \<open>The domains an operation adds, as they are written.\<close>

fun op_domains :: "bl_op \<Rightarrow> bytes set" where
  "op_domains (AddDomain s) = {s}"
| "op_domains (LoadDomains s) =
     {trim l | l. l \<in> set (str_lines s) \<and> trim l \<noteq> [] \<and> \<not> starts_with 0x23 (trim l)}"
| "op_domains _ = {}"

definition normal_domain :: "(bytes \<Rightarrow> bytes) \<Rightarrow> bytes \<Rightarrow> bytes" where
  "normal_domain lc s = lc (trim_end_matches dot s)"

section \<open>Refinement\<close>

definition blocks :: "'b blacklist \<Rightarrow> u32 \<Rightarrow> bool" where
  "blocks bl x \<longleftrightarrow> x \<in> ip_exact bl \<or> (\<exists>e \<in> set (ip_cidrs bl). CidrEntry_contains e x)"

definition bloom_covers :: "'b bloom \<Rightarrow> 'b blacklist \<Rightarrow> bool" where
  "bloom_covers B bl \<longleftrightarrow> (\<forall>x \<in> ip_exact bl. bloom_check B (ip_bloom bl) x)"

lemma add_ip_blocks: "blocks (Blacklist_add_ip B ip bl) x \<longleftrightarrow> x = ip \<or> blocks bl x"
  by (auto simp: blocks_def Blacklist_add_ip_def)

lemma from_cidr_blocks:
  "cidr_blocks s x \<longleftrightarrow> (\<exists>e. CidrEntry_from_cidr s = Some e \<and> CidrEntry_contains e x)"
  by (auto simp: cidr_blocks_def CidrEntry_from_cidr_def Let_def bind_eq_Some_conv contains_iff)

lemma add_cidr_blocks: "blocks (Blacklist_add_cidr s bl) x \<longleftrightarrow> cidr_blocks s x \<or> blocks bl x"
  by (auto simp: blocks_def Blacklist_add_cidr_def from_cidr_blocks split: option.split)

lemma line_step_blocks: "blocks (load_ip_line B l bl) x \<longleftrightarrow> line_blocks l x \<or> blocks bl x"
  by (auto simp: load_ip_line_def Let_def line_blocks_def comment_line_def add_cidr_blocks add_ip_blocks
        split: option.split)

lemma load_blocks:
  "blocks (fold (load_ip_line B) ls bl) x \<longleftrightarrow> (\<exists>l \<in> set ls. line_blocks l x) \<or> blocks bl x"
  by (induction ls arbitrary: bl) (auto simp: line_step_blocks)

lemma domain_line_frame:
  "blocks (fold (load_domain_line lc) ls bl) x \<longleftrightarrow> blocks bl x"
  "bloom_covers B (fold (load_domain_line lc) ls bl) \<longleftrightarrow> bloom_covers B bl"
  by (induction ls arbitrary: bl)
    (auto simp: load_domain_line_def Blacklist_add_domain_def blocks_def bloom_covers_def Let_def)

lemma step_blocks: "blocks (bl_step B lc op bl) x \<longleftrightarrow> op_blocks op x \<or> blocks bl x"
  by (cases op)
    (auto simp: add_ip_blocks add_cidr_blocks load_blocks Blacklist_load_ip_list_def
       Blacklist_load_domain_list_def domain_line_frame Blacklist_add_domain_def, auto simp: blocks_def)

lemma add_ip_covers: "bloom_ok B \<Longrightarrow> bloom_covers B bl \<Longrightarrow> bloom_covers B (Blacklist_add_ip B ip bl)"
  by (auto simp: bloom_covers_def Blacklist_add_ip_def bloom_ok_def)

lemma add_cidr_covers: "bloom_covers B bl \<Longrightarrow> bloom_covers B (Blacklist_add_cidr s bl)"
  by (auto simp: bloom_covers_def Blacklist_add_cidr_def split: option.split)

lemma load_line_covers: "bloom_ok B \<Longrightarrow> bloom_covers B bl \<Longrightarrow> bloom_covers B (load_ip_line B l bl)"
  by (auto simp: load_ip_line_def Let_def add_ip_covers add_cidr_covers split: option.split)

lemma load_covers: "bloom_ok B \<Longrightarrow> bloom_covers B bl \<Longrightarrow> bloom_covers B (fold (load_ip_line B) ls bl)"
  by (induction ls arbitrary: bl) (auto simp: load_line_covers)

lemma step_covers: "bloom_ok B \<Longrightarrow> bloom_covers B bl \<Longrightarrow> bloom_covers B (bl_step B lc op bl)"
  by (cases op)
    (auto simp: add_ip_covers add_cidr_covers load_covers Blacklist_load_ip_list_def
       Blacklist_load_domain_list_def domain_line_frame Blacklist_add_domain_def, auto simp: bloom_covers_def)

lemma bl_run_refines:
  "bloom_ok B \<Longrightarrow> bloom_covers B bl \<Longrightarrow>
     bloom_covers B (fold (bl_step B lc) ops bl) \<and>
     (blocks (fold (bl_step B lc) ops bl) x \<longleftrightarrow> (\<exists>op \<in> set ops. op_blocks op x) \<or> blocks bl x)"
  by (induction ops arbitrary: bl) (auto simp: step_covers step_blocks)

lemma check_ip_blocks:
  "bloom_covers B bl \<Longrightarrow> Blacklist_check_ip B (V4 a b c d) bl \<noteq> None \<longleftrightarrow> blocks bl (u32_from_ipv4 a b c d)"
  by (auto simp: Let_def bloom_covers_def blocks_def list_ex_iff)

lemma domain_step:
  "domains (bl_step B lc op bl) = normal_domain lc ` op_domains op \<union> domains bl"
proof -
  have load: "domains (fold (load_ip_line B) ls bl) = domains bl" for ls
    by (induction ls arbitrary: bl)
      (auto simp: load_ip_line_def Let_def Blacklist_add_cidr_def Blacklist_add_ip_def split: option.split)
  have "domains (fold (load_domain_line lc) ls bl) =
      normal_domain lc ` {trim l | l. l \<in> set ls \<and> trim l \<noteq> [] \<and> \<not> starts_with 0x23 (trim l)} \<union> domains bl" for ls
    by (induction ls arbitrary: bl)
      (auto simp: load_domain_line_def Let_def Blacklist_add_domain_def normal_domain_def)
  with load show ?thesis
    by (cases op)
      (auto simp: Blacklist_add_ip_def Blacklist_add_cidr_def Blacklist_add_domain_def normal_domain_def
         Blacklist_load_ip_list_def Blacklist_load_domain_list_def split: option.split)
qed

lemma domain_run:
  "domains (fold (bl_step B lc) ops bl) = (\<Union>op \<in> set ops. normal_domain lc ` op_domains op) \<union> domains bl"
  by (induction ops arbitrary: bl) (auto simp: domain_step)

text \<open>Together: what any list of operations makes the two checks answer.\<close>

lemma blacklist_ip_run:
  assumes "bloom_ok B"
  shows "Blacklist_check_ip B (V4 a b c d) (bl_run B lc ops) \<noteq> None \<longleftrightarrow>
     (\<exists>op \<in> set ops. op_blocks op (u32_from_ipv4 a b c d))"
proof -
  have "bloom_covers B (Blacklist_new B)" "\<not> blocks (Blacklist_new B) (u32_from_ipv4 a b c d)"
    by (simp_all add: bloom_covers_def blocks_def Blacklist_new_def)
  with bl_run_refines [OF assms] check_ip_blocks show ?thesis unfolding bl_run_def by blast
qed

lemma blacklist_domain_run:
  "Blacklist_check_domain lc name (bl_run B lc ops) \<noteq> None \<longleftrightarrow>
     (\<exists>op \<in> set ops. \<exists>s \<in> op_domains op. normal_domain lc s = normal_domain lc name)"
proof -
  have "domains (Blacklist_new B) = {}" by (simp add: Blacklist_new_def)
  then have "domains (bl_run B lc ops) = (\<Union>op \<in> set ops. normal_domain lc ` op_domains op)"
    by (simp add: bl_run_def domain_run)
  moreover have "Blacklist_check_domain lc name bl \<noteq> None \<longleftrightarrow> normal_domain lc name \<in> domains bl" for bl :: "'a blacklist"
    by (simp add: Blacklist_check_domain_def Let_def normal_domain_def)
  ultimately show ?thesis by (simp only: UN_iff image_iff) metis
qed

section \<open>Texts of address lists\<close>

lemma octet_of_u32:
  "ucast (drop_bit 24 (u32_from_ipv4 a b c d)) = a" "ucast (drop_bit 16 (u32_from_ipv4 a b c d)) = b"
  "ucast (drop_bit 8 (u32_from_ipv4 a b c d)) = c" "ucast (u32_from_ipv4 a b c d) = d"
  by (rule bit_word_eqI, auto simp: bit_simps dest: bit_imp_le_length)+

lemma u32_from_ipv4_inj:
  "u32_from_ipv4 a b c d = u32_from_ipv4 a' b' c' d' \<longleftrightarrow> a = a' \<and> b = b' \<and> c = c' \<and> d = d'"
  using octet_of_u32 [of a b c d] octet_of_u32 [of a' b' c' d'] by metis

definition numeric :: "bytes \<Rightarrow> bool" where
  "numeric s \<longleftrightarrow> s \<noteq> [] \<and> (\<forall>x \<in> set s. x = dot \<or> 0x30 \<le> x \<and> x \<le> 0x39)"

lemma show_nat_nonempty: "show_nat n \<noteq> []"
  by (simp add: show_nat.simps [of n])

lemma ipv4_numeric: "numeric (ipv4_to_string a b c d)"
  using show_nat_digits show_nat_nonempty by (fastforce simp: numeric_def ipv4_to_string_def)

lemma numeric_not:
  "numeric s \<Longrightarrow> x \<in> set s \<Longrightarrow> x \<noteq> 0x0A \<and> x \<noteq> 0x0D \<and> x \<noteq> 0x2F \<and> x \<noteq> 0x3B \<and> x \<noteq> 0x23 \<and> x \<noteq> 0x20 \<and> x < 0x3A \<and> 0x2E \<le> x"
  by (auto simp: numeric_def word_le_nat_alt word_less_nat_alt)

lemma trim_numeric: "numeric s \<Longrightarrow> trim s = s"
proof -
  assume s: "numeric s"
  have far: "x \<notin> set s" if "x < 0x2E \<or> 0x3A \<le> x" for x
    using numeric_not [OF s, of x] that by auto
  have "strip_pats white_space s = s"
    by (rule strip_pats_none) (simp add: white_space_def far)
  moreover have "strip_pats (map rev white_space) (rev s) = rev s"
    by (rule strip_pats_none) (simp add: white_space_def far)
  ultimately show ?thesis by (simp add: trim_def)
qed

lemma str_lines_join:
  assumes "ws \<noteq> []" and "\<forall>w \<in> set ws. numeric w"
  shows "str_lines (join [0x0A] ws) = ws"
proof -
  have "split_on 0x0A (join [0x0A] ws) = ws"
    by (rule split_join [OF assms(1)]) (use assms(2) numeric_not in blast)
  moreover have "strip_cr w = w" if "w \<in> set ws" for w
  proof -
    have w: "numeric w" using that assms(2) by blast
    then have "last w \<in> set w" by (intro last_in_set) (simp add: numeric_def)
    then have "last w \<noteq> 0x0D" using numeric_not [OF w] by blast
    then show ?thesis by (simp add: strip_cr_def)
  qed
  then have "map strip_cr (butlast ws) = butlast ws"
    by (intro map_idI) (meson in_set_butlastD)
  moreover have "last ws \<noteq> []" using assms by (auto simp: numeric_def)
  ultimately show ?thesis using assms(1) by (simp add: str_lines_def Let_def)
qed

fun addr_text :: "u8 \<times> u8 \<times> u8 \<times> u8 \<Rightarrow> bytes" where
  "addr_text (a, b, c, d) = ipv4_to_string a b c d"

lemma addr_line_blocks:
  "line_blocks (addr_text q) (u32_from_ipv4 a b c d) \<longleftrightarrow> q = (a, b, c, d)"
proof -
  obtain a' b' c' d' where q: "q = (a', b', c', d')" by (cases q)
  have num: "numeric (addr_text q)" by (simp add: q ipv4_numeric)
  then have t: "trim (addr_text q) = addr_text q" by (rule trim_numeric)
  have "\<not> comment_line (addr_text q)"
    using num numeric_not [OF num] by (auto simp: comment_line_def starts_with_def numeric_def split: list.split_asm)
  moreover have "0x2F \<notin> set (addr_text q)" using numeric_not [OF num] by blast
  moreover have "parse_ipv4_addr (addr_text q) = Some (a', b', c', d')"
    by (simp add: q parse_ipv4_to_string)
  ultimately show ?thesis
    unfolding line_blocks_def t by (auto simp: q u32_from_ipv4_inj simp del: u32_from_ipv4.simps addr_text.simps)
qed

definition cidr_text :: "u8 \<Rightarrow> u8 \<Rightarrow> u8 \<Rightarrow> u8 \<Rightarrow> nat \<Rightarrow> bytes" where
  "cidr_text a b c d p = ipv4_to_string a b c d @ 0x2F # show_nat p"

lemma show_nat_numeric: "numeric (show_nat n)"
  using show_nat_digits show_nat_nonempty by (auto simp: numeric_def)

lemma parse_u32_show:
  assumes "p < 2 ^ 32" shows "parse_u32 (show_nat p) = Some (of_nat p)"
proof -
  obtain x xs where x: "show_nat p = x # xs" using show_nat_nonempty by (cases "show_nat p") auto
  then have "x \<noteq> 0x2B" using numeric_not [OF show_nat_numeric, of x p] by auto
  with x parse_show_nat [of p "2 ^ 32 - 1"] assms show ?thesis by (simp add: parse_u32_def)
qed

lemma split_once_text: "c \<notin> set u \<Longrightarrow> split_once c (u @ c # v) = Some (u, v)"
  by (induction u) (auto simp: split_once_def)

lemma from_cidr_text:
  assumes "p < 2 ^ 32"
  shows "CidrEntry_from_cidr (cidr_text a b c d p) =
     Some \<lparr>cidr_base = u32_from_ipv4 a b c d AND prefix_mask (of_nat p), cidr_mask = prefix_mask (of_nat p)\<rparr>"
proof -
  have "0x2F \<notin> set (ipv4_to_string a b c d)" using numeric_not [OF ipv4_numeric] by blast
  then show ?thesis
    by (simp add: CidrEntry_from_cidr_def cidr_text_def split_once_text trim_numeric ipv4_numeric
        show_nat_numeric parse_u32_show [OF assms] parse_ipv4_to_string Let_def del: u32_from_ipv4.simps)
qed

lemma cidr_text_contains:
  assumes "p < 2 ^ 32"
  shows "\<exists>e. CidrEntry_from_cidr (cidr_text a b c d p) = Some e \<and>
     (\<forall>x. CidrEntry_contains e x \<longleftrightarrow> same_prefix (effective_prefix p) x (u32_from_ipv4 a b c d))"
proof -
  have "unat (of_nat p :: u32) = p" using assms by (simp add: unat_of_nat take_bit_nat_eq_self)
  then show ?thesis using contains_iff [of "u32_from_ipv4 a b c d" "of_nat p"] by (simp add: from_cidr_text [OF assms])
qed

lemma load_exact:
  assumes "bloom_ok B" and "addrs \<noteq> []"
  shows "Blacklist_check_ip B (V4 a b c d)
       (Blacklist_load_ip_list B (join [0x0A] (map addr_text addrs)) (Blacklist_new B)) \<noteq> None \<longleftrightarrow>
     (a, b, c, d) \<in> set addrs"
proof -
  let ?c = "join [0x0A] (map addr_text addrs)"
  have "bloom_covers B (Blacklist_new B)" by (simp add: bloom_covers_def Blacklist_new_def)
  from check_ip_blocks [OF load_covers [OF assms(1) this]]
  have "Blacklist_check_ip B (V4 a b c d) (Blacklist_load_ip_list B ?c (Blacklist_new B)) \<noteq> None \<longleftrightarrow>
      (\<exists>l \<in> set (str_lines ?c). line_blocks l (u32_from_ipv4 a b c d))"
    by (simp only: Blacklist_load_ip_list_def load_blocks) (simp add: blocks_def Blacklist_new_def)
  also have "str_lines ?c = map addr_text addrs"
    using assms(2) ipv4_numeric by (intro str_lines_join) auto
  also have "(\<exists>l \<in> set (map addr_text addrs). line_blocks l (u32_from_ipv4 a b c d)) \<longleftrightarrow> (a, b, c, d) \<in> set addrs"
    using addr_line_blocks [of _ a b c d] by (simp del: u32_from_ipv4.simps addr_text.simps)
  finally show ?thesis .
qed

section \<open>Properties\<close>

text \<open>C18 (refinement). The address blacklist is exact: whatever mixture of additions and list loads
  built it, an IPv4 address is reported exactly if some operation listed it, as an address or by
  a CIDR range whose leading bits it shares.  A Bloom filter without false negatives never hides
  an address, and its false positives never add one.\<close>

theorem blacklist_ip_exact:
  assumes "bloom_ok B"
  shows "Blacklist_check_ip B (V4 a b c d) (bl_run B lc ops) \<noteq> None \<longleftrightarrow>
     (\<exists>op \<in> set ops. op_blocks op (u32_from_ipv4 a b c d))"
  using assms by (rule blacklist_ip_run)

theorem blacklist_ip_exact_witness:
  "Blacklist_check_ip low_byte_bloom (V4 10 1 2 3) (bl_run low_byte_bloom id [AddIp 5, AddCidr (cidr_text 10 0 0 0 8)]) \<noteq> None \<and>
   Blacklist_check_ip low_byte_bloom (V4 11 1 2 5) (bl_run low_byte_bloom id [AddIp 5, AddCidr (cidr_text 10 0 0 0 8)]) = None"
proof -
  obtain e where e: "CidrEntry_from_cidr (cidr_text 10 0 0 0 8) = Some e"
      "\<And>x. CidrEntry_contains e x \<longleftrightarrow> same_prefix (effective_prefix 8) x (u32_from_ipv4 10 0 0 0)"
    using cidr_text_contains [of 8 10 0 0 0] by auto
  have range: "cidr_blocks (cidr_text 10 0 0 0 8) x \<longleftrightarrow> drop_bit 24 x = 10" for x
    by (simp add: from_cidr_blocks e same_prefix_def effective_prefix_def)
  have other: "u32_from_ipv4 11 1 2 5 \<noteq> 5" "drop_bit 24 (u32_from_ipv4 10 1 2 3) = 10"
    "drop_bit 24 (u32_from_ipv4 11 1 2 5) \<noteq> 10"
    by simp_all
  show ?thesis
    using blacklist_ip_exact [OF low_byte_bloom_ok, of 10 1 2 3 id "[AddIp 5, AddCidr (cidr_text 10 0 0 0 8)]"]
      blacklist_ip_exact [OF low_byte_bloom_ok, of 11 1 2 5 id "[AddIp 5, AddCidr (cidr_text 10 0 0 0 8)]"]
      other
    by (simp add: range del: u32_from_ipv4.simps Blacklist_check_ip.simps)
qed

text \<open>A list of addresses written one per line in dotted form and loaded with
  \<open>load_ip_list\<close> blocks exactly these addresses.\<close>

theorem blacklist_load_roundtrip:
  assumes "bloom_ok B" and "addrs \<noteq> []"
  shows "Blacklist_check_ip B (V4 a b c d)
       (Blacklist_load_ip_list B (join [0x0A] (map addr_text addrs)) (Blacklist_new B)) \<noteq> None \<longleftrightarrow>
     (a, b, c, d) \<in> set addrs"
  using assms by (rule load_exact)

theorem blacklist_load_roundtrip_witness:
  "Blacklist_check_ip low_byte_bloom (V4 10 0 0 2)
     (Blacklist_load_ip_list low_byte_bloom (join [0x0A] (map addr_text [(10, 0, 0, 1), (10, 0, 0, 2)]))
        (Blacklist_new low_byte_bloom)) \<noteq> None"
  by (subst blacklist_load_roundtrip [OF low_byte_bloom_ok]) simp_all

text \<open>C31 (functional). Domains match exactly up to case and trailing dots: a name is reported
  if and only if some operation listed a name with the same normal form.  There is no suffix
  matching: a subdomain of a listed domain is reported only if it is listed itself.\<close>

theorem blacklist_domain_exact:
  "Blacklist_check_domain lc name (bl_run B lc ops) \<noteq> None \<longleftrightarrow>
     (\<exists>op \<in> set ops. \<exists>s \<in> op_domains op. normal_domain lc s = normal_domain lc name)"
  by (rule blacklist_domain_run)

text \<open>C32 (bounds). What a CIDR text means: the range \<open>a.b.c.d/p\<close> is accepted for every \<open>p\<close> that fits
  in 32 bits and contains the addresses that share its first \<open>p\<close> bits, for \<open>p\<close> up to 32.  A
  longer prefix is not rejected: the shift amount wraps, so 33 acts as 1 and 40 as 8.\<close>

theorem cidr_text_semantics:
  assumes "p < 2 ^ 32"
  shows "\<exists>e. CidrEntry_from_cidr (cidr_text a b c d p) = Some e \<and>
     (\<forall>x. CidrEntry_contains e x \<longleftrightarrow>
        same_prefix (if p \<le> 32 then p else (p - 1) mod 32 + 1) x (u32_from_ipv4 a b c d))"
  using cidr_text_contains [OF assms, of a b c d] effective_prefix_id [of p]
  by (auto simp: effective_prefix_def split: if_splits)

theorem cidr_text_semantics_witness:
  "\<exists>e. CidrEntry_from_cidr (cidr_text 10 0 0 0 33) = Some e \<and> CidrEntry_contains e (u32_from_ipv4 99 1 2 3)"
proof -
  have "same_prefix 1 (u32_from_ipv4 99 1 2 3) (u32_from_ipv4 10 0 0 0)" by (simp add: same_prefix_def)
  with cidr_text_semantics [of 33 10 0 0 0] show ?thesis by (auto simp del: u32_from_ipv4.simps)
qed

end
