(* ===== verification/Payload.thy ===== *)
theory Payload
  imports Score RustStr
begin

text \<open>
  Signature scanning of \<open>ids/payload.rs\<close>.  The Aho-Corasick automaton is a library: \<open>find\<close>
  and \<open>find_iter\<close> are parameters that take the patterns and a text and give matches, each a
  pattern index and a start offset.  \<open>ac_ok\<close> states their documented behaviour for a
  case-insensitive build: a match is an occurrence, and a text with an occurrence has a
  match.  Indexing the rule table with a match may panic and is a value of the model.
\<close>

section \<open>Operations\<close>

record ac_api =
  ac_find :: "bytes list \<Rightarrow> bytes \<Rightarrow> (usize \<times> usize) option"
  ac_find_iter :: "bytes list \<Rightarrow> bytes \<Rightarrow> (usize \<times> usize) list"

record payload_rule =
  pr_name :: string
  pr_score :: rat

record payload_scanner =
  patterns :: "bytes list"
  rules :: "payload_rule list"

definition SIGNATURES :: "(bytes \<times> string \<times> rat) list" where
  "SIGNATURES =
    [([0x90, 0x90, 0x90, 0x90, 0x90, 0x90, 0x90, 0x90], ''nop_sled'', SCORE_PAYLOAD_SIG),
     ([0xEB, 0xFE], ''infinite_jmp_loop'', SCORE_PAYLOAD_SIG),
     (str ''MSFV'', ''metasploit_payload_marker'', SCORE_PAYLOAD_SIG),
     (str ''${jndi:'', ''log4shell_jndi'', SCORE_PAYLOAD_SIG),
     (str ''eval(base64_decode'', ''php_webshell_eval_b64'', SCORE_PAYLOAD_SIG),
     (str ''passthru('', ''php_passthru'', SCORE_PAYLOAD_SIG),
     (str ''cmd.exe /c'', ''cmd_exec'', SCORE_PAYLOAD_SIG),
     (str ''/bin/sh -i'', ''reverse_shell_sh'', SCORE_PAYLOAD_SIG),
     (str ''Content-Type: application/octet-stream'' @ [0x0D, 0x0A, 0x0D, 0x0A] @ str ''MZ'',
      ''cs_beacon_mz'', SCORE_PAYLOAD_SIG),
     (str ''sekurlsa::logonpasswords'', ''mimikatz_sekurlsa'', SCORE_PAYLOAD_SIG),
     (str ''lsadump::sam'', ''mimikatz_lsadump'', SCORE_PAYLOAD_SIG),
     ([0x27] @ str '' OR '' @ [0x27] @ str ''1'' @ [0x27] @ str ''='' @ [0x27] @ str ''1'',
      ''sqli_or_1eq1'', 35),
     (str ''UNION SELECT'', ''sqli_union_select'', 35),
     (str ''../../etc/passwd'', ''path_traversal_passwd'', 40),
     (str ''169.254.169.254'', ''ssrf_aws_metadata'', 40)]"

definition PayloadScanner_new :: payload_scanner where
  "PayloadScanner_new =
     \<lparr>patterns = map (\<lambda>(pat, _, _). pat) SIGNATURES,
      rules = map (\<lambda>(_, name, score). \<lparr>pr_name = name, pr_score = score\<rparr>) SIGNATURES\<rparr>"

definition payload_signal :: "payload_rule \<Rightarrow> usize \<Rightarrow> signal" where
  "payload_signal rule start =
     \<lparr>sig_name = pr_name rule, sig_score = pr_score rule,
      sig_detail = fmt ''Payload signature '{}' matched at offset {}'' [FStr (str (pr_name rule)), FNat start]\<rparr>"

definition PayloadScanner_scan :: "ac_api \<Rightarrow> bytes \<Rightarrow> payload_scanner \<Rightarrow> signal option panics" where
  "PayloadScanner_scan ac payload ps =
     (case ac_find ac (patterns ps) payload of
        None \<Rightarrow> Some None
      | Some (p, start) \<Rightarrow> do { rule \<leftarrow> idx (rules ps) p; Some (Some (payload_signal rule start)) })"

fun scan_matches :: "payload_rule list \<Rightarrow> string set \<Rightarrow> (usize \<times> usize) list \<Rightarrow> signal list panics" where
  "scan_matches rs seen [] = Some []"
| "scan_matches rs seen ((p, start) # ms) = do {
     rule \<leftarrow> idx rs p;
     if pr_name rule \<notin> seen then do {
       rest \<leftarrow> scan_matches rs (insert (pr_name rule) seen) ms;
       Some (payload_signal rule start # rest)
     } else scan_matches rs seen ms
   }"

definition PayloadScanner_scan_all :: "ac_api \<Rightarrow> bytes \<Rightarrow> payload_scanner \<Rightarrow> signal list panics" where
  "PayloadScanner_scan_all ac payload ps =
     scan_matches (rules ps) {} (ac_find_iter ac (patterns ps) payload)"

section \<open>The matcher\<close>

definition occurs_at :: "bytes \<Rightarrow> usize \<Rightarrow> bytes \<Rightarrow> bool" where
  "occurs_at pat i s \<longleftrightarrow> i + length pat \<le> length s \<and>
     map ascii_lower (take (length pat) (drop i s)) = map ascii_lower pat"

definition match_of :: "bytes list \<Rightarrow> bytes \<Rightarrow> usize \<times> usize \<Rightarrow> bool" where
  "match_of pats s m \<longleftrightarrow> fst m < length pats \<and> occurs_at (pats ! fst m) (snd m) s"

definition ac_ok :: "ac_api \<Rightarrow> bool" where
  "ac_ok ac \<longleftrightarrow> (\<forall>pats s.
     (\<forall>m \<in> set (ac_find_iter ac pats s). match_of pats s m) \<and>
     ((\<exists>m. match_of pats s m) \<longrightarrow> ac_find_iter ac pats s \<noteq> []) \<and>
     (\<forall>m. ac_find ac pats s = Some m \<longrightarrow> match_of pats s m) \<and>
     ((\<exists>m. match_of pats s m) \<longrightarrow> ac_find ac pats s \<noteq> None))"

text \<open>A direct search that meets it: at each offset the patterns in their order, and after a match
  the search goes on behind it.\<close>

fun first_at :: "bytes list \<Rightarrow> usize \<Rightarrow> bytes \<Rightarrow> usize option" where
  "first_at pats i s = find (\<lambda>p. occurs_at (pats ! p) i s) [0..<length pats]"

fun search :: "bytes list \<Rightarrow> bytes \<Rightarrow> usize list \<Rightarrow> usize \<Rightarrow> (usize \<times> usize) list" where
  "search pats s [] bound = []"
| "search pats s (i # is) bound =
     (case (if bound \<le> i then first_at pats i s else None) of
        None \<Rightarrow> search pats s is bound
      | Some p \<Rightarrow> (p, i) # search pats s is (i + max 1 (length (pats ! p))))"

definition naive_ac :: ac_api where
  "naive_ac =
     \<lparr>ac_find = (\<lambda>pats s. case search pats s [0..<Suc (length s)] 0 of [] \<Rightarrow> None | m # _ \<Rightarrow> Some m),
      ac_find_iter = (\<lambda>pats s. search pats s [0..<Suc (length s)] 0)\<rparr>"

lemma first_at_match: "first_at pats i s = Some p \<Longrightarrow> match_of pats s (p, i)"
  by (auto simp: match_of_def find_Some_iff)

lemma search_sound: "m \<in> set (search pats s is b) \<Longrightarrow> match_of pats s m"
  by (induction pats s "is" b rule: search.induct)
    (auto split: option.splits if_splits dest: first_at_match simp del: first_at.simps)

lemma search_complete:
  "match_of pats s (p, i) \<Longrightarrow> i \<in> set is \<Longrightarrow> search pats s is 0 \<noteq> []"
proof (induction "is")
  case (Cons j "is")
  show ?case
  proof (cases "first_at pats j s")
    case None
    then have "i \<noteq> j" using Cons.prems(1) by (auto simp: find_None_iff match_of_def)
    with Cons None show ?thesis by (simp del: first_at.simps)
  qed (simp del: first_at.simps)
qed simp

lemma naive_ac_ok: "ac_ok naive_ac"
proof -
  have ne: "search pats s [0..<Suc (length s)] 0 \<noteq> []" if "match_of pats s m" for pats s m
  proof -
    obtain p i where m: "m = (p, i)" by (cases m)
    with that have "i \<in> set [0..<Suc (length s)]" by (auto simp: match_of_def occurs_at_def)
    with search_complete that m show ?thesis by blast
  qed
  have hd: "match_of pats s m" if "(case search pats s [0..<Suc (length s)] 0 of [] \<Rightarrow> None | m # _ \<Rightarrow> Some m) = Some m" for pats s m
    using that search_sound [of m pats s "[0..<Suc (length s)]" 0] by (auto split: list.splits)
  show ?thesis
    unfolding ac_ok_def naive_ac_def ac_api.select_convs
    using ne hd search_sound by (fastforce split: list.split)
qed

section \<open>Scanning\<close>

definition rule_at :: "payload_rule list \<Rightarrow> usize \<times> usize \<Rightarrow> signal" where
  "rule_at rs m = payload_signal (rs ! fst m) (snd m)"

lemma sig_name_rule_at [simp]: "sig_name (rule_at rs m) = pr_name (rs ! fst m)"
  by (simp add: rule_at_def payload_signal_def)

lemma scan_matches_total:
  assumes "\<forall>m \<in> set ms. fst m < length rs"
  shows "\<exists>sigs. scan_matches rs seen ms = Some sigs \<and>
     set sigs \<subseteq> rule_at rs ` set ms \<and> distinct (map sig_name sigs) \<and>
     set (map sig_name sigs) = (\<lambda>m. pr_name (rs ! fst m)) ` set ms - seen"
  using assms
proof (induction rs seen ms rule: scan_matches.induct)
  case (2 rs seen p start ms)
  let ?n = "pr_name (rs ! p)"
  have p: "idx rs p = Some (rs ! p)" using 2(3) by (simp add: idx_Some)
  show ?case
  proof (cases "?n \<in> seen")
    case True
    with 2(2) [OF p] 2(3) obtain sigs where s: "scan_matches rs seen ms = Some sigs"
      "set sigs \<subseteq> rule_at rs ` set ms" "distinct (map sig_name sigs)"
      "set (map sig_name sigs) = (\<lambda>m. pr_name (rs ! fst m)) ` set ms - seen" by auto
    with True p show ?thesis by (intro exI [of _ sigs]) auto
  next
    case False
    with 2(1) [OF p] 2(3) obtain sigs where s: "scan_matches rs (insert ?n seen) ms = Some sigs"
      "set sigs \<subseteq> rule_at rs ` set ms" "distinct (map sig_name sigs)"
      "set (map sig_name sigs) = (\<lambda>m. pr_name (rs ! fst m)) ` set ms - insert ?n seen" by auto
    let ?s = "payload_signal (rs ! p) start"
    have "?s = rule_at rs (p, start)" "sig_name ?s = ?n" by (simp_all add: rule_at_def payload_signal_def)
    with s False p show ?thesis by (intro exI [of _ "?s # sigs"]) auto
  qed
qed simp

lemma rules_patterns: "length (rules PayloadScanner_new) = length (patterns PayloadScanner_new)"
  by (simp add: PayloadScanner_new_def)

lemma new_rule:
  "p < length SIGNATURES \<Longrightarrow> rules PayloadScanner_new ! p =
     \<lparr>pr_name = fst (snd (SIGNATURES ! p)), pr_score = snd (snd (SIGNATURES ! p))\<rparr>"
  by (simp add: PayloadScanner_new_def split_beta)

lemma new_pattern: "p < length SIGNATURES \<Longrightarrow> patterns PayloadScanner_new ! p = fst (SIGNATURES ! p)"
  by (simp add: PayloadScanner_new_def split_beta)

lemma length_patterns: "length (patterns PayloadScanner_new) = length SIGNATURES"
  by (simp add: PayloadScanner_new_def)

lemma scan_all_total:
  assumes "ac_ok ac"
  obtains sigs where "PayloadScanner_scan_all ac payload PayloadScanner_new = Some sigs"
    and "set sigs \<subseteq> rule_at (rules PayloadScanner_new) ` set (ac_find_iter ac (patterns PayloadScanner_new) payload)"
    and "distinct (map sig_name sigs)"
    and "set (map sig_name sigs) = (\<lambda>m. pr_name (rules PayloadScanner_new ! fst m)) `
       set (ac_find_iter ac (patterns PayloadScanner_new) payload)"
proof -
  have "\<forall>m \<in> set (ac_find_iter ac (patterns PayloadScanner_new) payload). fst m < length (rules PayloadScanner_new)"
    using assms by (simp add: ac_ok_def match_of_def rules_patterns)
  from scan_matches_total [OF this, of "{}"] that show ?thesis
    unfolding PayloadScanner_scan_all_def by auto
qed

section \<open>Properties\<close>

text \<open>A signal that reports an occurrence of a signature.\<close>

definition reports :: "bytes \<Rightarrow> signal \<Rightarrow> bool" where
  "reports payload s \<longleftrightarrow> (\<exists>(pat, name, score) \<in> set SIGNATURES. \<exists>i. occurs_at pat i payload \<and>
     s = \<lparr>sig_name = name, sig_score = score,
          sig_detail = fmt ''Payload signature '{}' matched at offset {}'' [FStr (str name), FNat i]\<rparr>)"

lemma rule_at_reports:
  assumes "match_of (patterns PayloadScanner_new) payload m"
  shows "reports payload (rule_at (rules PayloadScanner_new) m)"
proof -
  have p: "fst m < length SIGNATURES" using assms by (simp add: match_of_def length_patterns)
  then have "SIGNATURES ! fst m \<in> set SIGNATURES" by simp
  moreover have "occurs_at (fst (SIGNATURES ! fst m)) (snd m) payload"
    using assms p by (simp add: match_of_def new_pattern)
  ultimately show ?thesis
    unfolding reports_def by (intro bexI [of _ "SIGNATURES ! fst m"])
      (auto simp: split_beta rule_at_def payload_signal_def new_rule [OF p])
qed

lemma scan_all_reports:
  assumes "ac_ok ac" and "PayloadScanner_scan_all ac payload PayloadScanner_new = Some sigs" and "s \<in> set sigs"
  shows "reports payload s"
proof -
  let ?ms = "ac_find_iter ac (patterns PayloadScanner_new) payload"
  obtain sigs' where "PayloadScanner_scan_all ac payload PayloadScanner_new = Some sigs'"
    "set sigs' \<subseteq> rule_at (rules PayloadScanner_new) ` set ?ms"
    by (rule scan_all_total [OF assms(1)])
  with assms(2,3) obtain m where "m \<in> set ?ms" "s = rule_at (rules PayloadScanner_new) m" by auto
  moreover from this have "match_of (patterns PayloadScanner_new) payload m" using assms(1) by (simp add: ac_ok_def)
  ultimately show ?thesis using rule_at_reports by simp
qed

text \<open>What a scan reports.\<close>

lemma scan_all_exact:
  assumes "ac_ok ac"
  shows "\<exists>sigs. PayloadScanner_scan_all ac payload PayloadScanner_new = Some sigs \<and>
     (\<forall>s \<in> set sigs. reports payload s) \<and> distinct (map sig_name sigs) \<and>
     (sigs = [] \<longleftrightarrow> (\<forall>(pat, _, _) \<in> set SIGNATURES. \<forall>i. \<not> occurs_at pat i payload))"
proof -
  let ?P = "patterns PayloadScanner_new"
  obtain sigs where s: "PayloadScanner_scan_all ac payload PayloadScanner_new = Some sigs"
    "set sigs \<subseteq> rule_at (rules PayloadScanner_new) ` set (ac_find_iter ac ?P payload)"
    "distinct (map sig_name sigs)"
    "set (map sig_name sigs) = (\<lambda>m. pr_name (rules PayloadScanner_new ! fst m)) ` set (ac_find_iter ac ?P payload)"
    by (rule scan_all_total [OF assms])
  have sound: "\<forall>m \<in> set (ac_find_iter ac ?P payload). match_of ?P payload m"
    using assms by (simp add: ac_ok_def)
  have "sigs = [] \<longleftrightarrow> ac_find_iter ac ?P payload = []" using s(4) by auto
  also have "\<dots> \<longleftrightarrow> (\<forall>m. \<not> match_of ?P payload m)"
    using assms sound by (metis ac_ok_def list.set_intros(1) neq_Nil_conv)
  also have "\<dots> \<longleftrightarrow> (\<forall>(pat, _, _) \<in> set SIGNATURES. \<forall>i. \<not> occurs_at pat i payload)"
    by (force simp: match_of_def length_patterns new_pattern in_set_conv_nth split_beta)
  finally show ?thesis using s rule_at_reports sound by (intro exI [of _ sigs]) auto
qed

text \<open>C29 (functional). Payload scanning is sound and complete: it never panics, every signal reports
  an occurrence of its signature (up to ASCII case) at the offset it names, with the signature's
  score, no rule is reported twice, and nothing is reported exactly if no signature occurs.\<close>

theorem payload_scan_correct:
  assumes "ac_ok ac"
  shows "\<exists>sigs. PayloadScanner_scan_all ac payload PayloadScanner_new = Some sigs \<and>
     (\<forall>s \<in> set sigs. reports payload s) \<and> distinct (map sig_name sigs) \<and>
     (sigs = [] \<longleftrightarrow> (\<forall>(pat, _, _) \<in> set SIGNATURES. \<forall>i. \<not> occurs_at pat i payload))"
  by (rule scan_all_exact [OF assms])

theorem payload_scan_correct_witness:
  "\<exists>sigs. PayloadScanner_scan_all naive_ac (str ''GET /?q=union select'') PayloadScanner_new = Some sigs \<and> sigs \<noteq> []"
proof -
  have "(str ''UNION SELECT'', ''sqli_union_select'', 35) \<in> set SIGNATURES" by (simp add: SIGNATURES_def)
  moreover have "occurs_at (str ''UNION SELECT'') 8 (str ''GET /?q=union select'')" by code_simp
  ultimately show ?thesis
    using payload_scan_correct [OF naive_ac_ok, of "str ''GET /?q=union select''"] by fast
qed

end
