(* ===== verification/Dns.thy ===== *)
theory Dns
  imports Score RustStr
begin

unbundle bit_operations_syntax

text \<open>
  DNS anomaly detection, \<open>ids/dns.rs\<close>: the query name of a wire-format payload, the checks
  on a name and the response-size heuristic.  Reads of the payload may panic and are values
  of the model.  \<open>lc\<close> is \<open>to_lowercase\<close> and \<open>lg\<close> is the \<open>f64\<close> logarithm \<open>log2\<close>; both are
  parameters.  Message templates are written in ASCII.
\<close>

section \<open>Operations\<close>

definition ENTROPY_THRESHOLD :: rat where "ENTROPY_THRESHOLD = 7 / 2"
definition MAX_LABEL_LEN :: usize where "MAX_LABEL_LEN = 40"
definition MAX_FQDN_LEN :: usize where "MAX_FQDN_LEN = 128"
definition DNS_TUNNEL_BYTES :: usize where "DNS_TUNNEL_BYTES = 400"

definition SUSPICIOUS_TLDS :: "bytes list" where
  "SUSPICIOUS_TLDS = map str
     [''xyz'', ''top'', ''click'', ''link'', ''work'', ''date'', ''review'', ''stream'', ''gdn'',
      ''racing'', ''download'', ''win'', ''bid'', ''loan'', ''online'', ''science'', ''party'', ''trade'']"

definition byte_counts :: "bytes \<Rightarrow> u32 list" where
  "byte_counts data = foldl (\<lambda>counts b. counts[unat b := counts ! unat b + 1]) (replicate 256 0) data"

definition shannon_entropy :: "(rat \<Rightarrow> rat) \<Rightarrow> bytes \<Rightarrow> rat" where
  "shannon_entropy lg data =
     (if data = [] then 0
      else
        let len = f64 (of_nat (length data))
        in foldl (\<lambda>acc x. f64 (acc + x)) 0
             (map (\<lambda>c. let p = f64 (f64 (of_nat (unat c)) / len) in f64 ((- p) * lg p))
                  (filter (\<lambda>c. 0 < c) (byte_counts data))))"

function dns_labels :: "bytes \<Rightarrow> usize \<Rightarrow> bytes list \<Rightarrow> bytes list option panics" where
  "dns_labels payload pos labels =
     (if length payload \<le> pos then Some None
      else do {
        b \<leftarrow> idx payload pos;
        if b = 0 then Some (Some labels)
        else if b AND 0xC0 = 0xC0 then Some (Some labels)
        else if length payload < pos + 1 + unat b then Some None
        else do {
          w \<leftarrow> slice payload (pos + 1) (pos + 1 + unat b);
          dns_labels payload (pos + 1 + unat b) (labels @ [from_utf8_lossy w])
        }
      })"
  by pat_completeness auto
termination
  by (relation "measure (\<lambda>(payload, pos, labels). length payload - pos)") auto

declare dns_labels.simps [simp del]

definition extract_dns_query_name :: "bytes \<Rightarrow> bytes option panics" where
  "extract_dns_query_name payload =
     (if length payload < 12 then Some None
      else do {
        b4 \<leftarrow> idx payload 4;
        b5 \<leftarrow> idx payload 5;
        if be16 b4 b5 = 0 then Some None
        else do {
          r \<leftarrow> dns_labels payload 12 [];
          Some (case r of
            None \<Rightarrow> None
          | Some labels \<Rightarrow> if labels = [] then None else Some (join [dot] labels))
        }
      })"

definition label_signals :: "(rat \<Rightarrow> rat) \<Rightarrow> bytes \<Rightarrow> signal list" where
  "label_signals lg label =
     (if MAX_LABEL_LEN < length label then
        [\<lparr>sig_name = ''dns_long_label'', sig_score = SCORE_DNS_ANOMALY,
          sig_detail = fmt ''DNS label '{}' length {} > {}''
            [FStr label, FNat (length label), FNat MAX_LABEL_LEN]\<rparr>] else []) @
     (let entropy = shannon_entropy lg label in
      if ENTROPY_THRESHOLD < entropy then
        [\<lparr>sig_name = ''dns_high_entropy'', sig_score = SCORE_DNS_ANOMALY,
          sig_detail = fmt ''DNS label '{}' entropy {:.2} (threshold {:.2}) - likely DGA''
            [FStr label, FFloat entropy, FFloat ENTROPY_THRESHOLD]\<rparr>] else [])"

definition DnsDetector_inspect_name :: "(bytes \<Rightarrow> bytes) \<Rightarrow> (rat \<Rightarrow> rat) \<Rightarrow> bytes \<Rightarrow> signal list" where
  "DnsDetector_inspect_name lc lg name =
     (let fqdn = trim_end_matches dot name;
          long = (if MAX_FQDN_LEN < length fqdn then
            [\<lparr>sig_name = ''dns_long_fqdn'', sig_score = SCORE_DNS_ANOMALY,
              sig_detail = fmt ''FQDN length {} exceeds threshold {}'' [FNat (length fqdn), FNat MAX_FQDN_LEN]\<rparr>]
            else []);
          labels = split_on dot fqdn;
          tld = (if labels \<noteq> [] \<and> lc (last labels) \<in> set SUSPICIOUS_TLDS then
            [\<lparr>sig_name = ''dns_suspicious_tld'', sig_score = 15,
              sig_detail = fmt ''Rare/abused TLD: .{}'' [FStr (last labels)]\<rparr>] else [])
      in long @ tld @ concat (map (label_signals lg) (take (length labels - 1) labels)))"

definition tunnel_signals :: "bytes \<Rightarrow> signal list panics" where
  "tunnel_signals payload =
     (if 6 < length payload then do {
        b2 \<leftarrow> idx payload 2;
        b3 \<leftarrow> idx payload 3;
        b6 \<leftarrow> idx payload 6;
        b7 \<leftarrow> idx payload 7;
        let is_response = be16 b2 b3 AND 0x8000 \<noteq> 0;
        let ancount = be16 b6 b7;
        Some (if is_response \<and> 0 < ancount \<and> DNS_TUNNEL_BYTES \<le> length payload then
          [\<lparr>sig_name = ''dns_tunnel_large_response'', sig_score = f32 (SCORE_DNS_ANOMALY + 5),
            sig_detail = fmt ''DNS response {} bytes (>={}) - possible tunnel''
              [FNat (length payload), FNat DNS_TUNNEL_BYTES]\<rparr>] else [])
      } else Some [])"

definition DnsDetector_inspect_payload ::
  "(bytes \<Rightarrow> bytes) \<Rightarrow> (rat \<Rightarrow> rat) \<Rightarrow> bytes \<Rightarrow> signal list panics" where
  "DnsDetector_inspect_payload lc lg payload = do {
     q \<leftarrow> extract_dns_query_name payload;
     case q of
       None \<Rightarrow> Some []
     | Some query_name \<Rightarrow> do {
         t \<leftarrow> tunnel_signals payload;
         Some (DnsDetector_inspect_name lc lg query_name @ t)
       }
   }"

section \<open>No panics\<close>

lemma dns_labels_total: "dns_labels payload pos labels \<noteq> None"
proof (induction payload pos labels rule: dns_labels.induct)
  case (1 payload pos labels)
  show ?case
  proof (cases "length payload \<le> pos")
    case True
    then show ?thesis by (simp add: dns_labels.simps [of payload pos])
  next
    case False
    then have i: "idx payload pos = Some (payload ! pos)" by (simp add: idx_Some)
    let ?n = "unat (payload ! pos)"
    show ?thesis
      using 1 [OF False i] False i
      by (simp add: dns_labels.simps [of payload pos] slice_def)
  qed
qed

lemma extract_total: "\<exists>r. extract_dns_query_name payload = Some r"
proof (cases "length payload < 12")
  case False
  then have "idx payload 4 = Some (payload ! 4)" "idx payload 5 = Some (payload ! 5)" by (simp_all add: idx_Some)
  moreover obtain r where "dns_labels payload 12 [] = Some r" using dns_labels_total by blast
  ultimately show ?thesis using False by (simp add: extract_dns_query_name_def)
qed (simp add: extract_dns_query_name_def)

lemma extract_long: "extract_dns_query_name payload = Some (Some n) \<Longrightarrow> 12 \<le> length payload"
  by (auto simp: extract_dns_query_name_def split: if_splits)

lemma tunnel_total: "12 \<le> length payload \<Longrightarrow> \<exists>t. tunnel_signals payload = Some t"
  by (simp add: tunnel_signals_def idx_def Let_def)

lemma inspect_payload_total: "\<exists>s. DnsDetector_inspect_payload lc lg payload = Some s"
proof -
  obtain r where r: "extract_dns_query_name payload = Some r" using extract_total by blast
  show ?thesis
  proof (cases r)
    case (Some n)
    with r extract_long tunnel_total obtain t where "tunnel_signals payload = Some t" by blast
    with r Some show ?thesis by (simp add: DnsDetector_inspect_payload_def)
  qed (simp add: DnsDetector_inspect_payload_def r)
qed

section \<open>Names on the wire\<close>

definition wire_label :: "bytes \<Rightarrow> bytes" where
  "wire_label w = of_nat (length w) # w"

definition wire_name :: "bytes list \<Rightarrow> bytes" where
  "wire_name ws = concat (map wire_label ws)"

definition label_ok :: "bytes \<Rightarrow> bool" where
  "label_ok w \<longleftrightarrow> w \<noteq> [] \<and> length w < 64 \<and> utf8_valid w"

lemma wire_head:
  assumes "label_ok w"
  shows "(of_nat (length w) :: u8) \<noteq> 0" "(of_nat (length w) :: u8) AND 0xC0 \<noteq> 0xC0"
    "unat (of_nat (length w) :: u8) = length w"
proof -
  have l: "0 < length w" "length w < 64" using assms by (simp_all add: label_ok_def)
  then show u: "unat (of_nat (length w) :: u8) = length w" by (simp add: unat_of_nat take_bit_nat_eq_self)
  then show "(of_nat (length w) :: u8) \<noteq> 0" using l by (metis less_irrefl unat_0)
  show "(of_nat (length w) :: u8) AND 0xC0 \<noteq> 0xC0"
  proof
    assume h: "(of_nat (length w) :: u8) AND 0xC0 = 0xC0"
    have "(of_nat (length w) :: u8) AND 0xC0 \<le> of_nat (length w)" by (rule word_and_le2)
    then have "(0xC0 :: u8) \<le> of_nat (length w)" by (simp only: h)
    then have "unat (0xC0 :: u8) \<le> length w" by (simp only: word_le_nat_alt u)
    with l show False by simp
  qed
qed

lemma dns_labels_wire:
  assumes "\<forall>w \<in> set ws. label_ok w" and "stop = 0 \<or> stop AND 0xC0 = 0xC0"
  shows "dns_labels (pre @ wire_name ws @ stop # rest) (length pre) labels = Some (Some (labels @ ws))"
  using assms(1)
proof (induction ws arbitrary: pre labels)
  case Nil
  show ?case
    using assms(2) by (auto simp: dns_labels.simps [of _ "length pre"] wire_name_def idx_def)
next
  case (Cons w ws)
  let ?p = "pre @ wire_name (w # ws) @ stop # rest"
  have w: "label_ok w" using Cons.prems by simp
  have p: "?p = (pre @ wire_label w) @ wire_name ws @ stop # rest" by (simp add: wire_name_def)
  have len: "length pre + 1 + length w = length (pre @ wire_label w)" by (simp add: wire_label_def)
  have i: "idx ?p (length pre) = Some (of_nat (length w))"
    by (simp add: idx_def wire_name_def wire_label_def nth_append)
  have s: "slice ?p (length pre + 1) (length pre + 1 + length w) = Some w"
    by (simp add: slice_def wire_name_def wire_label_def)
  have "dns_labels ?p (length pre) labels = dns_labels ?p (length (pre @ wire_label w)) (labels @ [w])"
    using wire_head [OF w] i s w
    by (subst dns_labels.simps) (simp add: len lossy_valid_id label_ok_def wire_name_def wire_label_def)
  also have "\<dots> = Some (Some ((labels @ [w]) @ ws))"
    unfolding p using Cons.prems by (intro Cons.IH) simp
  finally show ?case by simp
qed

section \<open>Properties\<close>

text \<open>The DNS parser is total: on every payload, however malformed or truncated, the query
  name is extracted and the payload inspected without an out-of-range read, in finitely many
  steps.\<close>

theorem dns_never_panics:
  "(\<exists>r. extract_dns_query_name payload = Some r) \<and> (\<exists>s. DnsDetector_inspect_payload lc lg payload = Some s)"
  using extract_total inspect_payload_total by blast

text \<open>C30 (roundtrip). A name written in wire format, after any 12-byte header that announces a
  question and ended by the root label or by a compression pointer, is read back as its labels
  joined by dots, whatever follows it.\<close>

theorem dns_name_roundtrip:
  assumes "length hdr = 12" and "be16 (hdr ! 4) (hdr ! 5) \<noteq> 0" and "labels \<noteq> []"
    and "\<forall>w \<in> set labels. label_ok w" and "stop = 0 \<or> stop AND 0xC0 = 0xC0"
  shows "extract_dns_query_name (hdr @ wire_name labels @ stop # rest) = Some (Some (join [dot] labels))"
proof -
  let ?p = "hdr @ wire_name labels @ stop # rest"
  have "dns_labels ?p 12 [] = Some (Some labels)"
    using dns_labels_wire [OF assms(4,5), of hdr rest "[]"] assms(1) by simp
  moreover have "idx ?p 4 = Some (hdr ! 4)" "idx ?p 5 = Some (hdr ! 5)"
    using assms(1) by (simp_all add: idx_def nth_append)
  ultimately show ?thesis using assms(1-3) by (simp add: extract_dns_query_name_def)
qed

theorem dns_name_roundtrip_witness:
  "extract_dns_query_name ([0, 1, 1, 0, 0, 1, 0, 0, 0, 0, 0, 0] @ wire_name [str ''mail'', str ''test''] @ 0 # [0, 1, 0, 1]) =
     Some (Some (str ''mail.test''))"
proof -
  have "\<forall>w \<in> set [str ''mail'', str ''test'']. label_ok w"
    by (auto simp: label_ok_def intro!: ascii_valid) (simp_all add: str_def is_ascii_def)
  from dns_name_roundtrip [OF _ _ _ this, of "[0, 1, 1, 0, 0, 1, 0, 0, 0, 0, 0, 0]" 0 "[0, 1, 0, 1]"]
  show ?thesis by (simp add: be16_def str_def)
qed

end
