(* ===== verification/Baseline.thy ===== *)
theory Baseline
  imports Floats Table AddrText
begin

text \<open>
  The adaptive baseline of \<open>ids/baseline.rs\<close>: the learned state, its two phases, the
  observations and checks, and the JSON persistence.  Parameters: \<open>lc\<close> (\<open>to_lowercase\<close>) and
  a codec for \<open>serde_json\<close>; the file system is a map from paths to contents, and whether a
  write succeeds is an input.  The lock of each call makes it one atomic step.
\<close>

section \<open>State\<close>

definition EMA_ALPHA :: rat where "EMA_ALPHA = f64 (1 / 1000)"
definition LEARNING_DURATION :: duration where "LEARNING_DURATION = from_secs (30 * 60)"

record hourly_bucket =
  avg_packet_rate :: rat
  avg_bytes_rate :: rat
  samples :: u64

definition ema :: "rat \<Rightarrow> rat \<Rightarrow> rat" where
  "ema x avg = f64 (f64 (EMA_ALPHA * x) + f64 (f64 (1 - EMA_ALPHA) * avg))"

definition HourlyBucket_update :: "rat \<Rightarrow> rat \<Rightarrow> hourly_bucket \<Rightarrow> hourly_bucket" where
  "HourlyBucket_update pkt_rate bytes_rate h =
     (if samples h = 0
      then h\<lparr>avg_packet_rate := pkt_rate, avg_bytes_rate := bytes_rate, samples := samples h + 1\<rparr>
      else h\<lparr>avg_packet_rate := ema pkt_rate (avg_packet_rate h),
             avg_bytes_rate := ema bytes_rate (avg_bytes_rate h), samples := samples h + 1\<rparr>)"

record baseline_state =
  common_ports :: "u16 set"
  dst_ips :: "bytes set"
  countries :: "bytes set"
  common_dns_domains :: "bytes set"
  protocol_dist :: "(u8, rat) table"
  hourly :: "hourly_bucket list"
  learned_at :: u64
  ring_buffer_recommended :: usize

definition BaselineState_default :: baseline_state where
  "BaselineState_default =
     \<lparr>common_ports = {}, dst_ips = {}, countries = {}, common_dns_domains = {}, protocol_dist = [],
      hourly = replicate 24 \<lparr>avg_packet_rate = 0, avg_bytes_rate = 0, samples = 0\<rparr>,
      learned_at = 0, ring_buffer_recommended = 0\<rparr>"

datatype phase = Learning | Refinement

record baseline =
  bl_state :: baseline_state
  bl_phase :: phase
  learning_started :: int
  learning_duration :: duration
  persist_path :: "bytes option"

section \<open>Persistence\<close>

record json_api =
  from_str :: "bytes \<Rightarrow> baseline_state option"
  to_string_pretty :: "baseline_state \<Rightarrow> bytes option"

type_synonym disk = "bytes \<Rightarrow> bytes option"

text \<open>\<open>Baseline::new\<close>; the time is the reading of \<open>SystemTime::now\<close>.\<close>

definition Baseline_new :: "json_api \<Rightarrow> disk \<Rightarrow> int \<Rightarrow> bytes option \<Rightarrow> baseline" where
  "Baseline_new js disk now path =
     (let state = (case Option.bind (Option.bind path disk) (from_str js) of
                     Some s \<Rightarrow> s | None \<Rightarrow> BaselineState_default)
      in \<lparr>bl_state = state, bl_phase = (if 0 < learned_at state then Refinement else Learning),
          learning_started = now, learning_duration = LEARNING_DURATION, persist_path = path\<rparr>)"

definition Baseline_persist :: "json_api \<Rightarrow> bool \<Rightarrow> baseline \<Rightarrow> disk \<Rightarrow> disk" where
  "Baseline_persist js write_ok b disk =
     (case persist_path b of
        None \<Rightarrow> disk
      | Some path \<Rightarrow>
          (case to_string_pretty js (bl_state b) of
             Some json \<Rightarrow> if write_ok then disk(path \<mapsto> json) else disk
           | None \<Rightarrow> disk))"

section \<open>Phases\<close>

definition Baseline_is_learning :: "baseline \<Rightarrow> bool" where
  "Baseline_is_learning b \<longleftrightarrow> bl_phase b = Learning"

text \<open>Seconds since the epoch; a clock before it reads as zero.\<close>

definition epoch_secs :: "int \<Rightarrow> u64" where
  "epoch_secs now = of_nat (as_secs (nat now))"

definition enter_refinement :: "int \<Rightarrow> baseline \<Rightarrow> baseline" where
  "enter_refinement now b = b\<lparr>bl_phase := Refinement, bl_state := (bl_state b)\<lparr>learned_at := epoch_secs now\<rparr>\<rparr>"

definition Baseline_finish_learning ::
  "json_api \<Rightarrow> bool \<Rightarrow> int \<Rightarrow> baseline \<times> disk \<Rightarrow> baseline \<times> disk" where
  "Baseline_finish_learning js write_ok now bd =
     (case bd of (b, disk) \<Rightarrow>
        if bl_phase b = Learning then
          let b' = enter_refinement now b
          in (b', Baseline_persist js write_ok b' disk)
        else (b, disk))"

text \<open>\<open>elapsed()\<close> is an error, read as zero, when the clock has gone back.\<close>

definition learning_over :: "int \<Rightarrow> baseline \<Rightarrow> bool" where
  "learning_over now_elapsed b \<longleftrightarrow>
     Baseline_is_learning b \<and> learning_duration b \<le> nat (now_elapsed - learning_started b)"

definition Baseline_tick_phase ::
  "json_api \<Rightarrow> bool \<Rightarrow> int \<Rightarrow> int \<Rightarrow> baseline \<times> disk \<Rightarrow> baseline \<times> disk" where
  "Baseline_tick_phase js write_ok now_elapsed now_finish bd =
     (if learning_over now_elapsed (fst bd) then Baseline_finish_learning js write_ok now_finish bd else bd)"

lemmas tick_defs = Baseline_tick_phase_def learning_over_def Baseline_finish_learning_def enter_refinement_def

section \<open>Observations and checks\<close>

definition upd_state :: "(baseline_state \<Rightarrow> baseline_state) \<Rightarrow> baseline \<Rightarrow> baseline" where
  "upd_state f b = b\<lparr>bl_state := f (bl_state b)\<rparr>"

definition Baseline_observe_port :: "u16 \<Rightarrow> baseline \<Rightarrow> baseline" where
  "Baseline_observe_port port = upd_state (\<lambda>s. s\<lparr>common_ports := insert port (common_ports s)\<rparr>)"

definition Baseline_observe_dst_ip :: "ip_addr \<Rightarrow> baseline \<Rightarrow> baseline" where
  "Baseline_observe_dst_ip ip = upd_state (\<lambda>s. s\<lparr>dst_ips := insert (ip_to_string ip) (dst_ips s)\<rparr>)"

definition Baseline_observe_country :: "bytes \<Rightarrow> baseline \<Rightarrow> baseline" where
  "Baseline_observe_country code = upd_state (\<lambda>s. s\<lparr>countries := insert code (countries s)\<rparr>)"

definition Baseline_observe_dns :: "(bytes \<Rightarrow> bytes) \<Rightarrow> bytes \<Rightarrow> baseline \<Rightarrow> baseline" where
  "Baseline_observe_dns lc domain =
     upd_state (\<lambda>s. s\<lparr>common_dns_domains := insert (lc domain) (common_dns_domains s)\<rparr>)"

definition Baseline_observe_protocol :: "u8 \<Rightarrow> baseline \<Rightarrow> baseline" where
  "Baseline_observe_protocol proto =
     upd_state (\<lambda>s. s\<lparr>protocol_dist :=
       tab_insert proto (f64 (EMA_ALPHA + f64 (f64 (1 - EMA_ALPHA) * entry_or proto 0 (protocol_dist s))))
         (protocol_dist s)\<rparr>)"

definition current_hour :: "int \<Rightarrow> usize" where
  "current_hour now = unat (epoch_secs now div 3600 mod 24)"

definition Baseline_observe_rates :: "int \<Rightarrow> rat \<Rightarrow> rat \<Rightarrow> baseline \<Rightarrow> baseline panics" where
  "Baseline_observe_rates now pkt_rate bytes_rate b = do {
     h \<leftarrow> idx (hourly (bl_state b)) (current_hour now);
     Some (upd_state (\<lambda>s. s\<lparr>hourly := (hourly s)[current_hour now := HourlyBucket_update pkt_rate bytes_rate h]\<rparr>) b)
   }"

definition Baseline_is_known_port :: "u16 \<Rightarrow> baseline \<Rightarrow> bool" where
  "Baseline_is_known_port port b \<longleftrightarrow> port \<in> common_ports (bl_state b)"

definition Baseline_is_known_country :: "bytes \<Rightarrow> baseline \<Rightarrow> bool" where
  "Baseline_is_known_country code b \<longleftrightarrow> code \<in> countries (bl_state b)"

definition Baseline_is_known_dns :: "(bytes \<Rightarrow> bytes) \<Rightarrow> bytes \<Rightarrow> baseline \<Rightarrow> bool" where
  "Baseline_is_known_dns lc domain b \<longleftrightarrow> lc domain \<in> common_dns_domains (bl_state b)"

definition Baseline_current_hour_avg_pkt_rate :: "int \<Rightarrow> baseline \<Rightarrow> rat panics" where
  "Baseline_current_hour_avg_pkt_rate now b = do {
     h \<leftarrow> idx (hourly (bl_state b)) (current_hour now);
     Some (avg_packet_rate h)
   }"

lemmas observe_defs =
  Baseline_observe_port_def Baseline_observe_dst_ip_def Baseline_observe_country_def
  Baseline_observe_dns_def Baseline_observe_protocol_def upd_state_def

section \<open>The moving average in \<open>f64\<close>\<close>

lemma EMA_ALPHA_value: "EMA_ALPHA = 1152921504606847 / 1152921504606846976"
proof -
  have u: "(1 / 1000) / 2 powi (-10 - int 53 + 1) = (4611686018427387904 / 1000 :: rat)"
    by (simp add: power_int_def power_divide)
  have "rnd 53 (1 / 1000) = of_int (rne ((1 / 1000) / 2 powi (-10 - int 53 + 1))) * 2 powi (-10 - int 53 + 1)"
    by (rule rnd_binade) (simp_all add: power_int_def power_divide)
  also have "rne ((1 / 1000) / 2 powi (-10 - int 53 + 1)) = 4611686018427388"
    unfolding u by (rule rne_near) simp
  also have "of_int 4611686018427388 * 2 powi (-10 - int 53 + 1) = (1152921504606847 / 1152921504606846976 :: rat)"
    by (simp add: power_int_def power_divide)
  finally show ?thesis by (simp add: EMA_ALPHA_def f64_def)
qed

lemma EMA_BETA_value: "f64 (1 - EMA_ALPHA) = 8998192055486251 / 9007199254740992"
proof -
  let ?q = "1 - EMA_ALPHA"
  have u: "?q / 2 powi (-1 - int 53 + 1) = (1151768583102240129 / 128 :: rat)"
    by (simp add: power_int_def power_divide EMA_ALPHA_value)
  have "rnd 53 ?q = of_int (rne (?q / 2 powi (-1 - int 53 + 1))) * 2 powi (-1 - int 53 + 1)"
    by (rule rnd_binade) (simp_all add: power_int_def power_divide EMA_ALPHA_value)
  also have "rne (?q / 2 powi (-1 - int 53 + 1)) = 8998192055486251"
    unfolding u by (rule rne_near) simp
  also have "of_int 8998192055486251 * 2 powi (-1 - int 53 + 1) = (8998192055486251 / 9007199254740992 :: rat)"
    by (simp add: power_int_def power_divide)
  finally show ?thesis by (simp add: f64_def)
qed

lemma ema_unit:
  assumes "0 \<le> x" and "x \<le> 1"
  shows "0 \<le> f64 (EMA_ALPHA + f64 (f64 (1 - EMA_ALPHA) * x)) \<and> f64 (EMA_ALPHA + f64 (f64 (1 - EMA_ALPHA) * x)) \<le> 1"
proof -
  let ?b = "f64 (1 - EMA_ALPHA)"
  have b: "0 \<le> ?b" by (simp add: EMA_BETA_value)
  have idem: "f64 ?b = ?b" by (rule f64_idem) (simp add: EMA_ALPHA_value)
  have "?b * x \<le> ?b" using assms b by (simp add: mult_left_le)
  then have "f64 (?b * x) \<le> f64 ?b" using assms(1) b by (intro f64_mono) simp_all
  then have "f64 (?b * x) \<le> ?b" by (simp only: idem)
  moreover have "0 \<le> f64 (?b * x)" using assms(1) b by (intro f64_nonneg) simp
  moreover have "EMA_ALPHA + ?b \<le> of_nat 1" "0 \<le> EMA_ALPHA"
    unfolding EMA_BETA_value unfolding EMA_ALPHA_value by simp_all
  ultimately have "0 \<le> EMA_ALPHA + f64 (?b * x)" "EMA_ALPHA + f64 (?b * x) \<le> of_nat 1"
    by linarith+
  then have "0 \<le> f64 (EMA_ALPHA + f64 (?b * x))" "f64 (EMA_ALPHA + f64 (?b * x)) \<le> of_nat 1"
    using f64_nonneg f64_le_nat [of _ 1] by simp_all
  then show ?thesis by simp
qed

section \<open>Runs\<close>

datatype baseline_event =
    SeePort u16 | SeeIp ip_addr | SeeCountry bytes | SeeDns bytes | SeeProto u8
  | Tick bool int int | Persist bool

fun baseline_step :: "json_api \<Rightarrow> (bytes \<Rightarrow> bytes) \<Rightarrow> baseline_event \<Rightarrow> baseline \<times> disk \<Rightarrow> baseline \<times> disk" where
  "baseline_step js lc (SeePort p) (b, d) = (Baseline_observe_port p b, d)"
| "baseline_step js lc (SeeIp a) (b, d) = (Baseline_observe_dst_ip a b, d)"
| "baseline_step js lc (SeeCountry c) (b, d) = (Baseline_observe_country c b, d)"
| "baseline_step js lc (SeeDns n) (b, d) = (Baseline_observe_dns lc n b, d)"
| "baseline_step js lc (SeeProto p) (b, d) = (Baseline_observe_protocol p b, d)"
| "baseline_step js lc (Tick ok t u) (b, d) = Baseline_tick_phase js ok t u (b, d)"
| "baseline_step js lc (Persist ok) (b, d) = (b, Baseline_persist js ok b d)"

definition baseline_run :: "json_api \<Rightarrow> (bytes \<Rightarrow> bytes) \<Rightarrow> baseline_event list \<Rightarrow> baseline \<times> disk \<Rightarrow> baseline \<times> disk" where
  "baseline_run js lc es bd = fold (baseline_step js lc) es bd"

lemma tick_cases:
  "Baseline_tick_phase js ok t u (b, d) =
     (if bl_phase b = Learning \<and> learning_duration b \<le> nat (t - learning_started b)
      then let b' = b\<lparr>bl_phase := Refinement, bl_state := (bl_state b)\<lparr>learned_at := epoch_secs u\<rparr>\<rparr>
           in (b', Baseline_persist js ok b' d)
      else (b, d))"
  by (simp add: tick_defs Baseline_is_learning_def)

text \<open>What no step changes.\<close>

lemma step_config:
  "learning_started (fst (baseline_step js lc e bd)) = learning_started (fst bd)"
  "learning_duration (fst (baseline_step js lc e bd)) = learning_duration (fst bd)"
  "persist_path (fst (baseline_step js lc e bd)) = persist_path (fst bd)"
  by (cases bd; cases e; simp add: observe_defs tick_cases Let_def)+

fun expired :: "int \<Rightarrow> duration \<Rightarrow> baseline_event \<Rightarrow> bool" where
  "expired t0 w (Tick ok t u) \<longleftrightarrow> w \<le> nat (t - t0)"
| "expired t0 w _ \<longleftrightarrow> False"

lemma step_phase:
  "bl_phase (fst (baseline_step js lc e bd)) = Refinement \<longleftrightarrow>
     bl_phase (fst bd) = Refinement \<or> expired (learning_started (fst bd)) (learning_duration (fst bd)) e"
  by (cases bd; cases "bl_phase (fst bd)"; cases e) (simp_all add: observe_defs tick_cases Let_def)

lemma run_phase:
  "bl_phase (fst (baseline_run js lc es bd)) = Refinement \<longleftrightarrow>
     bl_phase (fst bd) = Refinement \<or>
     (\<exists>e \<in> set es. expired (learning_started (fst bd)) (learning_duration (fst bd)) e)"
  unfolding baseline_run_def by (induction es arbitrary: bd) (auto simp: step_phase step_config)

lemma run_config:
  "learning_started (fst (baseline_run js lc es bd)) = learning_started (fst bd)"
  "persist_path (fst (baseline_run js lc es bd)) = persist_path (fst bd)"
  unfolding baseline_run_def by (induction es arbitrary: bd) (simp_all add: step_config)

section \<open>Knowledge\<close>

lemma step_known:
  "Baseline_is_known_port p (fst (baseline_step js lc e bd)) \<longleftrightarrow> e = SeePort p \<or> Baseline_is_known_port p (fst bd)"
  "Baseline_is_known_country c (fst (baseline_step js lc e bd)) \<longleftrightarrow> e = SeeCountry c \<or> Baseline_is_known_country c (fst bd)"
  "Baseline_is_known_dns lc n (fst (baseline_step js lc e bd)) \<longleftrightarrow>
     (\<exists>m. e = SeeDns m \<and> lc m = lc n) \<or> Baseline_is_known_dns lc n (fst bd)"
  by (cases bd; cases e; auto simp: observe_defs tick_cases Let_def Baseline_is_known_port_def
        Baseline_is_known_country_def Baseline_is_known_dns_def)+

lemma run_known:
  "Baseline_is_known_port p (fst (baseline_run js lc es bd)) \<longleftrightarrow> SeePort p \<in> set es \<or> Baseline_is_known_port p (fst bd)"
  "Baseline_is_known_country c (fst (baseline_run js lc es bd)) \<longleftrightarrow> SeeCountry c \<in> set es \<or> Baseline_is_known_country c (fst bd)"
  "Baseline_is_known_dns lc n (fst (baseline_run js lc es bd)) \<longleftrightarrow>
     (\<exists>m. SeeDns m \<in> set es \<and> lc m = lc n) \<or> Baseline_is_known_dns lc n (fst bd)"
  unfolding baseline_run_def by (induction es arbitrary: bd) (auto simp: step_known)

section \<open>Protocol distribution\<close>

definition unit_rat :: "rat \<Rightarrow> bool" where
  "unit_rat x \<longleftrightarrow> 0 \<le> x \<and> x \<le> 1"

definition proto_ok :: "baseline \<Rightarrow> bool" where
  "proto_ok b \<longleftrightarrow> all_vals unit_rat (tab_get (protocol_dist (bl_state b)))"

lemma observe_protocol_ok: "proto_ok b \<Longrightarrow> proto_ok (Baseline_observe_protocol p b)"
proof -
  assume b: "proto_ok b"
  let ?x = "entry_or p 0 (protocol_dist (bl_state b))"
  have "0 \<le> ?x" "?x \<le> 1"
    using b by (auto simp: proto_ok_def all_vals_def unit_rat_def entry_or_def split: option.split)
  from ema_unit [OF this] b show ?thesis
    unfolding proto_ok_def Baseline_observe_protocol_def upd_state_def
    by (simp add: tbl.all_vals_put unit_rat_def)
qed

lemma step_proto_ok: "proto_ok (fst bd) \<Longrightarrow> proto_ok (fst (baseline_step js lc e bd))"
  by (cases bd; cases e)
    (simp_all add: observe_protocol_ok, simp_all add: observe_defs tick_cases Let_def proto_ok_def)

lemma run_proto_ok: "proto_ok (fst bd) \<Longrightarrow> proto_ok (fst (baseline_run js lc es bd))"
  unfolding baseline_run_def by (induction es arbitrary: bd) (simp_all add: step_proto_ok)

section \<open>Restart\<close>

text \<open>What the JSON codec keeps; the moving averages may lose their last bit.\<close>

definition same_knowledge :: "baseline_state \<Rightarrow> baseline_state \<Rightarrow> bool" where
  "same_knowledge s s' \<longleftrightarrow> common_ports s = common_ports s' \<and> dst_ips s = dst_ips s' \<and>
     countries s = countries s' \<and> common_dns_domains s = common_dns_domains s' \<and>
     learned_at s = learned_at s'"

definition json_keeps :: "json_api \<Rightarrow> baseline_state \<Rightarrow> bool" where
  "json_keeps js s \<longleftrightarrow> (\<exists>j s'. to_string_pretty js s = Some j \<and> from_str js j = Some s' \<and> same_knowledge s s')"

definition phase_inv :: "baseline \<Rightarrow> bool" where
  "phase_inv b \<longleftrightarrow> (bl_phase b = Refinement \<longleftrightarrow> 0 < learned_at (bl_state b))"

fun clock_set :: "baseline_event \<Rightarrow> bool" where
  "clock_set (Tick ok t u) \<longleftrightarrow> 0 < epoch_secs u"
| "clock_set _ \<longleftrightarrow> True"

lemma step_phase_inv: "phase_inv (fst bd) \<Longrightarrow> clock_set e \<Longrightarrow> phase_inv (fst (baseline_step js lc e bd))"
  by (cases bd; cases e) (simp_all add: observe_defs tick_cases Let_def phase_inv_def)

lemma run_phase_inv:
  "phase_inv (fst bd) \<Longrightarrow> \<forall>e \<in> set es. clock_set e \<Longrightarrow> phase_inv (fst (baseline_run js lc es bd))"
  unfolding baseline_run_def by (induction es arbitrary: bd) (simp_all add: step_phase_inv)

lemma new_phase_inv: "phase_inv (Baseline_new js disk now path)"
  by (simp add: phase_inv_def Baseline_new_def Let_def)

lemma new_phase:
  "bl_phase (Baseline_new js disk now path) = Refinement \<longleftrightarrow>
     (\<exists>file text s. path = Some file \<and> disk file = Some text \<and> from_str js text = Some s \<and> 0 < learned_at s)"
  by (auto simp: Baseline_new_def Let_def BaselineState_default_def bind_eq_Some_conv split: option.split)

lemma reload:
  assumes "json_keeps js (bl_state b)" and "persist_path b = Some path"
  shows "same_knowledge (bl_state b) (bl_state (Baseline_new js (Baseline_persist js True b disk) now (Some path)))"
proof -
  obtain j s' where j: "to_string_pretty js (bl_state b) = Some j" "from_str js j = Some s'"
    "same_knowledge (bl_state b) s'"
    using assms(1) unfolding json_keeps_def by blast
  then show ?thesis by (simp add: Baseline_new_def Baseline_persist_def assms(2) Let_def)
qed

section \<open>Properties\<close>

text \<open>C34 (invariant). The phase is a one-way latch: from any files and for any sequence of
  observations, sweeper ticks and saves, the baseline is in \<open>Refinement\<close> exactly if its file could be
  read and decoded to a state with a positive \<open>learned_at\<close>, or some tick came at least 30 minutes
  after the start; so once there it never returns to \<open>Learning\<close>.\<close>

theorem baseline_phase_latch:
  "bl_phase (fst (baseline_run js lc es (Baseline_new js disk now path, disk))) = Refinement \<longleftrightarrow>
     (\<exists>file text s. path = Some file \<and> disk file = Some text \<and> from_str js text = Some s \<and> 0 < learned_at s) \<or>
     (\<exists>ok t u. Tick ok t u \<in> set es \<and> from_secs 1800 \<le> nat (t - now))"
proof -
  have "(\<exists>e \<in> set es. expired now (from_secs 1800) e) \<longleftrightarrow>
      (\<exists>ok t u. Tick ok t u \<in> set es \<and> from_secs 1800 \<le> nat (t - now))"
    (is "?l \<longleftrightarrow> ?r")
  proof
    assume ?l
    then obtain e where "e \<in> set es" "expired now (from_secs 1800) e" by blast
    then show ?r by (metis expired.elims(2))
  next
    assume ?r
    then show ?l by (metis expired.simps(1))
  qed
  moreover have "learning_started (Baseline_new js disk now path) = now"
    "learning_duration (Baseline_new js disk now path) = from_secs 1800"
    by (simp_all add: Baseline_new_def Let_def LEARNING_DURATION_def)
  ultimately show ?thesis
    using run_phase [of js lc es "(Baseline_new js disk now path, disk)"] new_phase [of js disk now path] by simp
qed

text \<open>The baseline knows exactly what it has been shown: after any run a port, a
  country or a domain (up to lower-casing) is known if and only if it was known at the start or
  has been observed; phases, ticks and saves neither add nor forget anything.\<close>

theorem baseline_knowledge_exact:
  "(Baseline_is_known_port p (fst (baseline_run js lc es bd)) \<longleftrightarrow>
      SeePort p \<in> set es \<or> Baseline_is_known_port p (fst bd)) \<and>
   (Baseline_is_known_country c (fst (baseline_run js lc es bd)) \<longleftrightarrow>
      SeeCountry c \<in> set es \<or> Baseline_is_known_country c (fst bd)) \<and>
   (Baseline_is_known_dns lc n (fst (baseline_run js lc es bd)) \<longleftrightarrow>
      (\<exists>m. SeeDns m \<in> set es \<and> lc m = lc n) \<or> Baseline_is_known_dns lc n (fst bd))"
  by (simp add: run_known)

text \<open>Every entry of the protocol distribution stays between 0 and 1: the rounded
  weights \<open>EMA_ALPHA\<close> and \<open>1 - EMA_ALPHA\<close> do not add up to more than one, so the moving average
  never overshoots however often it is updated.\<close>

theorem baseline_protocol_bounded:
  "all_vals unit_rat (tab_get (protocol_dist (bl_state (fst (baseline_run js lc es
     (Baseline_new js (\<lambda>_. None) now path, disk))))))"
proof -
  have "proto_ok (Baseline_new js (\<lambda>_. None) now path)"
    by (cases path) (simp_all add: proto_ok_def Baseline_new_def BaselineState_default_def all_vals_def)
  then have "proto_ok (fst (Baseline_new js (\<lambda>_. None) now path, disk))" by simp
  from run_proto_ok [OF this] show ?thesis by (simp add: proto_ok_def)
qed

text \<open>A restart loses no knowledge: saving a reachable baseline and starting from the
  file restores the phase and everything that is known, given a codec that reads back what it
  wrote and a clock that was past the first second of 1970 when learning finished.\<close>

theorem baseline_restart:
  fixes es js lc disk now path
  defines "r \<equiv> baseline_run js lc es (Baseline_new js disk now (Some path), disk)"
  assumes "json_keeps js (bl_state (fst r))" and "\<forall>e \<in> set es. clock_set e"
  shows "bl_phase (Baseline_new js (Baseline_persist js True (fst r) (snd r)) now' (Some path)) = bl_phase (fst r) \<and>
     same_knowledge (bl_state (fst r))
       (bl_state (Baseline_new js (Baseline_persist js True (fst r) (snd r)) now' (Some path)))"
proof -
  let ?b = "Baseline_new js (Baseline_persist js True (fst r) (snd r)) now' (Some path)"
  have "persist_path (fst r) = Some path" by (simp add: r_def run_config Baseline_new_def Let_def)
  from reload [OF assms(2) this] have same: "same_knowledge (bl_state (fst r)) (bl_state ?b)" .
  have "phase_inv (fst r)" unfolding r_def by (rule run_phase_inv) (simp_all add: new_phase_inv assms(3))
  moreover have "phase_inv ?b" by (rule new_phase_inv)
  ultimately have "bl_phase ?b = bl_phase (fst r)"
    using same by (cases "bl_phase ?b"; cases "bl_phase (fst r)") (simp_all add: phase_inv_def same_knowledge_def)
  with same show ?thesis by blast
qed

text \<open>An instance: a fresh start that sees port 443 and ends its learning after half an hour, with a
  codec that knows the resulting state.\<close>

definition demo_state :: baseline_state where
  "demo_state = BaselineState_default\<lparr>common_ports := {443}, learned_at := 1800\<rparr>"

definition demo_json :: json_api where
  "demo_json = \<lparr>from_str = (\<lambda>_. Some demo_state), to_string_pretty = (\<lambda>_. Some [])\<rparr>"

definition demo_events :: "baseline_event list" where
  "demo_events = [SeePort 443, Tick True (int (from_secs 1800)) (int (from_secs 1800))]"

lemma demo_baseline_run:
  "bl_state (fst (baseline_run demo_json id demo_events (Baseline_new demo_json (\<lambda>_. None) 0 (Some []), \<lambda>_. None))) = demo_state"
  by (simp add: baseline_run_def demo_events_def Baseline_new_def tick_cases Let_def observe_defs
      LEARNING_DURATION_def BaselineState_default_def demo_state_def epoch_secs_def time_defs)

theorem baseline_restart_witness:
  "let r = baseline_run demo_json id demo_events (Baseline_new demo_json (\<lambda>_. None) 0 (Some []), \<lambda>_. None) in
   bl_phase (Baseline_new demo_json (Baseline_persist demo_json True (fst r) (snd r)) 9 (Some [])) = bl_phase (fst r)"
proof -
  have "json_keeps demo_json demo_state" by (simp add: json_keeps_def demo_json_def same_knowledge_def)
  moreover have "\<forall>e \<in> set demo_events. clock_set e" by (simp add: demo_events_def epoch_secs_def time_defs)
  ultimately show ?thesis
    using baseline_restart [of demo_json id demo_events "\<lambda>_. None" 0 "[]" 9] by (simp add: demo_baseline_run Let_def)
qed

end
