(* ===== verification/Engine.thy ===== *)
theory Engine
  imports Packet RateLimit PortScan SynFlood Blacklist Payload Dns Baseline "HOL-Library.Multiset"
begin

unbundle bit_operations_syntax

text \<open>
  The detection engine of \<open>ids/mod.rs\<close>: \<open>IdsEngine::analyze\<close> runs every detector on one
  packet, in the order of the source, collects the signals and the primary flag reason, and
  updates the baseline.  The sections of \<open>analyze\<close> are one definition each.  The libraries the
  detectors need are the fields of \<open>env\<close>; the readings of the clock are inputs.  An analysis
  is one step of the model: the detectors are behind locks of their own, and the interleaving of
  two analyses inside one packet is not modelled.
\<close>

section \<open>State\<close>

record 'b env =
  env_bloom :: "'b bloom"
  env_ac :: ac_api
  env_hash64 :: "ip_addr \<Rightarrow> u64"
  env_lc :: "bytes \<Rightarrow> bytes"
  env_lg :: "rat \<Rightarrow> rat"
  country_code :: "ip_addr \<Rightarrow> bytes option"

record 'b engine =
  e_port_scan :: port_scan
  e_syn_flood :: syn_flood
  e_rate_limiter :: rate_limiter
  e_blacklist :: "'b blacklist"
  e_payload :: payload_scanner
  e_baseline :: baseline

definition IdsEngine_new :: "baseline \<Rightarrow> 'b blacklist \<Rightarrow> 'b engine" where
  "IdsEngine_new baseline blacklist =
     \<lparr>e_port_scan = PortScanDetector_new, e_syn_flood = SynFloodDetector_new,
      e_rate_limiter = RateLimiter_new, e_blacklist = blacklist,
      e_payload = PayloadScanner_new, e_baseline = baseline\<rparr>"

record engine_clock =
  ec_rate :: rate_clock
  ec_scan :: scan_clock
  ec_syn :: syn_clock

definition WELL_KNOWN_PORTS :: "u16 list" where
  "WELL_KNOWN_PORTS =
     [20, 21, 22, 23, 25, 53, 67, 68, 69, 80, 110, 111, 119, 123, 135, 137, 138, 139, 143, 161, 162,
      179, 194, 389, 443, 445, 464, 465, 514, 515, 587, 631, 636, 993, 995, 1080, 1194, 1433, 1521,
      1723, 3306, 3389, 5432, 5900, 6379, 8080, 8443, 8888]"

section \<open>Collecting signals\<close>

text \<open>The signals so far and \<open>primary_flag\<close>.  The first reason wins.\<close>

type_synonym acc = "signal list \<times> int"

definition flag_first :: "int \<Rightarrow> int \<Rightarrow> int" where
  "flag_first reason flag = (if flag = 0 then reason else flag)"

text \<open>A loop that sets the reason and pushes, for every signal of a detector.\<close>

definition push_all :: "int \<Rightarrow> signal list \<Rightarrow> acc \<Rightarrow> acc" where
  "push_all reason sigs acc = foldl (\<lambda>(ss, flag) s. (ss @ [s], flag_first reason flag)) acc sigs"

definition push_opt :: "int \<Rightarrow> signal option \<Rightarrow> acc \<Rightarrow> acc" where
  "push_opt reason so acc =
     (case so of None \<Rightarrow> acc | Some s \<Rightarrow> (fst acc @ [s], flag_first reason (snd acc)))"

text \<open>A signal that leaves the reason alone.\<close>

definition push_quiet :: "signal list \<Rightarrow> acc \<Rightarrow> acc" where
  "push_quiet sigs acc = (fst acc @ sigs, snd acc)"

section \<open>The sections of \<open>analyze\<close>\<close>

definition is_syn_packet :: "transport_meta \<Rightarrow> bool" where
  "is_syn_packet tm = (case tcp_flags tm of None \<Rightarrow> False | Some f \<Rightarrow> f AND 0x02 \<noteq> 0 \<and> f AND 0x10 = 0)"

definition blacklist_section :: "'b env \<Rightarrow> 'b blacklist \<Rightarrow> transport_meta \<Rightarrow> acc \<Rightarrow> acc" where
  "blacklist_section env bl tm acc =
     (let acc1 = (case Blacklist_check_ip (env_bloom env) (src_ip tm) bl of
                    None \<Rightarrow> acc | Some s \<Rightarrow> (fst acc @ [s], 7))
      in push_opt 7 (Blacklist_check_ip (env_bloom env) (dst_ip tm) bl) acc1)"

definition rate_section :: "rate_clock \<Rightarrow> raw_packet \<Rightarrow> transport_meta \<Rightarrow> rate_limiter \<Rightarrow> acc \<Rightarrow> acc \<times> rate_limiter" where
  "rate_section clk pkt tm rl acc =
     (let (so, rl') = RateLimiter_inspect clk (src_ip tm) (ucast (orig_len pkt)) (is_syn_packet tm) rl
      in (push_opt 6 so acc, rl'))"

definition scan_section :: "(ip_addr \<Rightarrow> u64) \<Rightarrow> scan_clock \<Rightarrow> transport_meta \<Rightarrow> port_scan \<Rightarrow> acc \<Rightarrow> acc \<times> port_scan" where
  "scan_section hash64 clk tm ps acc =
     (case dst_port tm of
        None \<Rightarrow> (acc, ps)
      | Some port \<Rightarrow>
          let (so, ps') = PortScanDetector_inspect hash64 clk (src_ip tm) port ps
          in (push_opt 1 so acc, ps'))"

definition syn_section :: "syn_clock \<Rightarrow> transport_meta \<Rightarrow> syn_flood \<Rightarrow> acc \<Rightarrow> acc \<times> syn_flood" where
  "syn_section clk tm sf acc =
     (case (tcp_flags tm, src_port tm, dst_port tm) of
        (Some flags, Some sp, Some dp) \<Rightarrow>
          let (sigs, sf') = SynFloodDetector_inspect clk (src_ip tm) (dst_ip tm) sp dp flags sf
          in (push_all 2 sigs acc, sf')
      | _ \<Rightarrow> (acc, sf))"

definition icmp_signals :: "transport_meta \<Rightarrow> signal list" where
  "icmp_signals tm =
     (if protocol tm = 1 then
        (case (icmp_type tm, icmp_code tm) of
           (Some t, Some c) \<Rightarrow>
             if 30 \<le> t then
               [\<lparr>sig_name = ''icmp_unusual_type'', sig_score = 25,
                 sig_detail = fmt ''Unusual ICMP type {} code {}'' [FNat (unat t), FNat (unat c)]\<rparr>]
             else []
         | _ \<Rightarrow> [])
      else [])"

definition frag_signals :: "transport_meta \<Rightarrow> signal list" where
  "frag_signals tm =
     (let mf = ip_flags tm AND 0x01 \<noteq> 0;
          df = ip_flags tm AND 0x02 \<noteq> 0
      in if 0 < ip_frag_offset tm \<or> mf then
           [\<lparr>sig_name = ''ip_fragmentation'', sig_score = 20,
             sig_detail = fmt ''Fragmented packet: offset={}, MF={}, DF={}''
               [FNat (unat (ip_frag_offset tm)), FBool mf, FBool df]\<rparr>]
         else [])"

definition trunc_signals :: "raw_packet \<Rightarrow> signal list" where
  "trunc_signals pkt =
     (if is_truncated pkt then
        [\<lparr>sig_name = ''packet_truncated'', sig_score = 10,
          sig_detail = fmt ''Captured {} of {} bytes'' [FNat (unat (cap_len pkt)), FNat (unat (orig_len pkt))]\<rparr>]
      else [])"

definition geo_signal :: "bytes option \<Rightarrow> baseline \<Rightarrow> transport_meta \<Rightarrow> signal option" where
  "geo_signal geo_country b tm =
     (case geo_country of
        None \<Rightarrow> None
      | Some code \<Rightarrow>
          if bl_phase b = Refinement \<and> \<not> Baseline_is_known_country code b then
            Some \<lparr>sig_name = ''geo_new_country'', sig_score = SCORE_GEO_ANOMALY,
                  sig_detail = fmt ''First-seen country '{}' for IP {}'' [FStr code, FIp (src_ip tm)]\<rparr>
          else None)"

definition has_payload :: "raw_packet \<Rightarrow> transport_meta \<Rightarrow> bool" where
  "has_payload pkt tm \<longleftrightarrow> 0 < payload_offset tm \<and> payload_offset tm < length (pkt_data pkt)"

definition payload_section :: "ac_api \<Rightarrow> payload_scanner \<Rightarrow> raw_packet \<Rightarrow> transport_meta \<Rightarrow> acc \<Rightarrow> acc panics" where
  "payload_section ac ps pkt tm acc =
     (if has_payload pkt tm then do {
        payload \<leftarrow> slice_from (pkt_data pkt) (payload_offset tm);
        sigs \<leftarrow> PayloadScanner_scan_all ac payload ps;
        Some (push_all 5 sigs acc)
      } else Some acc)"

definition dns_query_section :: "raw_packet \<Rightarrow> transport_meta \<Rightarrow> bytes option panics" where
  "dns_query_section pkt tm =
     (if protocol tm = 17 \<and> (dst_port tm = Some 53 \<or> src_port tm = Some 53) \<and> has_payload pkt tm then do {
        payload \<leftarrow> slice_from (pkt_data pkt) (payload_offset tm);
        extract_dns_query_name payload
      } else Some None)"

definition dns_section ::
  "'b env \<Rightarrow> 'b blacklist \<Rightarrow> baseline \<Rightarrow> raw_packet \<Rightarrow> transport_meta \<Rightarrow> bytes option \<Rightarrow> acc \<Rightarrow> acc panics" where
  "dns_section env bl b pkt tm query acc =
     (case query of
        None \<Rightarrow> Some acc
      | Some domain \<Rightarrow>
          let acc1 = push_opt 7 (Blacklist_check_domain (env_lc env) domain bl) acc;
              acc2 = (if \<not> Baseline_is_known_dns (env_lc env) domain b
                      then push_all 3 (DnsDetector_inspect_name (env_lc env) (env_lg env) domain) acc1
                      else acc1)
          in if payload_offset tm < length (pkt_data pkt) then do {
               payload \<leftarrow> slice_from (pkt_data pkt) (payload_offset tm);
               sigs \<leftarrow> DnsDetector_inspect_payload (env_lc env) (env_lg env) payload;
               Some (push_all 3 sigs acc2)
             } else Some acc2)"

definition port_signals :: "baseline \<Rightarrow> transport_meta \<Rightarrow> signal list" where
  "port_signals b tm =
     (case dst_port tm of
        None \<Rightarrow> []
      | Some port \<Rightarrow>
          if bl_phase b = Refinement \<and> \<not> Baseline_is_known_port port b then
            [\<lparr>sig_name = ''unusual_port'',
              sig_score = (if port \<in> set WELL_KNOWN_PORTS then SCORE_UNUSUAL_PORT_NETWORK else SCORE_UNUSUAL_PORT_GLOBAL),
              sig_detail = fmt ''Port {} not seen in baseline'' [FNat (unat port)]\<rparr>]
          else [])"

definition vlan_signals :: "transport_meta \<Rightarrow> signal list" where
  "vlan_signals tm =
     (case vlan_id tm of
        None \<Rightarrow> []
      | Some vid \<Rightarrow>
          if vid = 0 \<or> vid = 4095 then
            [\<lparr>sig_name = ''vlan_reserved_id'', sig_score = 20,
              sig_detail = fmt ''Reserved VLAN ID {}'' [FNat (unat vid)]\<rparr>]
          else [])"

definition update_baseline ::
  "(bytes \<Rightarrow> bytes) \<Rightarrow> transport_meta \<Rightarrow> bytes option \<Rightarrow> bytes option \<Rightarrow> baseline \<Rightarrow> baseline" where
  "update_baseline lc tm geo_country query b =
     (let b1 = (case dst_port tm of Some p \<Rightarrow> Baseline_observe_port p b | None \<Rightarrow> b);
          b2 = Baseline_observe_dst_ip (dst_ip tm) b1;
          b3 = Baseline_observe_protocol (protocol tm) b2;
          b4 = (case geo_country of Some code \<Rightarrow> Baseline_observe_country code b3 | None \<Rightarrow> b3)
      in (case query of Some domain \<Rightarrow> Baseline_observe_dns lc domain b4 | None \<Rightarrow> b4))"

definition IdsEngine_analyze ::
  "'b env \<Rightarrow> engine_clock \<Rightarrow> raw_packet \<Rightarrow> 'b engine \<Rightarrow> (ids_result \<times> 'b engine) panics" where
  "IdsEngine_analyze env clk pkt e =
     (case transport pkt of
        None \<Rightarrow> Some (IdsResult_from_signals [] 0, e)
      | Some tm \<Rightarrow>
          let b = e_baseline e;
              acc1 = blacklist_section env (e_blacklist e) tm ([], 0);
              (acc2, rl) = rate_section (ec_rate clk) pkt tm (e_rate_limiter e) acc1;
              (acc3, ps) = scan_section (env_hash64 env) (ec_scan clk) tm (e_port_scan e) acc2;
              (acc4, sf) = syn_section (ec_syn clk) tm (e_syn_flood e) acc3;
              acc5 = push_quiet (icmp_signals tm) acc4;
              acc6 = push_quiet (frag_signals tm) acc5;
              acc7 = push_quiet (trunc_signals pkt) acc6;
              geo_country = country_code env (src_ip tm);
              acc8 = push_opt 4 (geo_signal geo_country b tm) acc7
          in do {
            acc9 \<leftarrow> payload_section (env_ac env) (e_payload e) pkt tm acc8;
            query \<leftarrow> dns_query_section pkt tm;
            acc10 \<leftarrow> dns_section env (e_blacklist e) b pkt tm query acc9;
            let acc11 = push_quiet (port_signals b tm) acc10;
            let acc12 = push_quiet (vlan_signals tm) acc11;
            let result = IdsResult_from_signals (fst acc12) (snd acc12);
            let b' = (if Baseline_is_learning b \<or> total_score result < THRESHOLD_INFO
                      then update_baseline (env_lc env) tm geo_country query b else b);
            Some (result, e\<lparr>e_rate_limiter := rl, e_port_scan := ps, e_syn_flood := sf, e_baseline := b'\<rparr>)
          })"

section \<open>The sweeper\<close>

record sweep_clock =
  sw_scan :: instant
  sw_syn :: instant
  sw_rate :: instant
  sw_elapsed :: int
  sw_finish :: int

text \<open>One round of the \<open>ids-sweeper\<close> thread.\<close>

definition sweeper_tick :: "json_api \<Rightarrow> bool \<Rightarrow> bool \<Rightarrow> sweep_clock \<Rightarrow> 'b engine \<times> disk \<Rightarrow> 'b engine \<times> disk" where
  "sweeper_tick js ok1 ok2 clk ed =
     (case ed of (e, disk) \<Rightarrow>
        let e1 = e\<lparr>e_port_scan := PortScanDetector_sweep (sw_scan clk) (e_port_scan e)\<rparr>;
            e2 = e1\<lparr>e_syn_flood := SynFloodDetector_sweep (sw_syn clk) (e_syn_flood e1)\<rparr>;
            e3 = e2\<lparr>e_rate_limiter := RateLimiter_sweep (sw_rate clk) (e_rate_limiter e2)\<rparr>;
            (b, disk1) = Baseline_tick_phase js ok1 (sw_elapsed clk) (sw_finish clk) (e_baseline e3, disk)
        in (e3\<lparr>e_baseline := b\<rparr>, Baseline_persist js ok2 b disk1))"

section \<open>Findings\<close>

text \<open>An analysis as the list of its findings in order: each a signal with the reason its section
  gives, 0 for the sections that leave the reason alone.\<close>

type_synonym finding = "int \<times> signal"

definition first_reason :: "finding list \<Rightarrow> int" where
  "first_reason F = (case filter (\<lambda>(r, _). r \<noteq> 0) F of [] \<Rightarrow> 0 | (r, _) # _ \<Rightarrow> r)"

definition acc_of :: "finding list \<Rightarrow> acc" where
  "acc_of F = (map snd F, first_reason F)"

lemma acc_of_sel: "fst (acc_of F) = map snd F" "snd (acc_of F) = first_reason F"
  by (simp_all add: acc_of_def)

fun opt_list :: "'a option \<Rightarrow> 'a list" where
  "opt_list None = []"
| "opt_list (Some x) = [x]"

definition tagged :: "int \<Rightarrow> signal list \<Rightarrow> finding list" where
  "tagged r sigs = map (Pair r) sigs"

lemma tagged_simps [simp]:
  "tagged r [] = []" "tagged r (s # ss) = (r, s) # tagged r ss" "map snd (tagged r ss) = ss"
  "set (tagged r ss) = Pair r ` set ss" "(tagged r ss = []) = (ss = [])"
  by (auto simp: tagged_def comp_def)

lemma mset_tagged [simp]: "image_mset snd (mset (tagged r ss)) = mset ss"
  by (simp flip: mset_map)

lemma first_reason_Nil [simp]: "first_reason [] = 0"
  by (simp add: first_reason_def)

lemma filter_nonzero_hd: "filter (\<lambda>(r, _). r \<noteq> 0) F = (r, s) # G \<Longrightarrow> r \<noteq> (0::int)"
proof -
  assume "filter (\<lambda>(r, _). r \<noteq> 0) F = (r, s) # G"
  then have "(r, s) \<in> set (filter (\<lambda>(r, _). r \<noteq> 0) F)" by simp
  then show ?thesis by simp
qed

lemma first_reason_snoc: "first_reason (F @ [(r, s)]) = flag_first r (first_reason F)"
  by (auto simp: first_reason_def flag_first_def dest: filter_nonzero_hd split: list.split)

lemma first_reason_quiet [simp]: "first_reason (F @ tagged 0 ss) = first_reason F"
  by (simp add: first_reason_def tagged_def filter_map comp_def)

lemma first_reason_append:
  "first_reason (F @ G) = (if first_reason F = 0 then first_reason G else first_reason F)"
proof (cases "filter (\<lambda>(r, _). r \<noteq> 0) F")
  case (Cons x H)
  then have "fst x \<noteq> 0" by (cases x) (auto dest: filter_nonzero_hd)
  with Cons show ?thesis by (cases x) (simp add: first_reason_def)
qed (simp add: first_reason_def)

lemma first_reason_Cons: "r \<noteq> 0 \<Longrightarrow> first_reason ((r, s) # F) = r"
  by (simp add: first_reason_def)

lemma first_reason_tagged: "first_reason (tagged r ss) = (if ss = [] then 0 else r)"
  by (cases ss) (auto simp: first_reason_def tagged_def filter_map comp_def)

lemma push_all_acc: "push_all r sigs (acc_of F) = acc_of (F @ tagged r sigs)"
proof (induction sigs arbitrary: F)
  case (Cons s sigs)
  from Cons.IH [of "F @ [(r, s)]"] show ?case
    by (simp add: push_all_def acc_of_def first_reason_snoc)
qed (simp add: push_all_def)

lemma push_opt_acc: "push_opt r so (acc_of F) = acc_of (F @ tagged r (opt_list so))"
  by (cases so) (simp_all add: push_opt_def acc_of_def first_reason_snoc)

lemma push_quiet_acc: "push_quiet sigs (acc_of F) = acc_of (F @ tagged 0 sigs)"
  by (simp add: push_quiet_def acc_of_def)

lemmas push_acc = push_all_acc push_opt_acc push_quiet_acc

text \<open>The findings of each section.\<close>

definition blacklist_findings :: "'b env \<Rightarrow> 'b engine \<Rightarrow> transport_meta \<Rightarrow> finding list" where
  "blacklist_findings env e tm =
     tagged 7 (opt_list (Blacklist_check_ip (env_bloom env) (src_ip tm) (e_blacklist e)) @
               opt_list (Blacklist_check_ip (env_bloom env) (dst_ip tm) (e_blacklist e)))"

definition rate_inspection :: "engine_clock \<Rightarrow> raw_packet \<Rightarrow> transport_meta \<Rightarrow> 'b engine \<Rightarrow> signal option \<times> rate_limiter" where
  "rate_inspection clk pkt tm e =
     RateLimiter_inspect (ec_rate clk) (src_ip tm) (ucast (orig_len pkt)) (is_syn_packet tm) (e_rate_limiter e)"

definition scan_inspection :: "'b env \<Rightarrow> engine_clock \<Rightarrow> transport_meta \<Rightarrow> 'b engine \<Rightarrow> signal option \<times> port_scan" where
  "scan_inspection env clk tm e =
     (case dst_port tm of
        None \<Rightarrow> (None, e_port_scan e)
      | Some p \<Rightarrow> PortScanDetector_inspect (env_hash64 env) (ec_scan clk) (src_ip tm) p (e_port_scan e))"

definition syn_inspection :: "engine_clock \<Rightarrow> transport_meta \<Rightarrow> 'b engine \<Rightarrow> signal list \<times> syn_flood" where
  "syn_inspection clk tm e =
     (case (tcp_flags tm, src_port tm, dst_port tm) of
        (Some flags, Some sp, Some dp) \<Rightarrow>
          SynFloodDetector_inspect (ec_syn clk) (src_ip tm) (dst_ip tm) sp dp flags (e_syn_flood e)
      | _ \<Rightarrow> ([], e_syn_flood e))"

definition payload_of :: "raw_packet \<Rightarrow> transport_meta \<Rightarrow> bytes" where
  "payload_of pkt tm = drop (payload_offset tm) (pkt_data pkt)"

definition payload_hits :: "'b env \<Rightarrow> raw_packet \<Rightarrow> transport_meta \<Rightarrow> 'b engine \<Rightarrow> signal list" where
  "payload_hits env pkt tm e =
     (if has_payload pkt tm
      then the (PayloadScanner_scan_all (env_ac env) (payload_of pkt tm) (e_payload e)) else [])"

definition query_of :: "raw_packet \<Rightarrow> transport_meta \<Rightarrow> bytes option" where
  "query_of pkt tm = the (dns_query_section pkt tm)"

definition dns_findings :: "'b env \<Rightarrow> raw_packet \<Rightarrow> transport_meta \<Rightarrow> 'b engine \<Rightarrow> finding list" where
  "dns_findings env pkt tm e =
     (case query_of pkt tm of
        None \<Rightarrow> []
      | Some n \<Rightarrow>
          tagged 7 (opt_list (Blacklist_check_domain (env_lc env) n (e_blacklist e))) @
          (if Baseline_is_known_dns (env_lc env) n (e_baseline e) then []
           else tagged 3 (DnsDetector_inspect_name (env_lc env) (env_lg env) n)) @
          tagged 3 (the (DnsDetector_inspect_payload (env_lc env) (env_lg env) (payload_of pkt tm))))"

text \<open>The signals of the SYN flood detector are an argument: they may come from another moment.\<close>

definition findings_with ::
  "'b env \<Rightarrow> engine_clock \<Rightarrow> raw_packet \<Rightarrow> transport_meta \<Rightarrow> 'b engine \<Rightarrow> signal list \<Rightarrow> finding list" where
  "findings_with env clk pkt tm e S =
     blacklist_findings env e tm @
     tagged 6 (opt_list (fst (rate_inspection clk pkt tm e))) @
     tagged 1 (opt_list (fst (scan_inspection env clk tm e))) @
     tagged 2 S @
     tagged 0 (icmp_signals tm @ frag_signals tm @ trunc_signals pkt) @
     tagged 4 (opt_list (geo_signal (country_code env (src_ip tm)) (e_baseline e) tm)) @
     tagged 5 (payload_hits env pkt tm e) @
     dns_findings env pkt tm e @
     tagged 0 (port_signals (e_baseline e) tm @ vlan_signals tm)"

definition findings :: "'b env \<Rightarrow> engine_clock \<Rightarrow> raw_packet \<Rightarrow> transport_meta \<Rightarrow> 'b engine \<Rightarrow> finding list" where
  "findings env clk pkt tm e = findings_with env clk pkt tm e (fst (syn_inspection clk tm e))"

lemmas findings_defs = findings_def findings_with_def

definition packet_result_with ::
  "'b env \<Rightarrow> engine_clock \<Rightarrow> raw_packet \<Rightarrow> transport_meta \<Rightarrow> 'b engine \<Rightarrow> signal list \<Rightarrow> ids_result" where
  "packet_result_with env clk pkt tm e S =
     IdsResult_from_signals (map snd (findings_with env clk pkt tm e S)) (first_reason (findings_with env clk pkt tm e S))"

definition packet_result :: "'b env \<Rightarrow> engine_clock \<Rightarrow> raw_packet \<Rightarrow> transport_meta \<Rightarrow> 'b engine \<Rightarrow> ids_result" where
  "packet_result env clk pkt tm e =
     IdsResult_from_signals (map snd (findings env clk pkt tm e)) (first_reason (findings env clk pkt tm e))"

lemma packet_result_with: "packet_result env clk pkt tm e = packet_result_with env clk pkt tm e (fst (syn_inspection clk tm e))"
  by (simp add: packet_result_def packet_result_with_def findings_def)

definition learns :: "ids_result \<Rightarrow> baseline \<Rightarrow> bool" where
  "learns r b \<longleftrightarrow> bl_phase b = Learning \<or> total_score r < 30"

definition next_engine :: "'b env \<Rightarrow> engine_clock \<Rightarrow> raw_packet \<Rightarrow> transport_meta \<Rightarrow> 'b engine \<Rightarrow> 'b engine" where
  "next_engine env clk pkt tm e =
     e\<lparr>e_rate_limiter := snd (rate_inspection clk pkt tm e),
       e_port_scan := snd (scan_inspection env clk tm e),
       e_syn_flood := snd (syn_inspection clk tm e),
       e_baseline := (if learns (packet_result env clk pkt tm e) (e_baseline e)
          then update_baseline (env_lc env) tm (country_code env (src_ip tm)) (query_of pkt tm) (e_baseline e)
          else e_baseline e)\<rparr>"

lemma blacklist_section_acc:
  "blacklist_section env (e_blacklist e) tm ([], 0) = acc_of (blacklist_findings env e tm)"
proof -
  have nil: "([], 0) = acc_of []" by (simp add: acc_of_def)
  have one: "([s], 7) = acc_of [(7, s)]" for s by (simp add: acc_of_def first_reason_def)
  show ?thesis
    by (cases "Blacklist_check_ip (env_bloom env) (src_ip tm) (e_blacklist e)") (simp_all add: blacklist_section_def blacklist_findings_def nil one push_acc acc_of_sel)
qed

lemma dns_query_total: "dns_query_section pkt tm = Some (query_of pkt tm)"
  using extract_total [of "payload_of pkt tm"]
  by (auto simp: query_of_def dns_query_section_def slice_from_def payload_of_def has_payload_def)

lemma query_payload: "query_of pkt tm = Some n \<Longrightarrow> has_payload pkt tm \<and> extract_dns_query_name (payload_of pkt tm) = Some (Some n)"
  using dns_query_total [of pkt tm]
  by (auto simp: dns_query_section_def slice_from_def payload_of_def has_payload_def split: if_splits)

lemma payload_section_acc:
  assumes "ac_ok (env_ac env)" and "e_payload e = PayloadScanner_new"
  shows "payload_section (env_ac env) (e_payload e) pkt tm (acc_of F) = Some (acc_of (F @ tagged 5 (payload_hits env pkt tm e)))"
proof -
  obtain sigs where "PayloadScanner_scan_all (env_ac env) (payload_of pkt tm) PayloadScanner_new = Some sigs"
    by (rule scan_all_total [OF assms(1)])
  then show ?thesis
    by (simp add: payload_section_def payload_hits_def assms(2) slice_from_def payload_of_def has_payload_def push_acc)
qed

lemma dns_section_acc:
  "dns_section env (e_blacklist e) (e_baseline e) pkt tm (query_of pkt tm) (acc_of F) =
     Some (acc_of (F @ dns_findings env pkt tm e))"
proof (cases "query_of pkt tm")
  case (Some n)
  obtain sigs where "DnsDetector_inspect_payload (env_lc env) (env_lg env) (payload_of pkt tm) = Some sigs"
    using inspect_payload_total by blast
  moreover have "payload_offset tm < length (pkt_data pkt)"
    using query_payload [OF Some] by (simp add: has_payload_def)
  ultimately show ?thesis
    using Some by (simp add: dns_section_def dns_findings_def slice_from_def payload_of_def push_acc Let_def)
qed (simp add: dns_section_def dns_findings_def)

lemma rate_section_acc:
  "rate_section (ec_rate clk) pkt tm (e_rate_limiter e) (acc_of F) =
     (acc_of (F @ tagged 6 (opt_list (fst (rate_inspection clk pkt tm e)))), snd (rate_inspection clk pkt tm e))"
  by (simp add: rate_section_def rate_inspection_def split_beta push_acc)

lemma scan_section_acc:
  "scan_section (env_hash64 env) (ec_scan clk) tm (e_port_scan e) (acc_of F) =
     (acc_of (F @ tagged 1 (opt_list (fst (scan_inspection env clk tm e)))), snd (scan_inspection env clk tm e))"
  by (simp add: scan_section_def scan_inspection_def split_beta push_acc split: option.split)

lemma syn_section_acc:
  "syn_section (ec_syn clk) tm (e_syn_flood e) (acc_of F) =
     (acc_of (F @ tagged 2 (fst (syn_inspection clk tm e))), snd (syn_inspection clk tm e))"
  by (simp add: syn_section_def syn_inspection_def split_beta push_acc split: option.split)

lemma tagged_append: "tagged r (a @ b) = tagged r a @ tagged r b"
  by (simp add: tagged_def)

text \<open>The whole analysis, as its findings.\<close>

lemma analyze_findings:
  assumes "ac_ok (env_ac env)" and "e_payload e = PayloadScanner_new" and "transport pkt = Some tm"
  shows "IdsEngine_analyze env clk pkt e = Some (packet_result env clk pkt tm e, next_engine env clk pkt tm e)"
  by (simp add: IdsEngine_analyze_def assms(3) blacklist_section_acc rate_section_acc scan_section_acc syn_section_acc push_acc
      payload_section_acc [OF assms(1,2)] dns_query_total dns_section_acc Let_def tagged_append
      packet_result_def next_engine_def learns_def findings_def findings_with_def acc_of_sel
      Baseline_is_learning_def THRESHOLD_INFO_def del: from_signals_sel)

section \<open>The scores of the detectors\<close>

text \<open>Every signal of every detector carries a whole score between 10 and 90.\<close>

definition whole_score :: "signal \<Rightarrow> bool" where
  "whole_score s \<longleftrightarrow> (\<exists>n::nat. sig_score s = of_nat n \<and> 10 \<le> n \<and> n \<le> 90)"

lemma whole_numeral: "sig_score s = numeral k \<Longrightarrow> 10 \<le> (numeral k :: nat) \<Longrightarrow> (numeral k :: nat) \<le> 90 \<Longrightarrow> whole_score s"
  unfolding whole_score_def by (rule exI [of _ "numeral k"]) simp

lemma whole_numeral_rec [simp]:
  "10 \<le> (numeral k :: nat) \<Longrightarrow> (numeral k :: nat) \<le> 90 \<Longrightarrow>
     whole_score \<lparr>sig_name = n, sig_score = numeral k, sig_detail = d\<rparr>"
  by (rule whole_numeral) simp_all

lemma whole_blacklist:
  "Blacklist_check_ip B ip bl = Some s \<Longrightarrow> sig_score s = 90"
  "Blacklist_check_domain lc name bl = Some s \<Longrightarrow> sig_score s = 80"
  by (cases ip; auto simp: Let_def det_defs split: if_splits)
    (auto simp: Blacklist_check_domain_def Let_def det_defs split: if_splits)

lemma whole_listed:
  "Blacklist_check_ip B ip bl = Some s \<Longrightarrow> whole_score s"
  "Blacklist_check_domain lc name bl = Some s \<Longrightarrow> whole_score s"
  by (auto dest: whole_blacklist intro: whole_numeral)

lemma whole_rate: "fst (RateLimiter_inspect clk src n syn rl) = Some s \<Longrightarrow> whole_score s"
  by (auto simp: RateLimiter_inspect_def Let_def split_beta det_defs split: if_splits)

lemma whole_scan: "fst (PortScanDetector_inspect h clk src p d) = Some s \<Longrightarrow> whole_score s"
  by (auto simp: scan_inspect_defs Let_def split_beta det_defs split: if_splits)

lemma whole_syn: "s \<in> set (fst (SynFloodDetector_inspect clk src dst sp dp flags d)) \<Longrightarrow> whole_score s"
  by (auto simp: syn_inspect_defs Let_def det_defs split: if_splits)

lemma signature_scores: "(\<lambda>(_, _, score). score) ` set SIGNATURES \<subseteq> {70, 35, 40}"
  by (simp add: SIGNATURES_def det_defs)

lemma whole_signature:
  assumes "reports payload s" shows "whole_score s"
proof -
  have "sig_score s \<in> (\<lambda>(_, _, score). score) ` set SIGNATURES"
    using assms unfolding reports_def by force
  with signature_scores have "sig_score s = 70 \<or> sig_score s = 35 \<or> sig_score s = 40" by blast
  then show ?thesis by (auto intro: whole_numeral)
qed

lemma whole_payload:
  "ac_ok ac \<Longrightarrow> PayloadScanner_scan_all ac payload PayloadScanner_new = Some sigs \<Longrightarrow> s \<in> set sigs \<Longrightarrow> whole_score s"
  by (rule whole_signature [OF scan_all_reports])

lemma whole_name: "s \<in> set (DnsDetector_inspect_name lc lg n) \<Longrightarrow> whole_score s"
  by (auto simp: DnsDetector_inspect_name_def label_signals_def Let_def det_defs split: if_splits)

lemma whole_dns_payload:
  "DnsDetector_inspect_payload lc lg payload = Some sigs \<Longrightarrow> s \<in> set sigs \<Longrightarrow> whole_score s"
proof -
  have f: "f32 50 = 50" by (rule f32_numeral) simp
  assume "DnsDetector_inspect_payload lc lg payload = Some sigs" "s \<in> set sigs"
  then show ?thesis
    using whole_name [of s lc lg]
    by (auto simp: DnsDetector_inspect_payload_def tunnel_signals_def bind_eq_Some_conv Let_def det_defs f
          split: option.splits if_splits)
qed

lemma icmp_signals_cases:
  "icmp_signals tm = [] \<or> (\<exists>d. icmp_signals tm = [\<lparr>sig_name = ''icmp_unusual_type'', sig_score = 25, sig_detail = d\<rparr>])"
  unfolding icmp_signals_def by (cases "icmp_type tm"; cases "icmp_code tm") simp_all

lemma whole_icmp: "s \<in> set (icmp_signals tm) \<Longrightarrow> whole_score s"
  using icmp_signals_cases [of tm] by auto

lemma whole_frag: "s \<in> set (frag_signals tm) \<Longrightarrow> whole_score s"
  by (auto simp: frag_signals_def Let_def split: if_splits)

lemma whole_trunc: "s \<in> set (trunc_signals pkt) \<Longrightarrow> whole_score s"
  by (auto simp: trunc_signals_def split: if_splits)

lemma whole_port: "s \<in> set (port_signals b tm) \<Longrightarrow> whole_score s"
  by (auto simp: port_signals_def det_defs split: option.splits if_splits)

lemma whole_vlan: "s \<in> set (vlan_signals tm) \<Longrightarrow> whole_score s"
  by (auto simp: vlan_signals_def split: option.splits if_splits)

lemma whole_geo: "geo_signal c b tm = Some s \<Longrightarrow> whole_score s"
  by (auto simp: geo_signal_def det_defs split: option.splits if_splits)

lemma opt_list_mem [simp]: "x \<in> set (opt_list o') \<longleftrightarrow> o' = Some x"
  by (cases o') auto

lemma syn_inspection_whole: "s \<in> set (fst (syn_inspection clk tm e)) \<Longrightarrow> whole_score s"
  using whole_syn by (auto simp: syn_inspection_def split: option.splits)

lemma findings_with_whole:
  assumes "ac_ok (env_ac env)" and "e_payload e = PayloadScanner_new" and "\<forall>s \<in> set S. whole_score s"
    and "(r, s) \<in> set (findings_with env clk pkt tm e S)"
  shows "whole_score s"
proof -
  have pay: "whole_score s" if "s \<in> set (payload_hits env pkt tm e)"
  proof -
    obtain sigs where "PayloadScanner_scan_all (env_ac env) (payload_of pkt tm) PayloadScanner_new = Some sigs"
      by (rule scan_all_total [OF assms(1)])
    with that whole_payload [OF assms(1)] assms(2) show ?thesis
      by (auto simp: payload_hits_def split: if_splits)
  qed
  have dns: "whole_score s" if "(r, s) \<in> set (dns_findings env pkt tm e)"
  proof -
    obtain sigs where "DnsDetector_inspect_payload (env_lc env) (env_lg env) (payload_of pkt tm) = Some sigs"
      using inspect_payload_total by blast
    with that whole_name whole_dns_payload whole_listed(2) show ?thesis
      by (auto simp: dns_findings_def split: option.splits if_splits)
  qed
  have rate: "whole_score s" if "fst (rate_inspection clk pkt tm e) = Some s"
    using that whole_rate by (auto simp: rate_inspection_def)
  have scan: "whole_score s" if "fst (scan_inspection env clk tm e) = Some s"
    using that whole_scan by (auto simp: scan_inspection_def split: option.splits)
  have quiet: "whole_score s"
    if "s \<in> set (icmp_signals tm @ frag_signals tm @ trunc_signals pkt) \<or>
        s \<in> set (port_signals (e_baseline e) tm @ vlan_signals tm)"
    using that whole_icmp whole_frag whole_trunc whole_port whole_vlan by auto
  have listed: "whole_score s" if "(r, s) \<in> set (blacklist_findings env e tm)"
    using that whole_listed(1) by (auto simp: blacklist_findings_def)
  from assms(4) show ?thesis
    unfolding findings_with_def set_append Un_iff tagged_simps(4) opt_list_mem image_iff
    using pay dns rate scan assms(3) quiet listed whole_geo by auto
qed

lemma total_of_result_with:
  assumes "ac_ok (env_ac env)" and "e_payload e = PayloadScanner_new" and "\<forall>s \<in> set S. whole_score s"
  shows "total_score (packet_result_with env clk pkt tm e S) =
     min (score_sum (map snd (findings_with env clk pkt tm e S)) + bonus (map snd (findings_with env clk pkt tm e S))) 100"
    and "nat_scores (map snd (findings_with env clk pkt tm e S))"
proof -
  show "nat_scores (map snd (findings_with env clk pkt tm e S))"
    using findings_with_whole [OF assms] unfolding nat_scores_def whole_score_def by fastforce
  then show "total_score (packet_result_with env clk pkt tm e S) =
     min (score_sum (map snd (findings_with env clk pkt tm e S)) + bonus (map snd (findings_with env clk pkt tm e S))) 100"
    unfolding packet_result_with_def by (rule total_score_capped)
qed

lemma total_ge_finding_with:
  assumes "ac_ok (env_ac env)" and "e_payload e = PayloadScanner_new" and "\<forall>s \<in> set S. whole_score s"
    and "(r, s) \<in> set (findings_with env clk pkt tm e S)"
  shows "sig_score s \<le> total_score (packet_result_with env clk pkt tm e S)"
proof -
  let ?S = "map snd (findings_with env clk pkt tm e S)"
  have "sig_score s \<le> score_sum ?S"
    using assms(4) by (intro score_sum_member total_of_result_with(2) [OF assms(1-3)]) force
  moreover have "sig_score s \<le> 100"
    using findings_with_whole [OF assms] by (auto simp: whole_score_def)
  ultimately show ?thesis
    unfolding total_of_result_with(1) [OF assms(1-3)] using bonus_nonneg [of ?S] by simp
qed

lemma total_bounds_with:
  assumes "ac_ok (env_ac env)" and "e_payload e = PayloadScanner_new" and "\<forall>s \<in> set S. whole_score s"
  shows "0 \<le> total_score (packet_result_with env clk pkt tm e S)"
    and "total_score (packet_result_with env clk pkt tm e S) \<le> 100"
  using score_sum_nonneg [OF total_of_result_with(2) [OF assms]] bonus_nonneg
  by (simp_all add: total_of_result_with(1) [OF assms] add_nonneg_nonneg)

lemma findings_whole:
  assumes "ac_ok (env_ac env)" and "e_payload e = PayloadScanner_new" and "(r, s) \<in> set (findings env clk pkt tm e)"
  shows "whole_score s"
  by (rule findings_with_whole [OF assms(1,2) _ assms(3) [unfolded findings_def]]) (blast intro: syn_inspection_whole)

lemma total_of_result:
  assumes "ac_ok (env_ac env)" and "e_payload e = PayloadScanner_new"
  shows "total_score (packet_result env clk pkt tm e) =
     min (score_sum (map snd (findings env clk pkt tm e)) + bonus (map snd (findings env clk pkt tm e))) 100"
  unfolding packet_result_with findings_def
  by (rule total_of_result_with(1) [OF assms]) (blast intro: syn_inspection_whole)

lemma total_ge_finding:
  assumes "ac_ok (env_ac env)" and "e_payload e = PayloadScanner_new" and "(r, s) \<in> set (findings env clk pkt tm e)"
  shows "sig_score s \<le> total_score (packet_result env clk pkt tm e)"
  unfolding packet_result_with
  by (rule total_ge_finding_with [OF assms(1,2) _ assms(3) [unfolded findings_def]]) (blast intro: syn_inspection_whole)

section \<open>The result of an analysis\<close>

lemma mset_signals [simp]: "mset (signals (IdsResult_from_signals sigs f)) = mset sigs"
  by simp

lemma score_sum_mset: "mset xs = mset ys \<Longrightarrow> score_sum xs = score_sum ys"
  unfolding score_sum_def by (metis mset_map sum_mset_sum_list)

lemma result_signals:
  "mset (signals (packet_result env clk pkt tm e)) = mset (map snd (findings env clk pkt tm e))"
  "set (signals (packet_result env clk pkt tm e)) = snd ` set (findings env clk pkt tm e)"
  "length (signals (packet_result env clk pkt tm e)) = length (findings env clk pkt tm e)"
  by (simp_all add: packet_result_def)

lemma total_exact:
  fixes env clk pkt tm e
  assumes "ac_ok (env_ac env)" and "e_payload e = PayloadScanner_new"
  defines "r \<equiv> packet_result env clk pkt tm e"
  shows "total_score r = min (score_sum (signals r) + bonus (signals r)) 100"
proof -
  have "score_sum (signals r) = score_sum (map snd (findings env clk pkt tm e))"
    unfolding r_def by (rule score_sum_mset) (rule result_signals)
  moreover have "bonus (signals r) = bonus (map snd (findings env clk pkt tm e))"
    by (simp add: bonus_def r_def result_signals)
  ultimately show ?thesis using total_of_result [OF assms(1,2)] by (simp add: r_def)
qed

lemma total_bounds:
  assumes "ac_ok (env_ac env)" and "e_payload e = PayloadScanner_new"
  shows "0 \<le> total_score (packet_result env clk pkt tm e)" and "total_score (packet_result env clk pkt tm e) \<le> 100"
  unfolding packet_result_with
  by (rule total_bounds_with [OF assms], blast intro: syn_inspection_whole)+

lemma total_zero:
  assumes "ac_ok (env_ac env)" and "e_payload e = PayloadScanner_new"
  shows "total_score (packet_result env clk pkt tm e) = 0 \<longleftrightarrow> findings env clk pkt tm e = []"
proof (cases "findings env clk pkt tm e")
  case Nil
  then show ?thesis by (simp add: total_of_result [OF assms] score_sum_def bonus_def)
next
  case (Cons f F)
  obtain r s where f: "f = (r, s)" by (cases f)
  then have "(r, s) \<in> set (findings env clk pkt tm e)" using Cons by simp
  from total_ge_finding [OF assms this] findings_whole [OF assms this] Cons show ?thesis
    by (auto simp: whole_score_def)
qed

lemma first_reason_with:
  "first_reason (findings_with env clk pkt tm e S) =
     (if blacklist_findings env e tm \<noteq> [] then 7
      else if fst (rate_inspection clk pkt tm e) \<noteq> None then 6
      else if fst (scan_inspection env clk tm e) \<noteq> None then 1
      else if S \<noteq> [] then 2
      else if geo_signal (country_code env (src_ip tm)) (e_baseline e) tm \<noteq> None then 4
      else if payload_hits env pkt tm e \<noteq> [] then 5
      else first_reason (dns_findings env pkt tm e))"
proof -
  have nil: "opt_list x = [] \<longleftrightarrow> x = None" for x :: "signal option" by (cases x) simp_all
  have bl: "first_reason (blacklist_findings env e tm) = (if blacklist_findings env e tm = [] then 0 else 7)"
    by (simp add: blacklist_findings_def first_reason_tagged)
  show ?thesis
    unfolding findings_with_def first_reason_append bl first_reason_tagged by (simp add: nil)
qed

lemma first_reason_findings:
  "first_reason (findings env clk pkt tm e) =
     (if blacklist_findings env e tm \<noteq> [] then 7
      else if fst (rate_inspection clk pkt tm e) \<noteq> None then 6
      else if fst (scan_inspection env clk tm e) \<noteq> None then 1
      else if fst (syn_inspection clk tm e) \<noteq> [] then 2
      else if geo_signal (country_code env (src_ip tm)) (e_baseline e) tm \<noteq> None then 4
      else if payload_hits env pkt tm e \<noteq> [] then 5
      else first_reason (dns_findings env pkt tm e))"
  unfolding findings_def by (rule first_reason_with)

lemma dns_payload_names:
  assumes "query_of pkt tm = Some n"
  obtains t where "DnsDetector_inspect_payload lc lg (payload_of pkt tm) = Some (DnsDetector_inspect_name lc lg n @ t)"
proof -
  have q: "extract_dns_query_name (payload_of pkt tm) = Some (Some n)" using query_payload [OF assms] by blast
  with extract_long tunnel_total obtain t where "tunnel_signals (payload_of pkt tm) = Some t" by blast
  with q that show ?thesis by (simp add: DnsDetector_inspect_payload_def)
qed

lemma first_reason_dns:
  "first_reason (dns_findings env pkt tm e) =
     (case query_of pkt tm of
        None \<Rightarrow> 0
      | Some n \<Rightarrow>
          if Blacklist_check_domain (env_lc env) n (e_blacklist e) \<noteq> None then 7
          else if the (DnsDetector_inspect_payload (env_lc env) (env_lg env) (payload_of pkt tm)) \<noteq> [] then 3 else 0)"
proof (cases "query_of pkt tm")
  case (Some n)
  obtain t where "DnsDetector_inspect_payload (env_lc env) (env_lg env) (payload_of pkt tm) =
      Some (DnsDetector_inspect_name (env_lc env) (env_lg env) n @ t)"
    by (rule dns_payload_names [OF Some])
  then show ?thesis
    by (cases "Blacklist_check_domain (env_lc env) n (e_blacklist e)")
      (auto simp: dns_findings_def Some first_reason_append first_reason_tagged first_reason_Cons)
qed (simp add: dns_findings_def)

section \<open>What is learned\<close>

definition learn_events :: "'b env \<Rightarrow> raw_packet \<Rightarrow> transport_meta \<Rightarrow> baseline_event list" where
  "learn_events env pkt tm =
     map SeePort (opt_list (dst_port tm)) @ [SeeIp (dst_ip tm), SeeProto (protocol tm)] @
     map SeeCountry (opt_list (country_code env (src_ip tm))) @ map SeeDns (opt_list (query_of pkt tm))"

lemma update_is_run:
  "update_baseline (env_lc env) tm (country_code env (src_ip tm)) (query_of pkt tm) b =
     fst (baseline_run js (env_lc env) (learn_events env pkt tm) (b, d))"
  by (simp add: update_baseline_def learn_events_def baseline_run_def Let_def split: option.split)

section \<open>Runs of the engine\<close>

datatype engine_event = Analyze engine_clock raw_packet | SweepTick bool bool sweep_clock

fun engine_run ::
  "json_api \<Rightarrow> 'b env \<Rightarrow> engine_event list \<Rightarrow> 'b engine \<times> disk \<Rightarrow> (ids_result list \<times> 'b engine \<times> disk) panics" where
  "engine_run js env [] (e, d) = Some ([], e, d)"
| "engine_run js env (Analyze clk pkt # es) (e, d) = do {
     (r, e') \<leftarrow> IdsEngine_analyze env clk pkt e;
     (rs, st) \<leftarrow> engine_run js env es (e', d);
     Some (r # rs, st)
   }"
| "engine_run js env (SweepTick ok1 ok2 clk # es) (e, d) =
     engine_run js env es (sweeper_tick js ok1 ok2 clk (e, d))"

definition engine_inv :: "'b engine \<Rightarrow> bool" where
  "engine_inv e \<longleftrightarrow> e_payload e = PayloadScanner_new \<and> rate_inv (e_rate_limiter e) \<and>
     scan_std (e_port_scan e) \<and> syn_std (e_syn_flood e)"

lemma engine_inv_next: "engine_inv e \<Longrightarrow> engine_inv (next_engine env clk pkt tm e)"
proof -
  assume e: "engine_inv e"
  have "rate_inv (snd (rate_inspection clk pkt tm e))"
    using e by (simp add: rate_inspection_def rate_inv_inspect engine_inv_def)
  moreover have "scan_std (snd (scan_inspection env clk tm e))"
    using e by (simp add: scan_inspection_def scan_std_obs engine_inv_def split: option.split)
  moreover have "syn_std (snd (syn_inspection clk tm e))"
    using e by (simp add: syn_inspection_def syn_std_inspect engine_inv_def split: option.split)
  ultimately show ?thesis using e by (simp add: engine_inv_def next_engine_def)
qed

lemma proto_ok_next: "proto_ok (e_baseline e) \<Longrightarrow> proto_ok (e_baseline (next_engine env clk pkt tm e))"
  using run_proto_ok [of "(e_baseline e, Map.empty)" undefined "env_lc env" "learn_events env pkt tm"]
  by (simp add: next_engine_def update_is_run [where js = undefined and d = Map.empty])

lemma engine_inv_tick: "engine_inv e \<Longrightarrow> engine_inv (fst (sweeper_tick js ok1 ok2 clk (e, d)))"
  by (simp add: sweeper_tick_def engine_inv_def split_beta Let_def scan_std_sweep syn_std_sweep rate_inv_sweep)

lemma proto_ok_tick: "proto_ok (e_baseline e) \<Longrightarrow> proto_ok (e_baseline (fst (sweeper_tick js ok1 ok2 clk (e, d))))"
  using step_proto_ok [of "(e_baseline e, d)" js id "Tick ok1 (sw_elapsed clk) (sw_finish clk)"]
  by (simp add: sweeper_tick_def split_beta Let_def)

lemma engine_inv_new: "engine_inv (IdsEngine_new b bl)"
  by (simp add: engine_inv_def IdsEngine_new_def rate_inv_new scan_std_new syn_std_new)

lemma analyze_step:
  assumes "ac_ok (env_ac env)" and "engine_inv e"
  shows "\<exists>r e'. IdsEngine_analyze env clk pkt e = Some (r, e') \<and> engine_inv e'"
proof (cases "transport pkt")
  case None
  then show ?thesis using assms(2) by (simp add: IdsEngine_analyze_def)
next
  case (Some tm)
  with assms analyze_findings [OF assms(1) _ Some] engine_inv_next [OF assms(2)] show ?thesis
    by (simp add: engine_inv_def)
qed

lemma analyze_proto:
  assumes "ac_ok (env_ac env)" and "engine_inv e" and "IdsEngine_analyze env clk pkt e = Some (r, e')"
    and "proto_ok (e_baseline e)"
  shows "proto_ok (e_baseline e')"
proof (cases "transport pkt")
  case None
  then show ?thesis using assms(3,4) by (simp add: IdsEngine_analyze_def)
next
  case (Some tm)
  with assms analyze_findings [OF assms(1) _ Some, of e clk] proto_ok_next [OF assms(4)] show ?thesis
    by (auto simp: engine_inv_def)
qed

lemma engine_run_total:
  assumes "ac_ok (env_ac env)"
  shows "engine_inv e \<Longrightarrow> \<exists>rs e' d'. engine_run js env es (e, d) = Some (rs, e', d') \<and> engine_inv e' \<and>
     (proto_ok (e_baseline e) \<longrightarrow> proto_ok (e_baseline e'))"
proof (induction es arbitrary: e d)
  case (Cons ev es)
  show ?case
  proof (cases ev)
    case (Analyze clk pkt)
    obtain r e' where a: "IdsEngine_analyze env clk pkt e = Some (r, e')" "engine_inv e'"
      using analyze_step [OF assms Cons.prems] by blast
    with Cons.IH [of e' d] Analyze analyze_proto [OF assms Cons.prems a(1)] show ?thesis by auto
  next
    case (SweepTick ok1 ok2 clk)
    obtain e' d' where t: "sweeper_tick js ok1 ok2 clk (e, d) = (e', d')" by force
    with engine_inv_tick [OF Cons.prems, of js ok1 ok2 clk d] proto_ok_tick [of e js ok1 ok2 clk d]
      Cons.IH [of e' d'] SweepTick show ?thesis by auto
  qed
qed simp

section \<open>Properties\<close>

text \<open>C2 (safety). The engine never fails: whatever the file of the saved baseline holds, for any
  sequence of packets, captured with any bytes and any header fields, and of sweeper rounds, on any
  clock, every analysis returns a result; in the state that is reached the detectors still have
  their limits and distinct keys and token counts between 0 and 1000, and the protocol
  distribution is between 0 and 1 if it was so when it was loaded.\<close>

theorem engine_never_panics:
  assumes "ac_ok (env_ac env)"
  shows "\<exists>rs e' d'. engine_run js env es
     (IdsEngine_new (Baseline_new js disk now path) bl, d) = Some (rs, e', d') \<and> engine_inv e' \<and>
     (proto_ok (Baseline_new js disk now path) \<longrightarrow> proto_ok (e_baseline e'))"
  using engine_run_total [OF assms engine_inv_new, of js es "Baseline_new js disk now path" bl d]
  by (simp add: IdsEngine_new_def)

definition demo_env :: "u8 set env" where
  "demo_env = \<lparr>env_bloom = low_byte_bloom, env_ac = naive_ac, env_hash64 = (\<lambda>_. 0),
     env_lc = map ascii_lower, env_lg = (\<lambda>_. 0), country_code = (\<lambda>_. None)\<rparr>"

lemma demo_env_ok: "ac_ok (env_ac demo_env)"
  by (simp add: demo_env_def naive_ac_ok)

definition demo_meta :: transport_meta where
  "demo_meta = \<lparr>src_ip = V4 10 0 0 66, dst_ip = V4 10 0 0 1, src_port = Some 4000, dst_port = Some 53,
     protocol = 17, tcp_flags = None, ttl = 64, ip_flags = 0, ip_frag_offset = 0, icmp_type = None,
     icmp_code = None, eth_src_mac = None, vlan_id = None, payload_offset = 0\<rparr>"

definition demo_packet :: raw_packet where
  "demo_packet = \<lparr>timestamp = 0, pkt_data = [], orig_len = 60, cap_len = 60, interface = [],
     link_type = Ethernet, transport = Some demo_meta, is_truncated = False, packet_id = 0,
     ids_score = 0, ids_flag = 0\<rparr>"

definition demo_engine :: "u8 set engine" where
  "demo_engine = IdsEngine_new (Baseline_new demo_json (\<lambda>_. None) 0 None)
     (Blacklist_add_ip low_byte_bloom (u32_from_ipv4 10 0 0 66) (Blacklist_new low_byte_bloom))"

lemma demo_engine_payload: "e_payload demo_engine = PayloadScanner_new"
  by (simp add: demo_engine_def IdsEngine_new_def)

lemma demo_engine_inv: "engine_inv demo_engine"
  unfolding demo_engine_def
  by (rule engine_inv_new)

lemma demo_transport: "transport demo_packet = Some demo_meta"
  by (simp add: demo_packet_def)

definition demo_clock :: engine_clock where
  "demo_clock = \<lparr>ec_rate = rate_clock_at 0, ec_scan = \<lparr>sc_ports = 0, sc_srcs = 0\<rparr>,
     ec_syn = \<lparr>yc_new = 0, yc_elapsed = 0, yc_reset = 0, yc_insert = 0\<rparr>\<rparr>"

definition demo_sweep :: sweep_clock where
  "demo_sweep = \<lparr>sw_scan = 0, sw_syn = 0, sw_rate = 0, sw_elapsed = 0, sw_finish = 0\<rparr>"

theorem engine_never_panics_witness:
  "\<exists>rs e' d'. engine_run demo_json demo_env
     [Analyze demo_clock demo_packet, SweepTick True False demo_sweep, Analyze demo_clock demo_packet]
     (IdsEngine_new (Baseline_new demo_json (\<lambda>_. None) 0 None) (Blacklist_new low_byte_bloom), \<lambda>_. None) =
     Some (rs, e', d') \<and> engine_inv e' \<and> proto_ok (e_baseline e')"
proof -
  have "proto_ok (Baseline_new demo_json (\<lambda>_. None) 0 None)"
    by (simp add: proto_ok_def Baseline_new_def BaselineState_default_def all_vals_def)
  with engine_never_panics [OF demo_env_ok, of demo_json _ "\<lambda>_. None" 0 None "Blacklist_new low_byte_bloom" "\<lambda>_. None"]
  show ?thesis by blast
qed

text \<open>C3 (functional). The score of a packet is exact: whatever the detectors' state, the total is the
  sum of its signals' scores plus 10 if there are at least two, capped at 100, with no rounding
  error, however many signals there are; it is 0 only for a packet without signals, the
  severity is its band and the signals come in descending order of score.\<close>

theorem analyze_score_exact:
  assumes "ac_ok (env_ac env)" and "e_payload e = PayloadScanner_new"
  shows "\<exists>r e'. IdsEngine_analyze env clk pkt e = Some (r, e') \<and>
     total_score r = min (sum_list (map sig_score (signals r)) + (if 2 \<le> length (signals r) then 10 else 0)) 100 \<and>
     (total_score r = 0 \<longleftrightarrow> signals r = []) \<and>
     severity r = Severity_from_score (total_score r) \<and>
     sorted_wrt (\<lambda>a b. sig_score b \<le> sig_score a) (signals r)"
proof (cases "transport pkt")
  case None
  then show ?thesis
    by (simp add: IdsEngine_analyze_def sum_f32_def IdsResult_from_signals_def Let_def)
next
  case (Some tm)
  let ?r = "packet_result env clk pkt tm e"
  have "severity ?r = Severity_from_score (total_score ?r)"
    unfolding packet_result_def by (rule from_signals_sel(2))
  moreover have "sorted_wrt (\<lambda>a b. sig_score b \<le> sig_score a) (signals ?r)"
    unfolding packet_result_def from_signals_sel(4) by (rule sort_desc)
  moreover have "signals ?r = [] \<longleftrightarrow> findings env clk pkt tm e = []"
    using result_signals(3) [of env clk pkt tm e] by (metis length_0_conv)
  ultimately show ?thesis
    using analyze_findings [OF assms Some] total_exact [OF assms] total_zero [OF assms]
    by (simp add: bonus_def score_sum_def)
qed

theorem analyze_score_exact_witness:
  "\<exists>r e'. IdsEngine_analyze demo_env demo_clock demo_packet demo_engine = Some (r, e') \<and>
     total_score r = min (sum_list (map sig_score (signals r)) + (if 2 \<le> length (signals r) then 10 else 0)) 100 \<and>
     severity r = Severity_from_score (total_score r)"
  using analyze_score_exact [OF demo_env_ok demo_engine_payload, of demo_clock demo_packet] by blast

lemma blacklisted_finding:
  assumes "Blacklist_check_ip (env_bloom env) (src_ip tm) (e_blacklist e) \<noteq> None \<or>
     Blacklist_check_ip (env_bloom env) (dst_ip tm) (e_blacklist e) \<noteq> None"
  obtains s where "(7, s) \<in> set (findings env clk pkt tm e)" and "sig_score s = 90"
    and "blacklist_findings env e tm \<noteq> []" and "(7, s) \<in> set (blacklist_findings env e tm)"
proof -
  obtain ip s where s: "Blacklist_check_ip (env_bloom env) ip (e_blacklist e) = Some s" "ip = src_ip tm \<or> ip = dst_ip tm"
    using assms by blast
  then have mem: "(7, s) \<in> set (blacklist_findings env e tm)" by (auto simp: blacklist_findings_def)
  then have "blacklist_findings env e tm \<noteq> []" by auto
  moreover have "(7, s) \<in> set (findings env clk pkt tm e)" using mem by (simp add: findings_defs)
  ultimately show ?thesis using that whole_blacklist(1) [OF s(1)] mem by blast
qed

text \<open>C4 (safety). Blacklisted traffic is always an alert: a packet from or to a blacklisted address
  scores at least 90, is at least \<open>ALERT\<close> and carries the blacklist reason, in either phase;
  and once learning is over it teaches the baseline nothing.\<close>

theorem blacklisted_traffic_alerts:
  assumes "ac_ok (env_ac env)" and "e_payload e = PayloadScanner_new" and "transport pkt = Some tm"
    and "Blacklist_check_ip (env_bloom env) (src_ip tm) (e_blacklist e) \<noteq> None \<or>
      Blacklist_check_ip (env_bloom env) (dst_ip tm) (e_blacklist e) \<noteq> None"
  shows "\<exists>r e'. IdsEngine_analyze env clk pkt e = Some (r, e') \<and> 90 \<le> total_score r \<and>
     Alert \<le> severity r \<and> flag_reason r = 7 \<and>
     (bl_phase (e_baseline e) = Refinement \<longrightarrow> e_baseline e' = e_baseline e)"
proof -
  let ?r = "packet_result env clk pkt tm e"
  obtain s where s: "(7, s) \<in> set (findings env clk pkt tm e)" "sig_score s = 90" "blacklist_findings env e tm \<noteq> []"
    by (rule blacklisted_finding [OF assms(4)])
  have total: "90 \<le> total_score ?r" using total_ge_finding [OF assms(1,2) s(1)] s(2) by simp
  have "Severity_from_score 90 \<le> Severity_from_score (total_score ?r)" using total by (rule from_score_mono)
  moreover have "severity ?r = Severity_from_score (total_score ?r)"
    unfolding packet_result_def by (rule from_signals_sel(2))
  ultimately have "Alert \<le> severity ?r" by (simp add: Severity_from_score_def det_defs)
  moreover have "flag_reason ?r = 7"
    using s(3) first_reason_findings [of env clk pkt tm e] by (simp add: packet_result_def)
  ultimately show ?thesis
    using analyze_findings [OF assms(1-3)] total by (auto simp: next_engine_def learns_def)
qed

theorem blacklisted_traffic_alerts_witness:
  "\<exists>r e'. IdsEngine_analyze demo_env demo_clock demo_packet demo_engine = Some (r, e') \<and> 90 \<le> total_score r"
proof -
  have "Blacklist_check_ip (env_bloom demo_env) (src_ip demo_meta) (e_blacklist demo_engine) \<noteq> None"
    by (simp add: demo_env_def demo_meta_def demo_engine_def IdsEngine_new_def low_byte_bloom_def
        Blacklist_add_ip_def Let_def)
  then show ?thesis
    using blacklisted_traffic_alerts [OF demo_env_ok demo_engine_payload demo_transport] by blast
qed

text \<open>C28 (functional). The flag reason is the one of the first section, in the order of \<open>analyze\<close>, that
  found something: blacklist 7, rate 6, port scan 1, TCP flags 2, geography 4, payload 5,
  blacklisted domain 7, DNS anomaly 3.  It is not the reason of the highest-scoring signal: a rate
  signal of 40 takes precedence over a payload signature of 70.\<close>

theorem analyze_flag_reason:
  assumes "ac_ok (env_ac env)" and "e_payload e = PayloadScanner_new" and "transport pkt = Some tm"
  shows "\<exists>r e'. IdsEngine_analyze env clk pkt e = Some (r, e') \<and> flag_reason r =
     (if Blacklist_check_ip (env_bloom env) (src_ip tm) (e_blacklist e) \<noteq> None \<or>
         Blacklist_check_ip (env_bloom env) (dst_ip tm) (e_blacklist e) \<noteq> None then 7
      else if fst (rate_inspection clk pkt tm e) \<noteq> None then 6
      else if fst (scan_inspection env clk tm e) \<noteq> None then 1
      else if fst (syn_inspection clk tm e) \<noteq> [] then 2
      else if geo_signal (country_code env (src_ip tm)) (e_baseline e) tm \<noteq> None then 4
      else if payload_hits env pkt tm e \<noteq> [] then 5
      else (case query_of pkt tm of
              None \<Rightarrow> 0
            | Some n \<Rightarrow>
                if Blacklist_check_domain (env_lc env) n (e_blacklist e) \<noteq> None then 7
                else if DnsDetector_inspect_payload (env_lc env) (env_lg env) (payload_of pkt tm) \<noteq> Some [] then 3
                else 0))"
proof -
  have nil: "opt_list x = [] \<longleftrightarrow> x = None" for x :: "signal option" by (cases x) simp_all
  have bl: "blacklist_findings env e tm \<noteq> [] \<longleftrightarrow>
      Blacklist_check_ip (env_bloom env) (src_ip tm) (e_blacklist e) \<noteq> None \<or>
      Blacklist_check_ip (env_bloom env) (dst_ip tm) (e_blacklist e) \<noteq> None"
    by (simp add: blacklist_findings_def nil)
  have dns: "the (DnsDetector_inspect_payload (env_lc env) (env_lg env) (payload_of pkt tm)) \<noteq> [] \<longleftrightarrow>
      DnsDetector_inspect_payload (env_lc env) (env_lg env) (payload_of pkt tm) \<noteq> Some []"
    using inspect_payload_total [of "env_lc env" "env_lg env" "payload_of pkt tm"] by auto
  have "flag_reason (packet_result env clk pkt tm e) = first_reason (findings env clk pkt tm e)"
    by (simp add: packet_result_def)
  then show ?thesis
    unfolding analyze_findings [OF assms] first_reason_findings first_reason_dns bl dns by simp
qed

theorem analyze_flag_reason_witness:
  "\<exists>r e'. IdsEngine_analyze demo_env demo_clock demo_packet demo_engine = Some (r, e') \<and> flag_reason r = 7"
proof -
  have "Blacklist_check_ip (env_bloom demo_env) (src_ip demo_meta) (e_blacklist demo_engine) \<noteq> None"
    by (simp add: demo_env_def demo_meta_def demo_engine_def IdsEngine_new_def low_byte_bloom_def
        Blacklist_add_ip_def Let_def)
  then show ?thesis
    using analyze_flag_reason [OF demo_env_ok demo_engine_payload demo_transport, of demo_clock] by simp
qed

text \<open>C5 (invariant). The baseline learns from a packet all or nothing: in \<open>Learning\<close>, and otherwise if
  the total is below 30, it takes in exactly the destination port and address, the protocol, the
  country and the query name; a packet that scores 30 or more in \<open>Refinement\<close> leaves it
  untouched.\<close>

theorem analyze_learning:
  assumes "ac_ok (env_ac env)" and "e_payload e = PayloadScanner_new" and "transport pkt = Some tm"
  shows "\<exists>r e'. IdsEngine_analyze env clk pkt e = Some (r, e') \<and>
     e_baseline e' = (if bl_phase (e_baseline e) = Learning \<or> total_score r < 30
       then fst (baseline_run js (env_lc env) (learn_events env pkt tm) (e_baseline e, d))
       else e_baseline e)"
  unfolding analyze_findings [OF assms]
  by (simp add: next_engine_def learns_def update_is_run [of env tm pkt "e_baseline e" js d])

theorem analyze_learning_witness:
  "\<exists>r e'. IdsEngine_analyze demo_env demo_clock demo_packet demo_engine = Some (r, e') \<and>
     Baseline_is_known_port 53 (e_baseline e')"
proof -
  have "bl_phase (e_baseline demo_engine) = Learning"
    by (simp add: demo_engine_def IdsEngine_new_def Baseline_new_def BaselineState_default_def Let_def)
  moreover have "SeePort 53 \<in> set (learn_events demo_env demo_packet demo_meta)"
    by (simp add: learn_events_def demo_meta_def)
  ultimately show ?thesis
    using analyze_learning [OF demo_env_ok demo_engine_payload demo_transport, of demo_clock demo_json "\<lambda>_. None"]
    by (auto simp: run_known)
qed

text \<open>C39 (functional). The name checks of a DNS query are run twice: every signal they raise for the
  name is in the result at least once, and at least twice unless the baseline knows the name, because the
  inspection of the payload repeats them.  So what is suspicious about a name is reported also
  when the baseline knows it, although the section means to skip known names.\<close>

theorem analyze_dns_repeated:
  assumes "ac_ok (env_ac env)" and "e_payload e = PayloadScanner_new" and "transport pkt = Some tm"
    and "query_of pkt tm = Some n"
  shows "\<exists>r e'. IdsEngine_analyze env clk pkt e = Some (r, e') \<and>
     (let names = mset (DnsDetector_inspect_name (env_lc env) (env_lg env) n)
      in (if Baseline_is_known_dns (env_lc env) n (e_baseline e) then names else names + names)
           \<subseteq># mset (signals r))"
proof -
  obtain t where t: "DnsDetector_inspect_payload (env_lc env) (env_lg env) (payload_of pkt tm) =
      Some (DnsDetector_inspect_name (env_lc env) (env_lg env) n @ t)"
    by (rule dns_payload_names [OF assms(4)])
  have "mset (map snd (dns_findings env pkt tm e)) \<subseteq># mset (map snd (findings env clk pkt tm e))"
    by (simp add: findings_defs)
  moreover have "(let names = mset (DnsDetector_inspect_name (env_lc env) (env_lg env) n)
      in (if Baseline_is_known_dns (env_lc env) n (e_baseline e) then names else names + names))
      \<subseteq># mset (map snd (dns_findings env pkt tm e))"
    by (simp add: dns_findings_def assms(4) t Let_def)
  ultimately show ?thesis
    using analyze_findings [OF assms(1-3)] result_signals(1) [of env clk pkt tm e]
    by (auto simp: Let_def intro: subset_mset.trans)
qed

definition dns_meta :: transport_meta where
  "dns_meta = demo_meta\<lparr>payload_offset := 1\<rparr>"

definition dns_packet :: raw_packet where
  "dns_packet = demo_packet\<lparr>transport := Some dns_meta,
     pkt_data := [0, 7, 7, 1, 0, 0, 1, 0, 0, 0, 0, 0, 0, 1, 0x61, 3, 0x78, 0x79, 0x7A, 0]\<rparr>"

lemma dns_packet_query: "query_of dns_packet dns_meta = Some (str ''a.xyz'')"
  by code_simp

theorem analyze_dns_repeated_witness:
  "\<exists>r e'. IdsEngine_analyze demo_env demo_clock dns_packet demo_engine = Some (r, e') \<and> 2 \<le> length (signals r)"
proof -
  let ?N = "DnsDetector_inspect_name (env_lc demo_env) (env_lg demo_env) (str ''a.xyz'')"
  have "transport dns_packet = Some dns_meta" by (simp add: dns_packet_def)
  from analyze_dns_repeated [OF demo_env_ok demo_engine_payload this dns_packet_query]
  obtain r e' where r: "IdsEngine_analyze demo_env demo_clock dns_packet demo_engine = Some (r, e')"
    "(let names = mset ?N in (if Baseline_is_known_dns (env_lc demo_env) (str ''a.xyz'') (e_baseline demo_engine)
        then names else names + names) \<subseteq># mset (signals r))"
    by blast
  have "\<not> Baseline_is_known_dns (env_lc demo_env) (str ''a.xyz'') (e_baseline demo_engine)"
    by (simp add: demo_engine_def IdsEngine_new_def Baseline_new_def BaselineState_default_def Let_def
        Baseline_is_known_dns_def)
  then have "mset (?N @ ?N) \<subseteq># mset (signals r)" using r(2) by (simp add: Let_def)
  then have "length (?N @ ?N) \<le> length (signals r)" by (metis size_mset size_mset_mono)
  moreover have "1 \<le> length ?N" unfolding demo_env_def by code_simp
  ultimately show ?thesis using r(1) by auto
qed

end
