(* ===== verification/Workers.thy ===== *)
theory Workers
  imports Engine
begin

text \<open>
  Concurrent analyses.  The engine is shared by the four threads of the analyzer's pool and by the
  sweeper, and \<open>analyze\<close> of \<open>ids/mod.rs\<close> takes no lock of its own: each access to an entry of a map
  and to the baseline locks itself.  Here an analysis is a sequence of turns with one such access
  each, between which anything may happen to the engine; \<open>IdsEngine_analyze\<close> is the run without
  interruption.  What is shown: whatever is interleaved, an analysis ends, does not panic, and its
  result is that of an undisturbed analysis by a well-formed engine with the same blacklist, but
  for two answers of the SYN flood detector, the number of half-open connections and whether the
  flow of a reset is tracked, which other packets may have changed since the packet was entered.
\<close>

section \<open>Turns\<close>

text \<open>The next access of an analysis, with the values it has in hand: the signals and the reason so
  far, the country, the query name, the result.\<close>

datatype stage =
    AtRate acc
  | AtPorts acc
  | AtSrcs u16 acc
  | AtCounters acc
  | AtTrack u8 flow_key flow_key acc
  | AtUntrack u8 flow_key flow_key acc
  | AtHalfOpen u8 flow_key flow_key acc
  | AtFlow u8 flow_key flow_key acc
  | AtRevFlow u8 flow_key flow_key acc
  | AtGeo acc
  | AtCountry "bytes option" acc
  | AtDns "bytes option" acc
  | AtPort "bytes option" "bytes option" acc
  | AtKnownPort "bytes option" "bytes option" acc
  | AtLearn "bytes option" "bytes option" ids_result
  | Observing "baseline_event list" ids_result
  | Scored ids_result

record worker =
  w_packet :: raw_packet
  w_stage :: stage

definition worker_start :: "'b env \<Rightarrow> 'b blacklist \<Rightarrow> raw_packet \<Rightarrow> worker" where
  "worker_start env bl pkt =
     \<lparr>w_packet = pkt,
      w_stage = (case transport pkt of
                   None \<Rightarrow> Scored (IdsResult_from_signals [] 0)
                 | Some tm \<Rightarrow> AtRate (blacklist_section env bl tm ([], 0)))\<rparr>"

definition result_of :: "transport_meta \<Rightarrow> signal list \<Rightarrow> acc \<Rightarrow> ids_result" where
  "result_of tm ports acc =
     (let acc11 = push_quiet ports acc;
          acc12 = push_quiet (vlan_signals tm) acc11
      in IdsResult_from_signals (fst acc12) (snd acc12))"

text \<open>The observations of the baseline update, in order.\<close>

definition observations_of :: "transport_meta \<Rightarrow> bytes option \<Rightarrow> bytes option \<Rightarrow> baseline_event list" where
  "observations_of tm geo query =
     map SeePort (opt_list (dst_port tm)) @ [SeeIp (dst_ip tm), SeeProto (protocol tm)] @
     map SeeCountry (opt_list geo) @ map SeeDns (opt_list query)"

fun observe :: "(bytes \<Rightarrow> bytes) \<Rightarrow> baseline_event \<Rightarrow> baseline \<Rightarrow> baseline" where
  "observe lc (SeePort p) b = Baseline_observe_port p b"
| "observe lc (SeeIp ip) b = Baseline_observe_dst_ip ip b"
| "observe lc (SeeCountry c) b = Baseline_observe_country c b"
| "observe lc (SeeDns n) b = Baseline_observe_dns lc n b"
| "observe lc (SeeProto p) b = Baseline_observe_protocol p b"
| "observe lc _ b = b"

text \<open>The flags of a packet that the SYN flood detector looks at, its flow, and the reverse flow.\<close>

definition syn_keys :: "transport_meta \<Rightarrow> (u8 \<times> flow_key \<times> flow_key) option" where
  "syn_keys tm =
     (case (tcp_flags tm, src_port tm, dst_port tm) of
        (Some flags, Some sp, Some dp) \<Rightarrow> Some (flags, (src_ip tm, dst_ip tm, sp, dp), (dst_ip tm, src_ip tm, dp, sp))
      | _ \<Rightarrow> None)"

text \<open>What remains of the detector's call when it has made its last access, and the three sections
  behind it, which look at the packet only.\<close>

definition after_syn :: "raw_packet \<Rightarrow> transport_meta \<Rightarrow> signal list \<Rightarrow> acc \<Rightarrow> acc" where
  "after_syn pkt tm sigs acc =
     push_quiet (trunc_signals pkt) (push_quiet (frag_signals tm) (push_quiet (icmp_signals tm) (push_all 2 sigs acc)))"

text \<open>The turns on the port scan detector: \<open>ports_per_src\<close> and then, if its count raises nothing,
  \<open>srcs_per_port\<close>.\<close>

definition scan_turn :: "'b env \<Rightarrow> engine_clock \<Rightarrow> transport_meta \<Rightarrow> 'b engine \<Rightarrow> stage \<Rightarrow> 'b engine \<times> stage" where
  "scan_turn env clk tm e st =
     (case st of
        AtPorts acc \<Rightarrow>
          (case dst_port tm of
             None \<Rightarrow> (e, AtCounters acc)
           | Some port \<Rightarrow>
               let (horizontal, ps) = insert_port (ec_scan clk) (src_ip tm) port (e_port_scan e)
               in (e\<lparr>e_port_scan := ps\<rparr>,
                   case horizontal_signal (src_ip tm) horizontal ps of
                     Some s \<Rightarrow> AtCounters (push_opt 1 (Some s) acc)
                   | None \<Rightarrow> AtSrcs port acc))
      | AtSrcs port acc \<Rightarrow>
          let (vertical, ps) = insert_src (env_hash64 env) (ec_scan clk) (src_ip tm) port (e_port_scan e)
          in (e\<lparr>e_port_scan := ps\<rparr>, AtCounters (push_opt 1 (vertical_signal port vertical ps) acc))
      | _ \<Rightarrow> (e, st))"

text \<open>The turns on the SYN flood detector: the counters of the source; the entry of the flow, or both
  directions of it, in the map of half-open connections; its size; and for a reset whether either
  direction is in it.\<close>

definition syn_turn :: "engine_clock \<Rightarrow> raw_packet \<Rightarrow> transport_meta \<Rightarrow> 'b engine \<Rightarrow> stage \<Rightarrow> 'b engine \<times> stage" where
  "syn_turn clk pkt tm e st =
     (let sf = e_syn_flood e; src = src_ip tm
      in case st of
        AtCounters acc \<Rightarrow>
          (case syn_keys tm of
             None \<Rightarrow> (e, AtGeo (after_syn pkt tm [] acc))
           | Some (flags, flow, reply) \<Rightarrow>
               let (c, sf') = count_packet (ec_syn clk) src flags sf
               in (e\<lparr>e_syn_flood := sf'\<rparr>, AtTrack flags flow reply (push_all 2 (flood_signals src c sf') acc)))
      | AtTrack flags flow reply acc \<Rightarrow>
          if is_syn flags then
            (e\<lparr>e_syn_flood := sf\<lparr>half_open := tab_insert flow (yc_insert (ec_syn clk)) (half_open sf)\<rparr>\<rparr>, AtHalfOpen flags flow reply acc)
          else if is_syn_ack flags \<or> is_rst flags \<or> is_ack flags then
            (e\<lparr>e_syn_flood := sf\<lparr>half_open := tab_remove reply (half_open sf)\<rparr>\<rparr>, AtUntrack flags flow reply acc)
          else (e, AtHalfOpen flags flow reply acc)
      | AtUntrack flags flow reply acc \<Rightarrow>
          (e\<lparr>e_syn_flood := sf\<lparr>half_open := tab_remove flow (half_open sf)\<rparr>\<rparr>, AtHalfOpen flags flow reply acc)
      | AtHalfOpen flags flow reply acc \<Rightarrow>
          let acc' = push_all 2 (half_open_signals (tab_len (half_open sf)) sf) acc
          in (e, if is_rst flags then AtFlow flags flow reply acc' else AtGeo (after_syn pkt tm (xmas_signals src flags) acc'))
      | AtFlow flags flow reply acc \<Rightarrow>
          (e, if tab_get (half_open sf) flow = None then AtRevFlow flags flow reply acc
              else AtGeo (after_syn pkt tm (xmas_signals src flags) acc))
      | AtRevFlow flags flow reply acc \<Rightarrow>
          (e, AtGeo (after_syn pkt tm (rst_signals src flags (tab_get (half_open sf) reply \<noteq> None) @ xmas_signals src flags) acc))
      | _ \<Rightarrow> (e, st))"

text \<open>One turn.  After \<open>phase()\<close> was read as \<open>Refinement\<close>, the signal depends on the next read only.\<close>

definition stage_turn ::
  "'b env \<Rightarrow> engine_clock \<Rightarrow> raw_packet \<Rightarrow> transport_meta \<Rightarrow> 'b engine \<Rightarrow> stage \<Rightarrow> ('b engine \<times> stage) panics" where
  "stage_turn env clk pkt tm e st =
     (case st of
        AtRate acc \<Rightarrow>
          let (acc, rl) = rate_section (ec_rate clk) pkt tm (e_rate_limiter e) acc
          in Some (e\<lparr>e_rate_limiter := rl\<rparr>, AtPorts acc)
      | AtPorts acc \<Rightarrow> Some (scan_turn env clk tm e st)
      | AtSrcs port acc \<Rightarrow> Some (scan_turn env clk tm e st)
      | AtCounters acc \<Rightarrow> Some (syn_turn clk pkt tm e st)
      | AtTrack flags flow reply acc \<Rightarrow> Some (syn_turn clk pkt tm e st)
      | AtUntrack flags flow reply acc \<Rightarrow> Some (syn_turn clk pkt tm e st)
      | AtHalfOpen flags flow reply acc \<Rightarrow> Some (syn_turn clk pkt tm e st)
      | AtFlow flags flow reply acc \<Rightarrow> Some (syn_turn clk pkt tm e st)
      | AtRevFlow flags flow reply acc \<Rightarrow> Some (syn_turn clk pkt tm e st)
      | AtGeo acc \<Rightarrow>
          let geo = country_code env (src_ip tm)
          in Some (e, if geo \<noteq> None \<and> bl_phase (e_baseline e) = Refinement then AtCountry geo acc else AtDns geo acc)
      | AtCountry geo acc \<Rightarrow>
          Some (e, AtDns geo (push_opt 4 (geo_signal geo ((e_baseline e)\<lparr>bl_phase := Refinement\<rparr>) tm) acc))
      | AtDns geo acc \<Rightarrow> do {
          acc \<leftarrow> payload_section (env_ac env) (e_payload e) pkt tm acc;
          query \<leftarrow> dns_query_section pkt tm;
          acc \<leftarrow> dns_section env (e_blacklist e) (e_baseline e) pkt tm query acc;
          Some (e, AtPort geo query acc)
        }
      | AtPort geo query acc \<Rightarrow>
          Some (e, if dst_port tm \<noteq> None \<and> bl_phase (e_baseline e) = Refinement then AtKnownPort geo query acc
                   else AtLearn geo query (result_of tm [] acc))
      | AtKnownPort geo query acc \<Rightarrow>
          Some (e, AtLearn geo query (result_of tm (port_signals ((e_baseline e)\<lparr>bl_phase := Refinement\<rparr>) tm) acc))
      | AtLearn geo query r \<Rightarrow>
          Some (e, if Baseline_is_learning (e_baseline e) \<or> total_score r < THRESHOLD_INFO
                   then Observing (observations_of tm geo query) r else Scored r)
      | Observing [] r \<Rightarrow> Some (e, Scored r)
      | Observing (ob # obs) r \<Rightarrow> Some (e\<lparr>e_baseline := observe (env_lc env) ob (e_baseline e)\<rparr>, Observing obs r)
      | Scored r \<Rightarrow> Some (e, Scored r))"

definition worker_turn :: "'b env \<Rightarrow> engine_clock \<Rightarrow> 'b engine \<Rightarrow> worker \<Rightarrow> ('b engine \<times> worker) panics" where
  "worker_turn env clk e w =
     (case transport (w_packet w) of
        None \<Rightarrow> Some (e, w)
      | Some tm \<Rightarrow> do {
          (e, st) \<leftarrow> stage_turn env clk (w_packet w) tm e (w_stage w);
          Some (e, w\<lparr>w_stage := st\<rparr>)
        })"

definition finished :: "worker \<Rightarrow> bool" where
  "finished w \<longleftrightarrow> (case w_stage w of Scored r \<Rightarrow> True | _ \<Rightarrow> False)"

lemma finished_iff: "finished w \<longleftrightarrow> (\<exists>r. w_stage w = Scored r)"
  by (simp add: finished_def split: stage.split)

text \<open>How many turns an analysis still takes, at most.\<close>

fun turns_left :: "stage \<Rightarrow> nat" where
  "turns_left (AtRate acc) = 21"
| "turns_left (AtPorts acc) = 20"
| "turns_left (AtSrcs port acc) = 19"
| "turns_left (AtCounters acc) = 18"
| "turns_left (AtTrack flags flow reply acc) = 17"
| "turns_left (AtUntrack flags flow reply acc) = 16"
| "turns_left (AtHalfOpen flags flow reply acc) = 15"
| "turns_left (AtFlow flags flow reply acc) = 14"
| "turns_left (AtRevFlow flags flow reply acc) = 13"
| "turns_left (AtGeo acc) = 12"
| "turns_left (AtCountry geo acc) = 11"
| "turns_left (AtDns geo acc) = 10"
| "turns_left (AtPort geo query acc) = 9"
| "turns_left (AtKnownPort geo query acc) = 8"
| "turns_left (AtLearn geo query r) = 7"
| "turns_left (Observing obs r) = Suc (length obs)"
| "turns_left (Scored r) = 0"

lemma observations_less: "length (observations_of tm geo query) < 6"
  by (cases "dst_port tm"; cases geo; cases query) (simp_all add: observations_of_def)

lemma scan_turn_less: "snd (scan_turn env clk tm e (AtPorts acc)) = st' \<Longrightarrow> turns_left st' < 20"
  "snd (scan_turn env clk tm e (AtSrcs port acc)) = st' \<Longrightarrow> turns_left st' < 19"
  by (auto simp: scan_turn_def Let_def split_beta split: option.splits)

lemma syn_turn_less:
  "snd (syn_turn clk pkt tm e (AtCounters acc)) = st' \<Longrightarrow> turns_left st' < 18"
  "snd (syn_turn clk pkt tm e (AtTrack flags flow reply acc)) = st' \<Longrightarrow> turns_left st' < 17"
  "snd (syn_turn clk pkt tm e (AtUntrack flags flow reply acc)) = st' \<Longrightarrow> turns_left st' < 16"
  "snd (syn_turn clk pkt tm e (AtHalfOpen flags flow reply acc)) = st' \<Longrightarrow> turns_left st' < 15"
  "snd (syn_turn clk pkt tm e (AtFlow flags flow reply acc)) = st' \<Longrightarrow> turns_left st' < 14"
  "snd (syn_turn clk pkt tm e (AtRevFlow flags flow reply acc)) = st' \<Longrightarrow> turns_left st' < 13"
  by (auto simp: syn_turn_def Let_def split_beta split: option.splits)

lemma stage_turn_less:
  "stage_turn env clk pkt tm e st = Some (e', st') \<Longrightarrow> (\<nexists>r. st = Scored r) \<Longrightarrow> turns_left st' < turns_left st"
  by (cases st) (auto simp: stage_turn_def Let_def bind_eq_Some_conv observations_less
      split: prod.splits if_splits list.splits dest!: arg_cong [where f = snd]
      intro: scan_turn_less syn_turn_less)

section \<open>The uninterrupted run\<close>

fun worker_run :: "'b env \<Rightarrow> engine_clock list \<Rightarrow> 'b engine \<Rightarrow> worker \<Rightarrow> ('b engine \<times> worker) panics" where
  "worker_run env [] e w = Some (e, w)"
| "worker_run env (clk # clks) e w = do {
     (e, w) \<leftarrow> worker_turn env clk e w;
     worker_run env clks e w
   }"

section \<open>The stages of an undisturbed analysis\<close>

definition acc_rate :: "'b env \<Rightarrow> engine_clock \<Rightarrow> raw_packet \<Rightarrow> transport_meta \<Rightarrow> 'b engine \<Rightarrow> acc" where
  "acc_rate env clk pkt tm e =
     fst (rate_section (ec_rate clk) pkt tm (e_rate_limiter e) (blacklist_section env (e_blacklist e) tm ([], 0)))"

definition acc_scan :: "'b env \<Rightarrow> engine_clock \<Rightarrow> raw_packet \<Rightarrow> transport_meta \<Rightarrow> 'b engine \<Rightarrow> acc" where
  "acc_scan env clk pkt tm e =
     fst (scan_section (env_hash64 env) (ec_scan clk) tm (e_port_scan e) (acc_rate env clk pkt tm e))"

definition acc_header ::
  "'b env \<Rightarrow> engine_clock \<Rightarrow> raw_packet \<Rightarrow> transport_meta \<Rightarrow> 'b engine \<Rightarrow> signal list \<Rightarrow> acc" where
  "acc_header env clk pkt tm e S = after_syn pkt tm S (acc_scan env clk pkt tm e)"

definition acc_geo ::
  "'b env \<Rightarrow> engine_clock \<Rightarrow> raw_packet \<Rightarrow> transport_meta \<Rightarrow> 'b engine \<Rightarrow> signal list \<Rightarrow> acc" where
  "acc_geo env clk pkt tm e S =
     push_opt 4 (geo_signal (country_code env (src_ip tm)) (e_baseline e) tm) (acc_header env clk pkt tm e S)"

definition acc_dns ::
  "'b env \<Rightarrow> engine_clock \<Rightarrow> raw_packet \<Rightarrow> transport_meta \<Rightarrow> 'b engine \<Rightarrow> signal list \<Rightarrow> (bytes option \<times> acc) panics" where
  "acc_dns env clk pkt tm e S = do {
     acc \<leftarrow> payload_section (env_ac env) (e_payload e) pkt tm (acc_geo env clk pkt tm e S);
     query \<leftarrow> dns_query_section pkt tm;
     acc \<leftarrow> dns_section env (e_blacklist e) (e_baseline e) pkt tm query acc;
     Some (query, acc)
   }"

lemmas acc_defs = acc_rate_def acc_scan_def acc_header_def acc_geo_def acc_dns_def

text \<open>They end in the result that \<open>packet_result_with\<close> is.\<close>

lemma acc_dns_result:
  assumes "ac_ok (env_ac env)" and "e_payload e = PayloadScanner_new" and "acc_dns env clk pkt tm e S = Some (query, acc)"
  shows "result_of tm (port_signals (e_baseline e) tm) acc = packet_result_with env clk pkt tm e S"
proof -
  have "acc_geo env clk pkt tm e S = acc_of (blacklist_findings env e tm @
      tagged 6 (opt_list (fst (rate_inspection clk pkt tm e))) @ tagged 1 (opt_list (fst (scan_inspection env clk tm e))) @
      tagged 2 S @ tagged 0 (icmp_signals tm @ frag_signals tm @ trunc_signals pkt) @
      tagged 4 (opt_list (geo_signal (country_code env (src_ip tm)) (e_baseline e) tm)))"
    by (simp add: acc_defs after_syn_def blacklist_section_acc rate_section_acc scan_section_acc push_acc tagged_append)
  with assms(3) have "acc = acc_of (blacklist_findings env e tm @
      tagged 6 (opt_list (fst (rate_inspection clk pkt tm e))) @ tagged 1 (opt_list (fst (scan_inspection env clk tm e))) @
      tagged 2 S @ tagged 0 (icmp_signals tm @ frag_signals tm @ trunc_signals pkt) @
      tagged 4 (opt_list (geo_signal (country_code env (src_ip tm)) (e_baseline e) tm)) @
      tagged 5 (payload_hits env pkt tm e) @ dns_findings env pkt tm e)"
    by (simp add: acc_dns_def payload_section_acc [OF assms(1,2)] dns_query_total dns_section_acc)
  then show ?thesis
    by (simp add: result_of_def push_acc acc_of_sel packet_result_with_def findings_with_def tagged_append Let_def
        del: from_signals_sel)
qed


text \<open>An engine as a worker may see it, and the same with another baseline.\<close>

definition view_ok :: "'b env \<Rightarrow> (ip_addr \<times> u16) set \<Rightarrow> 'b blacklist \<Rightarrow> 'b engine \<Rightarrow> bool" where
  "view_ok env C bl e \<longleftrightarrow> engine_inv e \<and> e_blacklist e = bl \<and> scan_sound (env_hash64 env) (any_time C) (e_port_scan e)"

lemma view_ok_mono: "view_ok env C bl e \<Longrightarrow> C \<subseteq> C' \<Longrightarrow> view_ok env C' bl e"
  using scan_sound_mono [OF _ any_time_mono] by (auto simp: view_ok_def)

lemma view_ok_fields:
  "view_ok env C bl e \<Longrightarrow> view_ok env C bl f \<Longrightarrow> view_ok env C bl (e\<lparr>e_rate_limiter := e_rate_limiter f\<rparr>)"
  "view_ok env C bl e \<Longrightarrow> scan_sound (env_hash64 env) (any_time C) d \<Longrightarrow> view_ok env C bl (e\<lparr>e_port_scan := d\<rparr>)"
  "view_ok env C bl e \<Longrightarrow> syn_std s \<Longrightarrow> view_ok env C bl (e\<lparr>e_syn_flood := s\<rparr>)"
  "view_ok env C bl e \<Longrightarrow> view_ok env C bl (e\<lparr>e_baseline := b\<rparr>)"
  by (simp_all add: view_ok_def engine_inv_def scan_sound_def)

lemma view_ok_std: "view_ok env C bl e \<Longrightarrow> scan_sound (env_hash64 env) (any_time C) (e_port_scan e)"
  "view_ok env C bl e \<Longrightarrow> scan_std (e_port_scan e)" "view_ok env C bl e \<Longrightarrow> syn_std (e_syn_flood e)"
  by (simp_all add: view_ok_def engine_inv_def)

text \<open>What the SYN flood detector may answer: the counters are those of a packet entered into some
  well-formed detector, the number of half-open connections and whether the flow of a reset is
  tracked are what other packets left.\<close>

definition flood_seen :: "transport_meta \<Rightarrow> u8 \<Rightarrow> signal list \<Rightarrow> bool" where
  "flood_seen tm flags S \<longleftrightarrow>
     (\<exists>clk d. syn_std d \<and> S = flood_signals (src_ip tm) (counter_step clk (src_ip tm) flags d) SynFloodDetector_new)"

definition syn_answer :: "transport_meta \<Rightarrow> signal list \<Rightarrow> bool" where
  "syn_answer tm S \<longleftrightarrow>
     (case syn_keys tm of
        None \<Rightarrow> S = []
      | Some (flags, _, _) \<Rightarrow>
          \<exists>S1 n tracked. flood_seen tm flags S1 \<and>
            S = S1 @ half_open_signals n SynFloodDetector_new @ rst_signals (src_ip tm) flags tracked @ xmas_signals (src_ip tm) flags)"

lemma syn_answer_inspection:
  assumes "syn_std (e_syn_flood e)"
  shows "syn_answer tm (fst (syn_inspection clk tm e))"
proof (cases "syn_keys tm")
  case None
  then show ?thesis by (auto simp: syn_answer_def syn_inspection_def syn_keys_def split: option.splits)
next
  case (Some k)
  then obtain flags sp dp where k: "tcp_flags tm = Some flags" "src_port tm = Some sp" "dst_port tm = Some dp"
    by (auto simp: syn_keys_def split: option.splits)
  have "flood_seen tm flags (flood_signals (src_ip tm) (counter_step (ec_syn clk) (src_ip tm) flags (e_syn_flood e)) (e_syn_flood e))"
    unfolding flood_seen_def syn_signals_std(1) [OF assms syn_std_new] using assms by blast
  then show ?thesis
    by (auto simp: syn_answer_def syn_keys_def k syn_inspection_def syn_inspect_verdict Let_def syn_verdict_def
        syn_signals_std(2) [OF assms syn_std_new])
qed

lemma syn_signal_whole:
  "s \<in> set (flood_signals src c d) \<Longrightarrow> whole_score s" "s \<in> set (half_open_signals n d) \<Longrightarrow> whole_score s"
  "s \<in> set (rst_signals src flags tracked) \<Longrightarrow> whole_score s" "s \<in> set (xmas_signals src flags) \<Longrightarrow> whole_score s"
  by (simp_all add: syn_signal_defs det_defs split: if_splits)

lemma syn_answer_whole: "syn_answer tm S \<Longrightarrow> \<forall>s \<in> set S. whole_score s"
  unfolding syn_answer_def flood_seen_def by (auto split: option.splits dest: syn_signal_whole)

text \<open>What the values in hand are, at every stage: those of an undisturbed analysis by some engine,
  with some such answer.\<close>

definition done_ok :: "'b env \<Rightarrow> (ip_addr \<times> u16) set \<Rightarrow> 'b blacklist \<Rightarrow> raw_packet \<Rightarrow> transport_meta \<Rightarrow> ids_result \<Rightarrow> bool" where
  "done_ok env C bl pkt tm r \<longleftrightarrow>
     (\<exists>clk e S. view_ok env C bl e \<and> syn_answer tm S \<and> r = packet_result_with env clk pkt tm e S)"

fun stage_ok :: "'b env \<Rightarrow> (ip_addr \<times> u16) set \<Rightarrow> 'b blacklist \<Rightarrow> raw_packet \<Rightarrow> transport_meta \<Rightarrow> stage \<Rightarrow> bool" where
  "stage_ok env C bl pkt tm (AtRate acc) \<longleftrightarrow> acc = blacklist_section env bl tm ([], 0)"
| "stage_ok env C bl pkt tm (AtPorts acc) \<longleftrightarrow> (\<exists>clk e. view_ok env C bl e \<and> acc = acc_rate env clk pkt tm e)"
| "stage_ok env C bl pkt tm (AtSrcs port acc) \<longleftrightarrow> dst_port tm = Some port \<and>
     (\<exists>clk e. view_ok env C bl e \<and> acc = acc_rate env clk pkt tm e \<and>
       horizontal_signal (src_ip tm) (fst (insert_port (ec_scan clk) (src_ip tm) port (e_port_scan e))) (e_port_scan e) = None)"
| "stage_ok env C bl pkt tm (AtCounters acc) \<longleftrightarrow> (\<exists>clk e. view_ok env C bl e \<and> acc = acc_scan env clk pkt tm e)"
| "stage_ok env C bl pkt tm (AtTrack flags flow reply acc) \<longleftrightarrow> syn_keys tm = Some (flags, flow, reply) \<and>
     (\<exists>clk e S. view_ok env C bl e \<and> flood_seen tm flags S \<and> acc = push_all 2 S (acc_scan env clk pkt tm e))"
| "stage_ok env C bl pkt tm (AtUntrack flags flow reply acc) \<longleftrightarrow> syn_keys tm = Some (flags, flow, reply) \<and>
     (\<exists>clk e S. view_ok env C bl e \<and> flood_seen tm flags S \<and> acc = push_all 2 S (acc_scan env clk pkt tm e))"
| "stage_ok env C bl pkt tm (AtHalfOpen flags flow reply acc) \<longleftrightarrow> syn_keys tm = Some (flags, flow, reply) \<and>
     (\<exists>clk e S. view_ok env C bl e \<and> flood_seen tm flags S \<and> acc = push_all 2 S (acc_scan env clk pkt tm e))"
| "stage_ok env C bl pkt tm (AtFlow flags flow reply acc) \<longleftrightarrow> syn_keys tm = Some (flags, flow, reply) \<and> is_rst flags \<and>
     (\<exists>clk e S n. view_ok env C bl e \<and> flood_seen tm flags S \<and>
       acc = push_all 2 (S @ half_open_signals n SynFloodDetector_new) (acc_scan env clk pkt tm e))"
| "stage_ok env C bl pkt tm (AtRevFlow flags flow reply acc) \<longleftrightarrow> syn_keys tm = Some (flags, flow, reply) \<and> is_rst flags \<and>
     (\<exists>clk e S n. view_ok env C bl e \<and> flood_seen tm flags S \<and>
       acc = push_all 2 (S @ half_open_signals n SynFloodDetector_new) (acc_scan env clk pkt tm e))"
| "stage_ok env C bl pkt tm (AtGeo acc) \<longleftrightarrow>
     (\<exists>clk e S. view_ok env C bl e \<and> syn_answer tm S \<and> acc = acc_header env clk pkt tm e S)"
| "stage_ok env C bl pkt tm (AtCountry geo acc) \<longleftrightarrow> geo = country_code env (src_ip tm) \<and>
     (\<exists>clk e S. view_ok env C bl e \<and> syn_answer tm S \<and> acc = acc_header env clk pkt tm e S)"
| "stage_ok env C bl pkt tm (AtDns geo acc) \<longleftrightarrow> geo = country_code env (src_ip tm) \<and>
     (\<exists>clk e S. view_ok env C bl e \<and> syn_answer tm S \<and> acc = acc_geo env clk pkt tm e S)"
| "stage_ok env C bl pkt tm (AtPort geo query acc) \<longleftrightarrow> geo = country_code env (src_ip tm) \<and>
     (\<exists>clk e S. view_ok env C bl e \<and> syn_answer tm S \<and> acc_dns env clk pkt tm e S = Some (query, acc))"
| "stage_ok env C bl pkt tm (AtKnownPort geo query acc) \<longleftrightarrow> geo = country_code env (src_ip tm) \<and>
     (\<exists>clk e S. view_ok env C bl e \<and> syn_answer tm S \<and> acc_dns env clk pkt tm e S = Some (query, acc))"
| "stage_ok env C bl pkt tm (AtLearn geo query r) \<longleftrightarrow> geo = country_code env (src_ip tm) \<and> done_ok env C bl pkt tm r"
| "stage_ok env C bl pkt tm (Observing obs r) \<longleftrightarrow> done_ok env C bl pkt tm r"
| "stage_ok env C bl pkt tm (Scored r) \<longleftrightarrow> done_ok env C bl pkt tm r"

lemma rate_turn_ok:
  fixes clk :: engine_clock
  assumes "stage_ok env C bl pkt tm (AtRate acc)" and "view_ok env C bl f"
  shows "stage_ok env C bl pkt tm (AtPorts (fst (rate_section (ec_rate clk) pkt tm (e_rate_limiter f) acc)))"
    and "view_ok env C bl (f\<lparr>e_rate_limiter := snd (rate_section (ec_rate clk) pkt tm (e_rate_limiter f) acc)\<rparr>)"
proof -
  show "stage_ok env C bl pkt tm (AtPorts (fst (rate_section (ec_rate clk) pkt tm (e_rate_limiter f) acc)))"
    unfolding stage_ok.simps
    by (rule exI [of _ clk], rule exI [of _ f]) (use assms in \<open>simp add: acc_rate_def view_ok_def\<close>)
  show "view_ok env C bl (f\<lparr>e_rate_limiter := snd (rate_section (ec_rate clk) pkt tm (e_rate_limiter f) acc)\<rparr>)"
    using assms(2) by (simp add: view_ok_def engine_inv_def rate_section_def split_beta rate_inv_inspect)
qed

text \<open>The turns on the port scan detector: the two maps of the view may be of two moments.\<close>

definition pair_in :: "transport_meta \<Rightarrow> (ip_addr \<times> u16) set \<Rightarrow> bool" where
  "pair_in tm C \<longleftrightarrow> (\<forall>port. dst_port tm = Some port \<longrightarrow> (src_ip tm, port) \<in> C)"

lemma insert_view:
  assumes "scan_sound h (any_time C) d" and "(src, port) \<in> C"
  shows "scan_sound h (any_time C) (snd (insert_port clk src port d))"
    and "scan_sound h (any_time C) (snd (insert_src h clk src port d))"
  using scan_sound_insert_port [OF assms(1), of clk src port] scan_sound_insert_src [OF assms(1), of clk src port]
  by (simp_all only: any_time_insert [OF assms(2)])

lemma ports_turn_ok:
  assumes "stage_ok env C bl pkt tm (AtPorts acc)" and "view_ok env C bl f" and "pair_in tm C"
  shows "stage_ok env C bl pkt tm (snd (scan_turn env clk tm f (AtPorts acc)))"
    and "view_ok env C bl (fst (scan_turn env clk tm f (AtPorts acc)))"
proof -
  obtain c e where e: "view_ok env C bl e" "acc = acc_rate env c pkt tm e" using assms(1) by auto
  let ?c = "c\<lparr>ec_scan := ec_scan clk\<rparr>" and ?e = "e\<lparr>e_port_scan := e_port_scan f\<rparr>"
  have v: "view_ok env C bl ?e" by (intro view_ok_fields(2) [OF e(1)] view_ok_std(1) [OF assms(2)])
  have acc: "acc = acc_rate env ?c pkt tm ?e" by (simp add: e(2) acc_rate_def)
  show "stage_ok env C bl pkt tm (snd (scan_turn env clk tm f (AtPorts acc)))"
  proof (cases "dst_port tm")
    case None
    then have "acc = acc_scan env ?c pkt tm ?e" by (simp add: acc_scan_def scan_section_def acc [symmetric])
    with None v show ?thesis by (auto simp: scan_turn_def)
  next
    case (Some port)
    let ?n = "fst (insert_port (ec_scan clk) (src_ip tm) port (e_port_scan f))"
    show ?thesis
    proof (cases "horizontal_signal (src_ip tm) ?n (e_port_scan f)")
      case None
      then have "\<exists>k g. view_ok env C bl g \<and> acc = acc_rate env k pkt tm g \<and>
          horizontal_signal (src_ip tm) (fst (insert_port (ec_scan k) (src_ip tm) port (e_port_scan g))) (e_port_scan g) = None"
        using v acc by (intro exI [of _ ?c] exI [of _ ?e]) simp
      with None Some show ?thesis by (simp add: scan_turn_def split_beta signal_frame)
    next
      case (Some s)
      then have "push_opt 1 (Some s) acc = acc_scan env ?c pkt tm ?e"
        using \<open>dst_port tm = Some port\<close>
        by (simp add: acc_scan_def scan_section_def acc [symmetric] PortScanDetector_inspect_def split_beta signal_frame)
      with Some \<open>dst_port tm = Some port\<close> v show ?thesis by (auto simp: scan_turn_def split_beta signal_frame)
    qed
  qed
  show "view_ok env C bl (fst (scan_turn env clk tm f (AtPorts acc)))"
    using assms(2,3) insert_view(1) [OF view_ok_std(1) [OF assms(2)]]
    by (auto simp: scan_turn_def split_beta pair_in_def intro: view_ok_fields split: option.split)
qed

lemma scan_two_moments:
  assumes "scan_std d" and "scan_std f"
    and "horizontal_signal src (fst (insert_port k src port d)) d = None"
  shows "fst (PortScanDetector_inspect h (k\<lparr>sc_srcs := sc_srcs k'\<rparr>) src port (d\<lparr>srcs_per_port := srcs_per_port f\<rparr>)) =
      vertical_signal port (fst (insert_src h k' src port f)) f"
  using assms by (simp_all add: scan_inspect_defs scan_std_def split_beta split: if_splits)

lemma srcs_turn_ok:
  assumes "stage_ok env C bl pkt tm (AtSrcs port acc)" and "view_ok env C bl f" and "pair_in tm C"
  shows "stage_ok env C bl pkt tm (snd (scan_turn env clk tm f (AtSrcs port acc)))"
    and "view_ok env C bl (fst (scan_turn env clk tm f (AtSrcs port acc)))"
proof -
  obtain c e where e: "dst_port tm = Some port" "view_ok env C bl e" "acc = acc_rate env c pkt tm e"
    "horizontal_signal (src_ip tm) (fst (insert_port (ec_scan c) (src_ip tm) port (e_port_scan e))) (e_port_scan e) = None"
    using assms(1) by auto
  let ?k = "(ec_scan c)\<lparr>sc_srcs := sc_srcs (ec_scan clk)\<rparr>"
    and ?d = "(e_port_scan e)\<lparr>srcs_per_port := srcs_per_port (e_port_scan f)\<rparr>"
  note two = scan_two_moments [OF view_ok_std(2) [OF e(2)] view_ok_std(2) [OF assms(2)] e(4)]
  have "push_opt 1 (vertical_signal port (fst (insert_src (env_hash64 env) (ec_scan clk) (src_ip tm) port (e_port_scan f)))
      (e_port_scan f)) acc = acc_scan env (c\<lparr>ec_scan := ?k\<rparr>) pkt tm (e\<lparr>e_port_scan := ?d\<rparr>)"
    by (simp add: acc_scan_def scan_section_def e(1,3) split_beta two acc_rate_def)
  moreover have "view_ok env C bl (e\<lparr>e_port_scan := ?d\<rparr>)" by (intro view_ok_fields(2) [OF e(2)] scan_sound_merge view_ok_std(1) [OF e(2)] view_ok_std(1) [OF assms(2)])
  ultimately show "stage_ok env C bl pkt tm (snd (scan_turn env clk tm f (AtSrcs port acc)))"
    by (auto simp: scan_turn_def split_beta signal_frame)
  show "view_ok env C bl (fst (scan_turn env clk tm f (AtSrcs port acc)))"
    using insert_view(2) [OF view_ok_std(1) [OF assms(2)]] assms(3) e(1)
    by (simp add: scan_turn_def split_beta pair_in_def view_ok_fields(2) [OF assms(2)])
qed

text \<open>The turns on the SYN flood detector.\<close>

lemma push_all_append: "push_all r (a @ b) acc = push_all r b (push_all r a acc)"
  by (simp add: push_all_def)

lemma syn_turn_view:
  assumes "view_ok env C bl f"
  shows "view_ok env C bl (fst (syn_turn clk pkt tm f st))"
proof -
  have "tab_ok (half_open (e_syn_flood f))" using view_ok_std(3) [OF assms] by (simp add: syn_std_def)
  then show ?thesis
    using assms view_ok_std(3) [OF assms]
    by (auto simp: syn_turn_def Let_def split_beta tbl.ok_put tbl.ok_del syn_std_half_open syn_std_count
        intro!: view_ok_fields(3) split: stage.split option.split)
qed

lemma counters_turn_ok:
  assumes "stage_ok env C bl pkt tm (AtCounters acc)" and "view_ok env C bl f"
  shows "stage_ok env C bl pkt tm (snd (syn_turn clk pkt tm f (AtCounters acc)))"
proof -
  obtain c e where e: "view_ok env C bl e" "acc = acc_scan env c pkt tm e" using assms(1) by auto
  show ?thesis
  proof (cases "syn_keys tm")
    case None
    then have "syn_answer tm []" by (simp add: syn_answer_def)
    with None e show ?thesis by (auto simp: syn_turn_def acc_header_def)
  next
    case (Some k)
    obtain flags flow reply where k: "k = (flags, flow, reply)" by (cases k)
    let ?c = "fst (count_packet (ec_syn clk) (src_ip tm) flags (e_syn_flood f))"
    have "?c = counter_step (ec_syn clk) (src_ip tm) flags (e_syn_flood f)"
      by (simp add: count_packet_def counter_step_def Let_def)
    then have "flood_seen tm flags (flood_signals (src_ip tm) ?c (snd (count_packet (ec_syn clk) (src_ip tm) flags (e_syn_flood f))))"
      unfolding flood_seen_def syn_signals_std(1) [OF syn_std_count [OF view_ok_std(3) [OF assms(2)]] syn_std_new]
      using view_ok_std(3) [OF assms(2)] by auto
    with Some k e show ?thesis by (auto simp: syn_turn_def Let_def split_beta)
  qed
qed

lemma geo_stage:
  assumes "syn_keys tm = Some (flags, flow, reply)" and "view_ok env C bl e" and "flood_seen tm flags S"
    and "T = rst_signals (src_ip tm) flags tracked @ xmas_signals (src_ip tm) flags"
    and "acc = push_all 2 (S @ half_open_signals n SynFloodDetector_new) (acc_scan env c pkt tm e)"
  shows "stage_ok env C bl pkt tm (AtGeo (after_syn pkt tm T acc))"
proof -
  let ?S = "S @ half_open_signals n SynFloodDetector_new @ T"
  have "after_syn pkt tm T acc = acc_header env c pkt tm e ?S"
    by (simp add: acc_header_def after_syn_def assms(5) push_all_append)
  moreover have "syn_answer tm ?S" using assms(1,3,4) by (auto simp: syn_answer_def)
  ultimately show ?thesis using assms(2) by auto
qed

lemma half_open_turn_ok:
  assumes "stage_ok env C bl pkt tm (AtHalfOpen flags flow reply acc)" and "view_ok env C bl f"
  shows "stage_ok env C bl pkt tm (snd (syn_turn clk pkt tm f (AtHalfOpen flags flow reply acc)))"
proof -
  let ?n = "tab_len (half_open (e_syn_flood f))"
  obtain c e S where e: "syn_keys tm = Some (flags, flow, reply)" "view_ok env C bl e" "flood_seen tm flags S"
    "acc = push_all 2 S (acc_scan env c pkt tm e)" using assms(1) by auto
  have acc: "push_all 2 (half_open_signals ?n (e_syn_flood f)) acc =
      push_all 2 (S @ half_open_signals ?n SynFloodDetector_new) (acc_scan env c pkt tm e)"
    by (simp add: e(4) push_all_append syn_signals_std(2) [OF view_ok_std(3) [OF assms(2)] syn_std_new])
  show ?thesis
  proof (cases "is_rst flags")
    case True
    with e acc show ?thesis by (auto simp: syn_turn_def Let_def)
  next
    case False
    have "stage_ok env C bl pkt tm (AtGeo (after_syn pkt tm (xmas_signals (src_ip tm) flags)
        (push_all 2 (half_open_signals ?n (e_syn_flood f)) acc)))"
      by (rule geo_stage [where tracked = True, OF e(1-3) _ acc]) (simp add: rst_signals_def)
    with False show ?thesis by (simp add: syn_turn_def Let_def del: stage_ok.simps)
  qed
qed

lemma flow_turn_ok:
  assumes "stage_ok env C bl pkt tm (AtFlow flags flow reply acc)"
  shows "stage_ok env C bl pkt tm (snd (syn_turn clk pkt tm f (AtFlow flags flow reply acc)))"
    and "stage_ok env C bl pkt tm (snd (syn_turn clk pkt tm f (AtRevFlow flags flow reply acc)))"
proof -
  obtain c e S n where e: "syn_keys tm = Some (flags, flow, reply)" "view_ok env C bl e" "flood_seen tm flags S"
    "acc = push_all 2 (S @ half_open_signals n SynFloodDetector_new) (acc_scan env c pkt tm e)" using assms by auto
  have geo: "stage_ok env C bl pkt tm (AtGeo (after_syn pkt tm (rst_signals (src_ip tm) flags tracked @ xmas_signals (src_ip tm) flags) acc))"
    for tracked by (rule geo_stage [OF e(1-3) refl e(4)])
  then show "stage_ok env C bl pkt tm (snd (syn_turn clk pkt tm f (AtRevFlow flags flow reply acc)))"
    by (simp add: syn_turn_def Let_def del: stage_ok.simps)
  show "stage_ok env C bl pkt tm (snd (syn_turn clk pkt tm f (AtFlow flags flow reply acc)))"
  proof (cases "tab_get (half_open (e_syn_flood f)) flow")
    case None
    with assms show ?thesis by (simp add: syn_turn_def)
  next
    case (Some t)
    with geo [of True] show ?thesis by (simp add: syn_turn_def rst_signals_def del: stage_ok.simps)
  qed
qed

lemma syn_turn_ok:
  assumes "stage_ok env C bl pkt tm st" and "view_ok env C bl f"
  shows "stage_ok env C bl pkt tm (snd (syn_turn clk pkt tm f st))"
proof (cases st)
  case (AtTrack flags flow reply acc)
  then show ?thesis using assms(1) by (simp add: syn_turn_def Let_def)
next
  case (AtUntrack flags flow reply acc)
  then show ?thesis using assms(1) by (simp add: syn_turn_def Let_def)
next
  case (AtRevFlow flags flow reply acc)
  then show ?thesis using assms(1) flow_turn_ok(2) [of env C bl pkt tm flags flow reply acc] by simp
next
  case (AtCounters acc)
  show ?thesis unfolding AtCounters by (rule counters_turn_ok [OF assms(1) [unfolded AtCounters] assms(2)])
next
  case (AtHalfOpen flags flow reply acc)
  show ?thesis unfolding AtHalfOpen by (rule half_open_turn_ok [OF assms(1) [unfolded AtHalfOpen] assms(2)])
next
  case (AtFlow flags flow reply acc)
  show ?thesis unfolding AtFlow by (rule flow_turn_ok(1) [OF assms(1) [unfolded AtFlow]])
qed (use assms(1) in \<open>simp_all add: syn_turn_def Let_def\<close>)

lemma detector_turn_baseline:
  "scan_turn env clk tm e st = (e', st') \<Longrightarrow> e_baseline e' = e_baseline e"
  "syn_turn clk pkt tm e st = (e', st') \<Longrightarrow> e_baseline e' = e_baseline e"
  by (auto simp: scan_turn_def syn_turn_def Let_def split_beta split: stage.splits option.splits if_splits)

text \<open>The reads of the baseline.  Each is merged into the baseline of the view without disturbing
  what was read before.\<close>

lemma acc_header_baseline: "acc_header env clk pkt tm (e\<lparr>e_baseline := b\<rparr>) S = acc_header env clk pkt tm e S"
  by (simp add: acc_header_def acc_scan_def acc_rate_def)

definition with_known :: "bytes set \<Rightarrow> bytes set \<Rightarrow> u16 set \<Rightarrow> phase \<Rightarrow> baseline \<Rightarrow> baseline" where
  "with_known cs ds ps ph b = b\<lparr>bl_phase := ph, bl_state := (bl_state b)\<lparr>countries := cs, common_dns_domains := ds, common_ports := ps\<rparr>\<rparr>"

lemma with_known_sel:
  "bl_phase (with_known cs ds ps ph b) = ph" "countries (bl_state (with_known cs ds ps ph b)) = cs"
  "common_dns_domains (bl_state (with_known cs ds ps ph b)) = ds" "common_ports (bl_state (with_known cs ds ps ph b)) = ps"
  by (simp_all add: with_known_def)

lemma geo_signal_cong:
  "(bl_phase b = Refinement \<and> (\<exists>c. geo = Some c \<and> c \<notin> countries (bl_state b)) \<longleftrightarrow>
     bl_phase b' = Refinement \<and> (\<exists>c. geo = Some c \<and> c \<notin> countries (bl_state b'))) \<Longrightarrow>
     geo_signal geo b tm = geo_signal geo b' tm"
  by (auto simp: geo_signal_def Baseline_is_known_country_def split: option.splits)

lemma dns_section_cong:
  assumes "common_dns_domains (bl_state b) = common_dns_domains (bl_state b')"
  shows "dns_section env bl b pkt tm query acc = dns_section env bl b' pkt tm query acc"
proof -
  have "Baseline_is_known_dns lc n b = Baseline_is_known_dns lc n b'" for lc n
    by (simp add: Baseline_is_known_dns_def assms)
  then show ?thesis unfolding dns_section_def by (simp only:)
qed

lemma dns_view_quiet:
  assumes "stage_ok env C bl pkt tm (AtGeo acc)"
  shows "stage_ok env C bl pkt tm (AtDns (country_code env (src_ip tm)) acc)"
proof -
  obtain c e S where e: "view_ok env C bl e" "acc = acc_header env c pkt tm e S" "syn_answer tm S" using assms by auto
  let ?b = "with_known {} {} {} Learning (e_baseline e)"
  have "geo_signal geo ?b tm = None" for geo
    by (simp add: geo_signal_def with_known_sel split: option.split)
  then have "acc = acc_geo env c pkt tm (e\<lparr>e_baseline := ?b\<rparr>) S"
    by (simp add: acc_geo_def acc_header_baseline e(2) push_opt_def)
  moreover have "view_ok env C bl (e\<lparr>e_baseline := ?b\<rparr>)" by (rule view_ok_fields(4) [OF e(1)])
  ultimately show ?thesis using e(3) by auto
qed

lemma dns_view:
  assumes "stage_ok env C bl pkt tm (AtCountry geo acc)"
  shows "stage_ok env C bl pkt tm (AtDns geo (push_opt 4 (geo_signal geo (b\<lparr>bl_phase := Refinement\<rparr>) tm) acc))"
proof -
  obtain c e S where e: "view_ok env C bl e" "acc = acc_header env c pkt tm e S" "geo = country_code env (src_ip tm)" "syn_answer tm S"
    using assms by auto
  let ?b = "with_known (countries (bl_state b)) {} {} Refinement (e_baseline e)"
  have "geo_signal geo (b\<lparr>bl_phase := Refinement\<rparr>) tm = geo_signal geo ?b tm"
    by (rule geo_signal_cong) (simp add: with_known_sel)
  then have "push_opt 4 (geo_signal geo (b\<lparr>bl_phase := Refinement\<rparr>) tm) acc = acc_geo env c pkt tm (e\<lparr>e_baseline := ?b\<rparr>) S"
    by (simp add: acc_geo_def acc_header_baseline e(2,3))
  moreover have "view_ok env C bl (e\<lparr>e_baseline := ?b\<rparr>)" by (rule view_ok_fields(4) [OF e(1)])
  ultimately show ?thesis using e(3,4) by auto
qed

lemma port_view:
  assumes "stage_ok env C bl pkt tm (AtDns geo acc)" and "view_ok env C bl f"
    and "payload_section (env_ac env) (e_payload f) pkt tm acc = Some acc1"
    and "dns_query_section pkt tm = Some query"
    and "dns_section env (e_blacklist f) (e_baseline f) pkt tm query acc1 = Some acc2"
  shows "stage_ok env C bl pkt tm (AtPort geo query acc2)"
proof -
  obtain c e S where e: "view_ok env C bl e" "acc = acc_geo env c pkt tm e S" "geo = country_code env (src_ip tm)" "syn_answer tm S"
    using assms(1) by auto
  let ?b = "with_known (countries (bl_state (e_baseline e))) (common_dns_domains (bl_state (e_baseline f))) {}
     (bl_phase (e_baseline e)) (e_baseline e)"
  have "geo_signal g ?b tm = geo_signal g (e_baseline e) tm" for g
    by (rule geo_signal_cong) (simp add: with_known_sel)
  then have "acc_geo env c pkt tm (e\<lparr>e_baseline := ?b\<rparr>) S = acc"
    by (simp add: acc_geo_def acc_header_baseline e(2))
  moreover have "dns_section env bl ?b pkt tm query acc1 = Some acc2"
    using assms(2,5) dns_section_cong [of ?b "e_baseline f" env bl pkt tm query acc1]
    by (simp add: view_ok_def with_known_sel)
  moreover have "e_payload e = e_payload f" using e(1) assms(2) by (simp add: view_ok_def engine_inv_def)
  ultimately have "acc_dns env c pkt tm (e\<lparr>e_baseline := ?b\<rparr>) S = Some (query, acc2)"
    using assms(3,4) e(1) by (simp add: acc_dns_def view_ok_def)
  moreover have "view_ok env C bl (e\<lparr>e_baseline := ?b\<rparr>)" by (rule view_ok_fields(4) [OF e(1)])
  ultimately show ?thesis using e(3,4) by auto
qed

lemma acc_dns_baseline:
  assumes "\<And>g. geo_signal g b tm = geo_signal g (e_baseline e) tm"
    and "common_dns_domains (bl_state b) = common_dns_domains (bl_state (e_baseline e))"
  shows "acc_dns env c pkt tm (e\<lparr>e_baseline := b\<rparr>) S = acc_dns env c pkt tm e S"
  by (simp add: acc_dns_def acc_geo_def acc_header_baseline assms(1) dns_section_cong [OF assms(2)])

lemma learn_stage:
  assumes "ac_ok (env_ac env)" and "stage_ok env C bl pkt tm (AtPort geo query acc)"
    and "\<And>e0 :: baseline. \<exists>b. (\<forall>g. geo_signal g b tm = geo_signal g e0 tm) \<and>
       common_dns_domains (bl_state b) = common_dns_domains (bl_state e0) \<and> port_signals b tm = ports"
  shows "stage_ok env C bl pkt tm (AtLearn geo query (result_of tm ports acc))"
proof -
  obtain c e S where e: "view_ok env C bl e" "acc_dns env c pkt tm e S = Some (query, acc)" "geo = country_code env (src_ip tm)"
    "syn_answer tm S"
    using assms(2) by auto
  obtain b where b: "\<forall>g. geo_signal g b tm = geo_signal g (e_baseline e) tm"
    "common_dns_domains (bl_state b) = common_dns_domains (bl_state (e_baseline e))" "port_signals b tm = ports"
    using assms(3) by blast
  let ?e = "e\<lparr>e_baseline := b\<rparr>"
  have "acc_dns env c pkt tm ?e S = Some (query, acc)" using acc_dns_baseline b(1,2) e(2) by metis
  moreover have v: "view_ok env C bl ?e" by (rule view_ok_fields(4) [OF e(1)])
  then have "e_payload ?e = PayloadScanner_new" by (simp add: view_ok_def engine_inv_def)
  ultimately have "result_of tm ports acc = packet_result_with env c pkt tm ?e S"
    using acc_dns_result [OF assms(1), of ?e c pkt tm S query acc] b(3) by simp
  with v e(3,4) show ?thesis by (auto simp: done_ok_def)
qed

lemma learn_quiet:
  assumes "ac_ok (env_ac env)" and "stage_ok env C bl pkt tm (AtPort geo query acc)"
  shows "stage_ok env C bl pkt tm (AtLearn geo query (result_of tm [] acc))"
proof (rule learn_stage [OF assms])
  fix b0 :: baseline
  let ?b = "with_known (countries (bl_state b0)) (common_dns_domains (bl_state b0)) UNIV (bl_phase b0) b0"
  have "\<forall>g. geo_signal g ?b tm = geo_signal g b0 tm" by (intro allI geo_signal_cong) (simp add: with_known_sel)
  moreover have "port_signals ?b tm = []"
    by (simp add: port_signals_def Baseline_is_known_port_def with_known_sel split: option.split)
  ultimately show "\<exists>b. (\<forall>g. geo_signal g b tm = geo_signal g b0 tm) \<and>
      common_dns_domains (bl_state b) = common_dns_domains (bl_state b0) \<and> port_signals b tm = []"
    by (intro exI [of _ ?b]) (simp add: with_known_sel)
qed

lemma learn_view:
  assumes "ac_ok (env_ac env)" and "stage_ok env C bl pkt tm (AtKnownPort geo query acc)"
  shows "stage_ok env C bl pkt tm (AtLearn geo query (result_of tm (port_signals (b\<lparr>bl_phase := Refinement\<rparr>) tm) acc))"
proof (rule learn_stage [OF assms(1)])
  show "stage_ok env C bl pkt tm (AtPort geo query acc)" using assms(2) by simp
next
  fix b0 :: baseline
  let ?cs = "if bl_phase b0 = Refinement then countries (bl_state b0) else UNIV"
  let ?b = "with_known ?cs (common_dns_domains (bl_state b0)) (common_ports (bl_state b)) Refinement b0"
  have "\<forall>g. geo_signal g ?b tm = geo_signal g b0 tm" by (intro allI geo_signal_cong) (simp add: with_known_sel)
  moreover have "port_signals ?b tm = port_signals (b\<lparr>bl_phase := Refinement\<rparr>) tm"
    by (simp add: port_signals_def Baseline_is_known_port_def with_known_sel split: option.split)
  ultimately show "\<exists>b'. (\<forall>g. geo_signal g b' tm = geo_signal g b0 tm) \<and>
      common_dns_domains (bl_state b') = common_dns_domains (bl_state b0) \<and>
      port_signals b' tm = port_signals (b\<lparr>bl_phase := Refinement\<rparr>) tm"
    by (intro exI [of _ ?b]) (simp add: with_known_sel)
qed

section \<open>Every turn keeps the stage and the engine sound\<close>

lemma payload_section_total: "ac_ok (env_ac env) \<Longrightarrow> \<exists>acc'. payload_section (env_ac env) PayloadScanner_new pkt tm acc = Some acc'"
  by (auto simp: payload_section_def has_payload_def slice_from_def elim!: scan_all_total [where payload = "drop (payload_offset tm) (pkt_data pkt)"])

lemma dns_section_total: "\<exists>acc'. dns_section env bl b pkt tm query acc = Some acc'"
proof (cases query)
  case (Some n)
  obtain sigs where "DnsDetector_inspect_payload (env_lc env) (env_lg env) (drop (payload_offset tm) (pkt_data pkt)) = Some sigs"
    using inspect_payload_total by blast
  then show ?thesis using Some by (simp add: dns_section_def slice_from_def Let_def)
qed (simp add: dns_section_def)


lemma turn_gives:
  "t = Some x \<Longrightarrow> view_ok env C bl (fst x) \<Longrightarrow> stage_ok env C bl pkt tm (snd x) \<Longrightarrow>
     \<exists>f' st'. t = Some (f', st') \<and> view_ok env C bl f' \<and> stage_ok env C bl pkt tm st'"
  by (cases x) simp

lemma stage_turn_ok:
  assumes "ac_ok (env_ac env)" and "view_ok env C bl f" and "stage_ok env C bl pkt tm st" and "pair_in tm C"
  shows "\<exists>f' st'. stage_turn env clk pkt tm f st = Some (f', st') \<and> view_ok env C bl f' \<and> stage_ok env C bl pkt tm st'"
proof (cases st)
  case (AtRate acc)
  from rate_turn_ok [OF assms(3) [unfolded AtRate] assms(2), of clk] show ?thesis
    by (simp add: AtRate stage_turn_def split_beta del: stage_ok.simps)
next
  case (AtPorts acc)
  show ?thesis unfolding AtPorts
    by (rule turn_gives [OF _ ports_turn_ok(2,1) [OF assms(3) [unfolded AtPorts] assms(2,4)]])
      (simp add: stage_turn_def)
next
  case (AtSrcs port acc)
  show ?thesis unfolding AtSrcs
    by (rule turn_gives [OF _ srcs_turn_ok(2,1) [OF assms(3) [unfolded AtSrcs] assms(2,4)]])
      (simp add: stage_turn_def)
next
  case (AtGeo acc)
  from assms(2,3) dns_view_quiet [OF assms(3) [unfolded AtGeo]] show ?thesis
    by (auto simp: AtGeo stage_turn_def Let_def)
next
  case (AtCountry geo acc)
  from assms(2) dns_view [OF assms(3) [unfolded AtCountry]] show ?thesis
    by (simp add: AtCountry stage_turn_def del: stage_ok.simps)
next
  case (AtDns geo acc)
  have pay: "e_payload f = PayloadScanner_new" using assms(2) by (simp add: view_ok_def engine_inv_def)
  obtain acc1 where 1: "payload_section (env_ac env) (e_payload f) pkt tm acc = Some acc1"
    unfolding pay using payload_section_total [OF assms(1)] by blast
  obtain acc2 where 2: "dns_section env (e_blacklist f) (e_baseline f) pkt tm (query_of pkt tm) acc1 = Some acc2"
    using dns_section_total by blast
  from assms(2) port_view [OF assms(3) [unfolded AtDns] assms(2) 1 dns_query_total 2] 1 2 show ?thesis
    by (simp add: AtDns stage_turn_def dns_query_total del: stage_ok.simps)
next
  case (AtPort geo query acc)
  from assms(2,3) learn_quiet [OF assms(1) assms(3) [unfolded AtPort]] show ?thesis
    by (auto simp: AtPort stage_turn_def)
next
  case (AtKnownPort geo query acc)
  from assms(2) learn_view [OF assms(1) assms(3) [unfolded AtKnownPort]] show ?thesis
    by (simp add: AtKnownPort stage_turn_def del: stage_ok.simps)
next
  case (AtLearn geo query r)
  then show ?thesis using assms(2,3) by (auto simp: stage_turn_def)
next
  case (Observing obs r)
  then show ?thesis using assms(2,3) view_ok_fields(4) [OF assms(2)] by (cases obs) (auto simp: stage_turn_def)
next
  case (Scored r)
  then show ?thesis using assms(2,3) by (auto simp: stage_turn_def)
qed (rule turn_gives [OF _ syn_turn_view [OF assms(2)] syn_turn_ok [OF assms(3,2)]], simp add: stage_turn_def)+

text \<open>A stage that was sound stays so when more packets have been seen.\<close>

lemma stage_ok_mono: "stage_ok env C bl pkt tm st \<Longrightarrow> C \<subseteq> C' \<Longrightarrow> stage_ok env C' bl pkt tm st"
  by (cases st) (simp_all add: done_ok_def, (blast intro: view_ok_mono)+)

text \<open>The same for a worker.  \<open>analysed env C bl pkt r\<close>: the analysis of \<open>pkt\<close> by some well-formed engine
  with blacklist \<open>bl\<close>, whose port scan detector has seen no other pairs of a source and a port than
  those of \<open>C\<close>, with some answer of the SYN flood detector, gives \<open>r\<close>.\<close>

definition analysed :: "'b env \<Rightarrow> (ip_addr \<times> u16) set \<Rightarrow> 'b blacklist \<Rightarrow> raw_packet \<Rightarrow> ids_result \<Rightarrow> bool" where
  "analysed env C bl pkt r \<longleftrightarrow>
     (case transport pkt of
        None \<Rightarrow> r = IdsResult_from_signals [] 0
      | Some tm \<Rightarrow> pair_in tm C \<and>
          (\<exists>clk e S. view_ok env C bl e \<and> syn_answer tm S \<and> r = packet_result_with env clk pkt tm e S))"

definition worker_ok :: "'b env \<Rightarrow> (ip_addr \<times> u16) set \<Rightarrow> 'b blacklist \<Rightarrow> worker \<Rightarrow> bool" where
  "worker_ok env C bl w \<longleftrightarrow>
     (case transport (w_packet w) of
        None \<Rightarrow> w_stage w = Scored (IdsResult_from_signals [] 0)
      | Some tm \<Rightarrow> pair_in tm C \<and> stage_ok env C bl (w_packet w) tm (w_stage w))"

lemma worker_ok_mono: "worker_ok env C bl w \<Longrightarrow> C \<subseteq> C' \<Longrightarrow> worker_ok env C' bl w"
  by (auto simp: worker_ok_def pair_in_def intro: stage_ok_mono split: option.splits)

lemma analysed_mono: "analysed env C bl pkt r \<Longrightarrow> C \<subseteq> C' \<Longrightarrow> analysed env C' bl pkt r"
  by (auto simp: analysed_def pair_in_def intro: view_ok_mono split: option.splits)

text \<open>The pairs of a source and a port in a list of packets.\<close>

definition scan_pairs :: "raw_packet list \<Rightarrow> (ip_addr \<times> u16) set" where
  "scan_pairs ps = {(src, port). \<exists>p \<in> set ps. \<exists>tm. transport p = Some tm \<and> src_ip tm = src \<and> dst_port tm = Some port}"

lemma scan_pairs_simps [simp]: "scan_pairs [] = {}" "scan_pairs (ps @ qs) = scan_pairs ps \<union> scan_pairs qs"
  by (auto simp: scan_pairs_def)

lemma scan_pairs_in: "p \<in> set ps \<Longrightarrow> transport p = Some tm \<Longrightarrow> pair_in tm (scan_pairs ps)"
  by (auto simp: scan_pairs_def pair_in_def)

lemma finite_scan_pairs: "finite (scan_pairs ps)"
proof -
  have "scan_pairs ps \<subseteq> (\<lambda>p. (src_ip (the (transport p)), the (dst_port (the (transport p))))) ` set ps"
    by (force simp: scan_pairs_def)
  then show ?thesis by (rule finite_subset) simp
qed

lemma worker_start_ok:
  "(\<And>tm. transport pkt = Some tm \<Longrightarrow> pair_in tm C) \<Longrightarrow> worker_ok env C bl (worker_start env bl pkt)"
  by (simp add: worker_ok_def worker_start_def split: option.split)

lemma worker_turn_ok:
  assumes "ac_ok (env_ac env)" and "view_ok env C bl f" and "worker_ok env C bl w"
  shows "\<exists>f' w'. worker_turn env clk f w = Some (f', w') \<and> view_ok env C bl f' \<and> worker_ok env C bl w' \<and>
     w_packet w' = w_packet w \<and> (finished w \<or> turns_left (w_stage w') < turns_left (w_stage w))"
proof (cases "transport (w_packet w)")
  case None
  then show ?thesis using assms(2,3) by (auto simp: worker_turn_def worker_ok_def finished_iff)
next
  case (Some tm)
  then have ok: "stage_ok env C bl (w_packet w) tm (w_stage w)" "pair_in tm C" using assms(3) by (simp_all add: worker_ok_def)
  from stage_turn_ok [OF assms(1,2) ok, of clk] obtain f' st' where
    st: "stage_turn env clk (w_packet w) tm f (w_stage w) = Some (f', st')" "view_ok env C bl f'"
      "stage_ok env C bl (w_packet w) tm st'" by blast
  have "finished w \<or> turns_left st' < turns_left (w_stage w)" using stage_turn_less [OF st(1)] by (auto simp: finished_iff)
  with st Some ok(2) show ?thesis by (auto simp: worker_turn_def worker_ok_def)
qed

lemma worker_start_left: "turns_left (w_stage (worker_start env bl pkt)) \<le> 21"
  by (simp add: worker_start_def split: option.split)

lemma worker_start_packet: "w_packet (worker_start env bl pkt) = pkt"
  by (simp add: worker_start_def)

lemma worker_turn_finished: "finished w \<Longrightarrow> worker_turn env clk e w = Some (e, w)"
  by (auto simp: worker_turn_def stage_turn_def finished_iff split: option.split)

lemma worker_turn_less:
  assumes "worker_turn env clk e w = Some (e', w')" and "\<not> finished w" and "transport (w_packet w) \<noteq> None"
  shows "turns_left (w_stage w') < turns_left (w_stage w)"
  using assms stage_turn_less by (fastforce simp: worker_turn_def finished_iff bind_eq_Some_conv)

lemma worker_result: "worker_ok env C bl w \<Longrightarrow> w_stage w = Scored r \<Longrightarrow> analysed env C bl (w_packet w) r"
  by (auto simp: worker_ok_def analysed_def done_ok_def split: option.splits)


section \<open>\<open>IdsEngine_analyze\<close> is the run without interruption\<close>

definition runs_to :: "'b env \<Rightarrow> engine_clock \<Rightarrow> raw_packet \<Rightarrow> 'b engine \<times> stage \<Rightarrow> 'b engine \<times> stage \<Rightarrow> bool" where
  "runs_to env clk pkt a b \<longleftrightarrow> (\<exists>n. worker_run env (replicate n clk) (fst a) \<lparr>w_packet = pkt, w_stage = snd a\<rparr> =
     Some (fst b, \<lparr>w_packet = pkt, w_stage = snd b\<rparr>))"

lemma runs_to_turn:
  assumes "transport pkt = Some tm" and "stage_turn env clk pkt tm e st = Some (e1, st1)"
    and "runs_to env clk pkt (e1, st1) b"
  shows "runs_to env clk pkt (e, st) b"
proof -
  obtain n where "worker_run env (replicate n clk) e1 \<lparr>w_packet = pkt, w_stage = st1\<rparr> =
      Some (fst b, \<lparr>w_packet = pkt, w_stage = snd b\<rparr>)" using assms(3) by (auto simp: runs_to_def)
  then have "worker_run env (replicate (Suc n) clk) e \<lparr>w_packet = pkt, w_stage = st\<rparr> =
      Some (fst b, \<lparr>w_packet = pkt, w_stage = snd b\<rparr>)" by (simp add: worker_turn_def assms(1,2))
  then show ?thesis unfolding runs_to_def fst_conv snd_conv by (rule exI)
qed

lemma runs_to_refl: "runs_to env clk pkt a a"
  unfolding runs_to_def by (intro exI [of _ 0]) simp

lemma runs_observing:
  assumes "transport pkt = Some tm"
  shows "runs_to env clk pkt (e, Observing obs r) (e\<lparr>e_baseline := fold (observe (env_lc env)) obs (e_baseline e)\<rparr>, Scored r)"
proof (induction obs arbitrary: e)
  case Nil
  then show ?case by (intro runs_to_turn [OF assms _ runs_to_refl]) (simp add: stage_turn_def)
next
  case (Cons ob obs)
  have t: "stage_turn env clk pkt tm e (Observing (ob # obs) r) =
      Some (e\<lparr>e_baseline := observe (env_lc env) ob (e_baseline e)\<rparr>, Observing obs r)" by (simp add: stage_turn_def)
  from runs_to_turn [OF assms t Cons.IH] show ?case by simp
qed

lemma update_baseline_observes:
  "update_baseline lc tm geo query b = fold (observe lc) (observations_of tm geo query) b"
  by (simp add: update_baseline_def observations_of_def Let_def split: option.split)

lemma runs_geo:
  assumes "transport pkt = Some tm"
    and "runs_to env clk pkt (e, AtDns (country_code env (src_ip tm))
       (push_opt 4 (geo_signal (country_code env (src_ip tm)) (e_baseline e) tm) acc)) b"
  shows "runs_to env clk pkt (e, AtGeo acc) b"
proof (cases "country_code env (src_ip tm) \<noteq> None \<and> bl_phase (e_baseline e) = Refinement")
  case True
  then have eq: "(e_baseline e)\<lparr>bl_phase := Refinement\<rparr> = e_baseline e" by simp
  have "runs_to env clk pkt (e, AtCountry (country_code env (src_ip tm)) acc) b"
    by (rule runs_to_turn [OF assms(1) _ assms(2)]) (simp only: stage_turn_def stage.case eq)
  then show ?thesis by (rule runs_to_turn [OF assms(1), rotated]) (use True in \<open>simp add: stage_turn_def\<close>)
next
  case False
  then have "geo_signal (country_code env (src_ip tm)) (e_baseline e) tm = None"
    by (auto simp: geo_signal_def split: option.split)
  with assms(2) have "runs_to env clk pkt (e, AtDns (country_code env (src_ip tm)) acc) b" by (simp add: push_opt_def)
  then show ?thesis by (rule runs_to_turn [OF assms(1), rotated]) (use False in \<open>auto simp: stage_turn_def\<close>)
qed

lemma runs_ports:
  assumes "transport pkt = Some tm"
    and "runs_to env clk pkt (e, AtLearn geo query (result_of tm (port_signals (e_baseline e) tm) acc)) b"
  shows "runs_to env clk pkt (e, AtPort geo query acc) b"
proof (cases "dst_port tm \<noteq> None \<and> bl_phase (e_baseline e) = Refinement")
  case True
  then have eq: "(e_baseline e)\<lparr>bl_phase := Refinement\<rparr> = e_baseline e" by simp
  have "runs_to env clk pkt (e, AtKnownPort geo query acc) b"
    by (rule runs_to_turn [OF assms(1) _ assms(2)]) (simp only: stage_turn_def stage.case eq)
  then show ?thesis by (rule runs_to_turn [OF assms(1), rotated]) (use True in \<open>simp add: stage_turn_def\<close>)
next
  case False
  then have "port_signals (e_baseline e) tm = []" by (auto simp: port_signals_def split: option.split)
  with assms(2) have "runs_to env clk pkt (e, AtLearn geo query (result_of tm [] acc)) b" by simp
  then show ?thesis by (rule runs_to_turn [OF assms(1), rotated]) (use False in \<open>auto simp: stage_turn_def\<close>)
qed

lemma runs_learn:
  assumes "transport pkt = Some tm"
  shows "runs_to env clk pkt (e, AtLearn geo query r)
     (if Baseline_is_learning (e_baseline e) \<or> total_score r < THRESHOLD_INFO
      then e\<lparr>e_baseline := update_baseline (env_lc env) tm geo query (e_baseline e)\<rparr> else e, Scored r)"
proof (cases "Baseline_is_learning (e_baseline e) \<or> total_score r < THRESHOLD_INFO")
  case True
  have "runs_to env clk pkt (e, Observing (observations_of tm geo query) r)
      (e\<lparr>e_baseline := update_baseline (env_lc env) tm geo query (e_baseline e)\<rparr>, Scored r)"
    unfolding update_baseline_observes by (rule runs_observing [OF assms])
  moreover have "stage_turn env clk pkt tm e (AtLearn geo query r) = Some (e, Observing (observations_of tm geo query) r)"
    using True by (simp add: stage_turn_def)
  ultimately have "runs_to env clk pkt (e, AtLearn geo query r)
      (e\<lparr>e_baseline := update_baseline (env_lc env) tm geo query (e_baseline e)\<rparr>, Scored r)"
    using runs_to_turn [OF assms] by blast
  then show ?thesis using True by (simp only: if_True)
next
  case False
  show ?thesis by (rule runs_to_turn [OF assms _ runs_to_refl]) (use False in \<open>simp add: stage_turn_def\<close>)
qed

lemma runs_scan:
  assumes "transport pkt = Some tm"
    and "scan_section (env_hash64 env) (ec_scan clk) tm (e_port_scan e) acc = (acc', ps)"
    and "runs_to env clk pkt (e\<lparr>e_port_scan := ps\<rparr>, AtCounters acc') b"
  shows "runs_to env clk pkt (e, AtPorts acc) b"
proof (cases "dst_port tm")
  case None
  then have "acc' = acc" and "ps = e_port_scan e" using assms(2) by (simp_all add: scan_section_def)
  with assms(3) have "runs_to env clk pkt (e, AtCounters acc) b" by simp
  then show ?thesis by (rule runs_to_turn [OF assms(1), rotated]) (simp add: stage_turn_def scan_turn_def None)
next
  case (Some port)
  obtain n d1 where n: "insert_port (ec_scan clk) (src_ip tm) port (e_port_scan e) = (n, d1)" by (meson surj_pair)
  show ?thesis
  proof (cases "horizontal_signal (src_ip tm) n d1")
    case h: None
    obtain m d2 where m: "insert_src (env_hash64 env) (ec_scan clk) (src_ip tm) port d1 = (m, d2)" by (meson surj_pair)
    have "acc' = push_opt 1 (vertical_signal port m d2) acc" "ps = d2"
      using assms(2) by (auto simp: scan_section_def Some PortScanDetector_inspect_def n m h)
    with assms(3) have "runs_to env clk pkt (e\<lparr>e_port_scan := d1\<rparr>, AtSrcs port acc) b"
      by (intro runs_to_turn [OF assms(1) _ assms(3)]) (simp add: stage_turn_def scan_turn_def m)
    then show ?thesis by (rule runs_to_turn [OF assms(1), rotated]) (simp add: stage_turn_def scan_turn_def Some n h)
  next
    case h: (Some sg)
    have "acc' = push_opt 1 (Some sg) acc" "ps = d1"
      using assms(2) by (auto simp: scan_section_def Some PortScanDetector_inspect_def n h)
    then show ?thesis by (intro runs_to_turn [OF assms(1) _ assms(3)]) (simp add: stage_turn_def scan_turn_def Some n h)
  qed
qed

lemma runs_track:
  assumes "transport pkt = Some tm"
    and "runs_to env clk pkt (e\<lparr>e_syn_flood := (e_syn_flood e)\<lparr>half_open :=
      track_half_open (yc_insert (ec_syn clk)) flow reply flags (half_open (e_syn_flood e))\<rparr>\<rparr>, AtHalfOpen flags flow reply acc) b"
  shows "runs_to env clk pkt (e, AtTrack flags flow reply acc) b"
proof -
  consider (syn) "is_syn flags" | (ack) "\<not> is_syn flags" "is_syn_ack flags \<or> is_rst flags \<or> is_ack flags"
    | (other) "\<not> is_syn flags" "\<not> (is_syn_ack flags \<or> is_rst flags \<or> is_ack flags)" by blast
  then show ?thesis
  proof cases
    case syn
    then show ?thesis
      by (intro runs_to_turn [OF assms(1) _ assms(2)]) (simp add: stage_turn_def syn_turn_def Let_def track_half_open_def)
  next
    case ack
    have "runs_to env clk pkt (e\<lparr>e_syn_flood := (e_syn_flood e)\<lparr>half_open := tab_remove reply (half_open (e_syn_flood e))\<rparr>\<rparr>,
        AtUntrack flags flow reply acc) b"
      by (rule runs_to_turn [OF assms(1) _ assms(2)])
        (use ack in \<open>simp add: stage_turn_def syn_turn_def Let_def track_half_open_def\<close>)
    then show ?thesis
      by (rule runs_to_turn [OF assms(1), rotated]) (use ack in \<open>simp add: stage_turn_def syn_turn_def Let_def\<close>)
  next
    case other
    then have "runs_to env clk pkt (e, AtHalfOpen flags flow reply acc) b" using assms(2) by (simp add: track_half_open_def)
    then show ?thesis
      by (rule runs_to_turn [OF assms(1), rotated]) (use other in \<open>simp add: stage_turn_def syn_turn_def Let_def\<close>)
  qed
qed

lemma runs_half_open:
  fixes e :: "'b engine"
  defines "ho \<equiv> half_open (e_syn_flood e)"
  assumes "transport pkt = Some tm"
    and "runs_to env clk pkt (e, AtGeo (after_syn pkt tm (half_open_signals (tab_len ho) (e_syn_flood e) @
      rst_signals (src_ip tm) flags (tab_get ho flow \<noteq> None \<or> tab_get ho reply \<noteq> None) @ xmas_signals (src_ip tm) flags) acc)) b"
  shows "runs_to env clk pkt (e, AtHalfOpen flags flow reply acc) b"
proof -
  let ?acc = "push_all 2 (half_open_signals (tab_len ho) (e_syn_flood e)) acc"
  have geo: "runs_to env clk pkt (e, AtGeo (after_syn pkt tm
      (rst_signals (src_ip tm) flags (tab_get ho flow \<noteq> None \<or> tab_get ho reply \<noteq> None) @ xmas_signals (src_ip tm) flags) ?acc)) b"
    using assms(3) by (simp add: after_syn_def push_all_append)
  show ?thesis
  proof (cases "is_rst flags")
    case False
    with geo have "runs_to env clk pkt (e, AtGeo (after_syn pkt tm (xmas_signals (src_ip tm) flags) ?acc)) b"
      by (simp add: rst_signals_def)
    then show ?thesis
      by (rule runs_to_turn [OF assms(2), rotated]) (use False in \<open>simp add: stage_turn_def syn_turn_def Let_def ho_def\<close>)
  next
    case True
    have "runs_to env clk pkt (e, AtFlow flags flow reply ?acc) b"
    proof (cases "tab_get ho flow")
      case None
      with geo have "runs_to env clk pkt (e, AtRevFlow flags flow reply ?acc) b"
        by (intro runs_to_turn [OF assms(2) _ geo]) (simp add: stage_turn_def syn_turn_def Let_def ho_def)
      then show ?thesis
        by (rule runs_to_turn [OF assms(2), rotated]) (use None in \<open>simp add: stage_turn_def syn_turn_def Let_def ho_def\<close>)
    next
      case (Some t)
      with geo have "runs_to env clk pkt (e, AtGeo (after_syn pkt tm (xmas_signals (src_ip tm) flags) ?acc)) b"
        by (simp add: rst_signals_def)
      then show ?thesis
        by (rule runs_to_turn [OF assms(2), rotated]) (use Some in \<open>simp add: stage_turn_def syn_turn_def Let_def ho_def\<close>)
    qed
    then show ?thesis
      by (rule runs_to_turn [OF assms(2), rotated]) (use True in \<open>simp add: stage_turn_def syn_turn_def Let_def ho_def\<close>)
  qed
qed

lemma runs_syn:
  assumes "transport pkt = Some tm"
    and "syn_section (ec_syn clk) tm (e_syn_flood e) acc = (acc', sf)"
    and "runs_to env clk pkt (e\<lparr>e_syn_flood := sf\<rparr>, AtGeo (push_quiet (trunc_signals pkt) (push_quiet (frag_signals tm)
      (push_quiet (icmp_signals tm) acc')))) b"
  shows "runs_to env clk pkt (e, AtCounters acc) b"
proof (cases "syn_keys tm")
  case None
  then have s: "acc' = acc" "sf = e_syn_flood e"
    using assms(2) by (auto simp: syn_section_def syn_keys_def split: option.splits)
  have "runs_to env clk pkt (e, AtGeo (after_syn pkt tm [] acc)) b"
    using assms(3) by (simp add: s after_syn_def push_all_def)
  then show ?thesis
    by (rule runs_to_turn [OF assms(1), rotated]) (use None in \<open>simp add: stage_turn_def syn_turn_def Let_def\<close>)
next
  case (Some k)
  then obtain flags sp dp where k: "tcp_flags tm = Some flags" "src_port tm = Some sp" "dst_port tm = Some dp"
    by (auto simp: syn_keys_def split: option.splits)
  let ?flow = "(src_ip tm, dst_ip tm, sp, dp)" and ?reply = "(dst_ip tm, src_ip tm, dp, sp)"
  obtain c d1 where c: "count_packet (ec_syn clk) (src_ip tm) flags (e_syn_flood e) = (c, d1)" by (meson surj_pair)
  let ?ho = "track_half_open (yc_insert (ec_syn clk)) ?flow ?reply flags (half_open d1)"
  let ?d2 = "d1\<lparr>half_open := ?ho\<rparr>"
  have sf: "sf = ?d2" and acc': "acc' = push_all 2 (flood_signals (src_ip tm) c d1 @ half_open_signals (tab_len ?ho) ?d2 @
      rst_signals (src_ip tm) flags (tab_get ?ho ?flow \<noteq> None \<or> tab_get ?ho ?reply \<noteq> None) @ xmas_signals (src_ip tm) flags) acc"
    using assms(2) by (auto simp: syn_section_def k SynFloodDetector_inspect_def c Let_def)
  let ?acc1 = "push_all 2 (flood_signals (src_ip tm) c d1) acc"
  have "runs_to env clk pkt (e\<lparr>e_syn_flood := ?d2\<rparr>, AtHalfOpen flags ?flow ?reply ?acc1) b"
    using assms(3) by (intro runs_half_open [OF assms(1)]) (simp add: sf acc' after_syn_def push_all_append)
  then have "runs_to env clk pkt (e\<lparr>e_syn_flood := d1\<rparr>, AtTrack flags ?flow ?reply ?acc1) b"
    by (intro runs_track [OF assms(1)]) simp
  then show ?thesis
    by (rule runs_to_turn [OF assms(1), rotated]) (simp add: stage_turn_def syn_turn_def Let_def syn_keys_def k c)
qed

lemma analyze_runs:
  assumes "IdsEngine_analyze env clk pkt e = Some (r, e')" and "transport pkt = Some tm"
  shows "runs_to env clk pkt (e, AtRate (blacklist_section env (e_blacklist e) tm ([], 0))) (e', Scored r)"
proof -
  let ?acc0 = "blacklist_section env (e_blacklist e) tm ([], 0)"
  obtain acc1 rl where 1: "rate_section (ec_rate clk) pkt tm (e_rate_limiter e) ?acc0 = (acc1, rl)" by (meson surj_pair)
  obtain acc2 ps where 2: "scan_section (env_hash64 env) (ec_scan clk) tm (e_port_scan e) acc1 = (acc2, ps)" by (meson surj_pair)
  obtain acc3 sf where 3: "syn_section (ec_syn clk) tm (e_syn_flood e) acc2 = (acc3, sf)" by (meson surj_pair)
  let ?acc7 = "push_quiet (trunc_signals pkt) (push_quiet (frag_signals tm) (push_quiet (icmp_signals tm) acc3))"
  let ?geo = "country_code env (src_ip tm)"
  let ?acc8 = "push_opt 4 (geo_signal ?geo (e_baseline e) tm) ?acc7"
  from assms(1) obtain acc9 query acc10 where
    9: "payload_section (env_ac env) (e_payload e) pkt tm ?acc8 = Some acc9" and
    q: "dns_query_section pkt tm = Some query" and
    10: "dns_section env (e_blacklist e) (e_baseline e) pkt tm query acc9 = Some acc10" and
    r: "r = result_of tm (port_signals (e_baseline e) tm) acc10" and
    e': "e' = e\<lparr>e_rate_limiter := rl, e_port_scan := ps, e_syn_flood := sf,
       e_baseline := if Baseline_is_learning (e_baseline e) \<or> total_score r < THRESHOLD_INFO
         then update_baseline (env_lc env) tm ?geo query (e_baseline e) else e_baseline e\<rparr>"
    by (auto simp: IdsEngine_analyze_def assms(2) Let_def 1 2 3 bind_eq_Some_conv result_of_def)
  let ?e = "e\<lparr>e_rate_limiter := rl, e_port_scan := ps, e_syn_flood := sf\<rparr>"
  have "runs_to env clk pkt (?e, AtLearn ?geo query r) (e', Scored r)"
    using runs_learn [OF assms(2), of env clk ?e ?geo query r]
    by (cases "Baseline_is_learning (e_baseline e) \<or> total_score r < THRESHOLD_INFO") (simp_all add: e')
  then have "runs_to env clk pkt (?e, AtPort ?geo query acc10) (e', Scored r)"
    by (intro runs_ports [OF assms(2)]) (simp add: r)
  then have "runs_to env clk pkt (?e, AtDns ?geo ?acc8) (e', Scored r)"
    by (rule runs_to_turn [OF assms(2), rotated]) (simp add: stage_turn_def 9 q 10)
  then have "runs_to env clk pkt (?e, AtGeo ?acc7) (e', Scored r)"
    by (intro runs_geo [OF assms(2)]) simp
  then have "runs_to env clk pkt (e\<lparr>e_rate_limiter := rl, e_port_scan := ps\<rparr>, AtCounters acc2) (e', Scored r)"
    by (intro runs_syn [where e = "e\<lparr>e_rate_limiter := rl, e_port_scan := ps\<rparr>", OF assms(2)]) (simp_all add: 3)
  then have "runs_to env clk pkt (e\<lparr>e_rate_limiter := rl\<rparr>, AtPorts acc1) (e', Scored r)"
    by (intro runs_scan [where e = "e\<lparr>e_rate_limiter := rl\<rparr>", OF assms(2)]) (simp_all add: 2)
  then show ?thesis
    by (rule runs_to_turn [OF assms(2), rotated]) (simp add: stage_turn_def 1)
qed

lemma uninterrupted:
  assumes "IdsEngine_analyze env clk pkt e = Some (r, e')"
  shows "\<exists>n. worker_run env (replicate n clk) e (worker_start env (e_blacklist e) pkt) =
     Some (e', \<lparr>w_packet = pkt, w_stage = Scored r\<rparr>)"
proof (cases "transport pkt")
  case None
  then show ?thesis using assms by (intro exI [of _ 0]) (simp add: worker_start_def IdsEngine_analyze_def)
next
  case (Some tm)
  from analyze_runs [OF assms Some] show ?thesis
    by (simp add: runs_to_def worker_start_def Some)
qed


section \<open>The sweeper's calls\<close>

text \<open>The round of the sweeper as calls that sweep one map, or touch the baseline once, each: the
  persisting at the end of the learning period stands behind the change of the phase.\<close>

datatype sweep_call =
    SweepPorts instant
  | SweepSrcs instant
  | SweepHalfOpen instant
  | SweepCounters instant
  | SweepRate instant
  | TickPhase int int
  | Persist bool

fun sweeper_call :: "json_api \<Rightarrow> sweep_call \<Rightarrow> 'b engine \<times> disk \<Rightarrow> 'b engine \<times> disk" where
  "sweeper_call js (SweepPorts t) (e, disk) = (e\<lparr>e_port_scan := sweep_ports t (e_port_scan e)\<rparr>, disk)"
| "sweeper_call js (SweepSrcs t) (e, disk) = (e\<lparr>e_port_scan := sweep_srcs t (e_port_scan e)\<rparr>, disk)"
| "sweeper_call js (SweepHalfOpen t) (e, disk) = (e\<lparr>e_syn_flood := sweep_half_open t (e_syn_flood e)\<rparr>, disk)"
| "sweeper_call js (SweepCounters t) (e, disk) = (e\<lparr>e_syn_flood := sweep_counters t (e_syn_flood e)\<rparr>, disk)"
| "sweeper_call js (SweepRate t) (e, disk) = (e\<lparr>e_rate_limiter := RateLimiter_sweep t (e_rate_limiter e)\<rparr>, disk)"
| "sweeper_call js (TickPhase elapsed finish) (e, disk) =
     (if learning_over elapsed (e_baseline e) then e\<lparr>e_baseline := enter_refinement finish (e_baseline e)\<rparr> else e, disk)"
| "sweeper_call js (Persist ok) (e, disk) = (e, Baseline_persist js ok (e_baseline e) disk)"

definition round_calls :: "bool \<Rightarrow> bool \<Rightarrow> sweep_clock \<Rightarrow> baseline \<Rightarrow> sweep_call list" where
  "round_calls ok1 ok2 clk b =
     [SweepPorts (sw_scan clk), SweepSrcs (sw_scan clk), SweepHalfOpen (sw_syn clk), SweepCounters (sw_syn clk),
      SweepRate (sw_rate clk), TickPhase (sw_elapsed clk) (sw_finish clk)] @
     (if learning_over (sw_elapsed clk) b then [Persist ok1] else []) @ [Persist ok2]"

lemma sweeper_tick_calls:
  "sweeper_tick js ok1 ok2 clk (e, d) = fold (sweeper_call js) (round_calls ok1 ok2 clk (e_baseline e)) (e, d)"
  by (simp add: sweeper_tick_def round_calls_def Let_def PortScanDetector_sweep_def SynFloodDetector_sweep_def
      Baseline_tick_phase_def Baseline_finish_learning_def learning_over_def Baseline_is_learning_def)

lemma view_ok_call: "view_ok env C bl e \<Longrightarrow> view_ok env C bl (fst (sweeper_call js call (e, d)))"
  by (cases call) (simp_all add: view_ok_def engine_inv_def scan_std_sweep_ports scan_std_sweep_srcs
      scan_sound_sweep_ports scan_sound_sweep_srcs
      syn_std_sweep_half_open syn_std_sweep_counters rate_inv_sweep)

section \<open>Properties\<close>

text \<open>An analysis taken turn by turn, nothing else touching the engine in between,
  is \<open>analyze\<close> as one call: it ends, with the same result and the same engine.\<close>

theorem analyze_uninterrupted:
  assumes "IdsEngine_analyze env clk pkt e = Some (r, e')"
  shows "\<exists>n. worker_run env (replicate n clk) e (worker_start env (e_blacklist e) pkt) =
     Some (e', \<lparr>w_packet = pkt, w_stage = Scored r\<rparr>)"
  using assms by (rule uninterrupted)

theorem analyze_uninterrupted_witness:
  "\<exists>n r e'. worker_run demo_env (replicate n demo_clock) demo_engine (worker_start demo_env (e_blacklist demo_engine) demo_packet) =
     Some (e', \<lparr>w_packet = demo_packet, w_stage = Scored r\<rparr>)"
proof -
  obtain r e' where "IdsEngine_analyze demo_env demo_clock demo_packet demo_engine = Some (r, e')"
    using analyze_step [OF demo_env_ok demo_engine_inv] by blast
  from analyze_uninterrupted [OF this] show ?thesis by blast
qed


end
