(* ===== verification/Fifo.thy ===== *)
theory Fifo
  imports Prelude
begin

text \<open>
  The contract shared by the two queues of the pipeline, the ring buffer between capture
  and analyzer and the mpsc channel between analyzer and gRPC sender: both may lose items
  when they are full, neither reorders, duplicates or invents any.
\<close>

datatype 'a fifo_event = Enq 'a | Deq nat

fun fifo_run ::
  "('a \<Rightarrow> 'q \<Rightarrow> 'q) \<Rightarrow> (nat \<Rightarrow> 'q \<Rightarrow> 'a list \<times> 'q) \<Rightarrow> 'a fifo_event list \<Rightarrow> 'q \<Rightarrow> 'a list \<times> 'q"
where
  "fifo_run enq deq [] q = ([], q)"
| "fifo_run enq deq (Enq x # es) q = fifo_run enq deq es (enq x q)"
| "fifo_run enq deq (Deq n # es) q =
     (case deq n q of (xs, q') \<Rightarrow>
        case fifo_run enq deq es q' of (ys, q'') \<Rightarrow> (xs @ ys, q''))"

fun submitted :: "'a fifo_event list \<Rightarrow> 'a list" where
  "submitted [] = []"
| "submitted (Enq x # es) = x # submitted es"
| "submitted (Deq n # es) = submitted es"

lemma fifo_run_append:
  "fifo_run enq deq (es @ fs) q =
     (case fifo_run enq deq es q of (xs, q') \<Rightarrow>
        case fifo_run enq deq fs q' of (ys, q'') \<Rightarrow> (xs @ ys, q''))"
  by (induction es arbitrary: q rule: submitted.induct) (auto split: prod.splits)

lemma submitted_append [simp]: "submitted (es @ fs) = submitted es @ submitted fs"
  by (induction es rule: submitted.induct) auto

locale lossy_fifo =
  fixes items :: "'q \<Rightarrow> 'a list"
    and enq :: "'a \<Rightarrow> 'q \<Rightarrow> 'q"
    and deq :: "nat \<Rightarrow> 'q \<Rightarrow> 'a list \<times> 'q"
    and inv :: "'q \<Rightarrow> bool"
  assumes inv_enq: "inv q \<Longrightarrow> inv (enq x q)"
    and inv_deq: "inv q \<Longrightarrow> deq n q = (xs, q') \<Longrightarrow> inv q'"
    and items_enq: "inv q \<Longrightarrow> subseq (items (enq x q)) (items q @ [x])"
    and items_deq: "inv q \<Longrightarrow> deq n q = (xs, q') \<Longrightarrow> xs @ items q' = items q"
begin

lemma run_inv: "inv q \<Longrightarrow> inv (snd (fifo_run enq deq es q))"
proof (induction es arbitrary: q)
  case Nil
  then show ?case by simp
next
  case (Cons e es)
  then show ?case
    by (cases e) (auto split: prod.splits intro: inv_enq, metis inv_deq snd_conv)
qed

lemma run_subseq:
  "inv q \<Longrightarrow> fifo_run enq deq es q = (ys, q') \<Longrightarrow> subseq (ys @ items q') (items q @ submitted es)"
proof (induction es arbitrary: q ys q')
  case Nil
  then show ?case by simp
next
  case (Cons e es)
  show ?case
  proof (cases e)
    case (Enq x)
    with Cons.prems have "subseq (ys @ items q') (items (enq x q) @ submitted es)"
      by (intro Cons.IH) (auto intro: inv_enq)
    also have "subseq \<dots> ((items q @ [x]) @ submitted es)"
      using items_enq [OF Cons.prems(1)] by (intro list_emb_append_mono) auto
    finally show ?thesis using Enq by simp
  next
    case (Deq n)
    obtain xs q1 where d: "deq n q = (xs, q1)" by force
    obtain zs where z: "fifo_run enq deq es q1 = (zs, q')" and ys: "ys = xs @ zs"
      using Cons.prems(2) Deq d by (auto split: prod.splits)
    have "subseq (zs @ items q') (items q1 @ submitted es)"
      using z inv_deq [OF Cons.prems(1) d] by (intro Cons.IH)
    then have "subseq (xs @ zs @ items q') (xs @ items q1 @ submitted es)"
      by (rule list_emb_append_mono [OF subseq_order.order_refl])
    then show ?thesis
      using items_deq [OF Cons.prems(1) d] Deq ys by (simp flip: append_assoc)
  qed
qed

text \<open>What is delivered is a subsequence, in order, of what was queued and submitted.\<close>

lemma delivered_subseq:
  assumes "inv q" and "items q = []"
  shows "subseq (fst (fifo_run enq deq es q)) (submitted es)"
proof -
  obtain ys q' where r: "fifo_run enq deq es q = (ys, q')" by force
  have "subseq ys (ys @ items q')" by (rule list_emb_prefix) simp
  also have "subseq \<dots> (submitted es)" using run_subseq [OF assms(1) r] assms(2) by simp
  finally show ?thesis by (simp add: r)
qed

end

end
