(* ===== verification/RingBuffer.thy ===== *)
theory RingBuffer
  imports Fifo
begin

text \<open>
  The bounded ring buffer of \<open>ring_buffer.rs\<close>.  Every operation holds the mutex for its
  whole body, so it is one atomic function of the inner state; \<open>pop_blocking\<close> releases
  the mutex only inside \<open>Condvar::wait\<close>, so each turn of its loop is one atomic step and
  the waiting threads are part of the state of the second half of the theory.
\<close>

section \<open>State and operations\<close>

record 'a ring =
  buf :: "'a list"
  cap :: usize
  dropped :: u64
  closed :: bool

definition RingBuffer_new :: "usize \<Rightarrow> 'a ring" where
  "RingBuffer_new c = \<lparr>buf = [], cap = c, dropped = 0, closed = False\<rparr>"

definition RingBuffer_push :: "'a \<Rightarrow> 'a ring \<Rightarrow> u64 \<times> 'a ring" where
  "RingBuffer_push item r =
     (let r1 = (if length (buf r) = cap r
                then r\<lparr>buf := drop 1 (buf r), dropped := dropped r + 1\<rparr> else r);
          r2 = r1\<lparr>buf := buf r1 @ [item]\<rparr>
      in (dropped r2, r2))"

text \<open>One turn of the loop of \<open>pop_blocking\<close>, from taking the mutex to returning or waiting.\<close>

datatype 'a pop_turn = Returned "'a option" | Waits

definition RingBuffer_pop_turn :: "'a ring \<Rightarrow> 'a pop_turn \<times> 'a ring" where
  "RingBuffer_pop_turn r =
     (case buf r of
        item # rest \<Rightarrow> (Returned (Some item), r\<lparr>buf := rest\<rparr>)
      | [] \<Rightarrow> if closed r then (Returned None, r) else (Waits, r))"

definition RingBuffer_try_pop :: "'a ring \<Rightarrow> 'a option \<times> 'a ring" where
  "RingBuffer_try_pop r =
     (case buf r of [] \<Rightarrow> (None, r) | item # rest \<Rightarrow> (Some item, r\<lparr>buf := rest\<rparr>))"

definition RingBuffer_drain_batch :: "usize \<Rightarrow> 'a ring \<Rightarrow> 'a list \<times> 'a ring" where
  "RingBuffer_drain_batch mx r =
     (let count = min mx (length (buf r))
      in (take count (buf r), r\<lparr>buf := drop count (buf r)\<rparr>))"

definition RingBuffer_close :: "'a ring \<Rightarrow> 'a ring" where
  "RingBuffer_close r = r\<lparr>closed := True\<rparr>"

definition RingBuffer_stats :: "'a ring \<Rightarrow> usize \<times> u64" where
  "RingBuffer_stats r = (length (buf r), dropped r)"

lemmas ring_ops = RingBuffer_push_def RingBuffer_pop_turn_def RingBuffer_try_pop_def
  RingBuffer_drain_batch_def RingBuffer_close_def RingBuffer_stats_def

section \<open>Sequential properties\<close>

text \<open>A ring created with a positive capacity never holds more items than that.\<close>

definition ring_inv :: "'a ring \<Rightarrow> bool" where
  "ring_inv r \<longleftrightarrow> 0 < cap r \<and> length (buf r) \<le> cap r"

lemma ring_inv_new: "0 < c \<Longrightarrow> ring_inv (RingBuffer_new c)"
  by (simp add: ring_inv_def RingBuffer_new_def)

lemma ring_inv_push: "ring_inv r \<Longrightarrow> ring_inv (snd (RingBuffer_push x r))"
  by (auto simp: ring_inv_def RingBuffer_push_def Let_def)

lemma ring_inv_pop_turn: "ring_inv r \<Longrightarrow> ring_inv (snd (RingBuffer_pop_turn r))"
  by (auto simp: ring_inv_def RingBuffer_pop_turn_def split: list.splits)

lemma ring_inv_drain: "ring_inv r \<Longrightarrow> ring_inv (snd (RingBuffer_drain_batch n r))"
  by (auto simp: ring_inv_def RingBuffer_drain_batch_def Let_def)

lemma ring_inv_try_pop: "ring_inv r \<Longrightarrow> ring_inv (snd (RingBuffer_try_pop r))"
  by (auto simp: ring_inv_def RingBuffer_try_pop_def split: list.splits)

text \<open>The effect of a push: at most the oldest item is lost, and it is counted.\<close>

lemma push_buf:
  "buf (snd (RingBuffer_push x r)) =
     (if length (buf r) = cap r then tl (buf r) @ [x] else buf r @ [x])"
  by (simp add: RingBuffer_push_def Let_def drop_Suc)

lemma push_counts:
  assumes "ring_inv r"
  shows "of_nat (length (buf (snd (RingBuffer_push x r)))) + dropped (snd (RingBuffer_push x r))
         = of_nat (length (buf r)) + dropped r + (1 :: u64)"
  using assms by (cases "buf r") (auto simp: RingBuffer_push_def Let_def ring_inv_def)

lemma push_frame [simp]:
  "cap (snd (RingBuffer_push x r)) = cap r"
  "closed (snd (RingBuffer_push x r)) = closed r"
  by (simp_all add: RingBuffer_push_def Let_def)

lemma drain_buf:
  "RingBuffer_drain_batch n r = (xs, r') \<Longrightarrow> xs @ buf r' = buf r \<and> length xs = min n (length (buf r))"
  by (auto simp: RingBuffer_drain_batch_def Let_def)

interpretation ringq: lossy_fifo buf "\<lambda>x r. snd (RingBuffer_push x r)" RingBuffer_drain_batch ring_inv
proof unfold_locales
  fix q q' :: "'a ring" and x xs n
  assume inv: "ring_inv q"
  show "ring_inv (snd (RingBuffer_push x q))" using inv by (rule ring_inv_push)
  show "subseq (buf (snd (RingBuffer_push x q))) (buf q @ [x])"
    by (cases "buf q") (auto simp: push_buf)
  assume d: "RingBuffer_drain_batch n q = (xs, q')"
  show "ring_inv q'" using ring_inv_drain [OF inv, of n] d by simp
  show "xs @ buf q' = buf q" using drain_buf [OF d] by simp
qed

section \<open>Blocking consumers\<close>

text \<open>
  The threads inside \<open>pop_blocking\<close>: \<open>asleep\<close> holds those blocked in \<open>Condvar::wait\<close>,
  \<open>woken\<close> those that were notified (or woke spuriously) and have not retaken the mutex
  yet.  Any other thread may call \<open>pop_blocking\<close> at any time.  \<open>notify_one\<close> wakes one
  waiting thread if there is one, \<open>notify_all\<close> all of them.
\<close>

record 'a ring_sys =
  ring :: "'a ring"
  asleep :: "nat set"
  woken :: "nat set"

definition ring_sys_init :: "usize \<Rightarrow> 'a ring_sys" where
  "ring_sys_init c = \<lparr>ring = RingBuffer_new c, asleep = {}, woken = {}\<rparr>"

datatype 'a ring_label =
  LPush 'a | LPop nat "'a option" | LWait nat | LTryPop "'a option" | LDrain "'a list" | LClose | LSpurious nat

inductive ring_step :: "'a ring_sys \<Rightarrow> 'a ring_label \<Rightarrow> 'a ring_sys \<Rightarrow> bool" where
  push_notify: "t \<in> asleep s \<Longrightarrow>
     ring_step s (LPush x) (s\<lparr>ring := snd (RingBuffer_push x (ring s)),
       asleep := asleep s - {t}, woken := insert t (woken s)\<rparr>)"
| push_nobody: "asleep s = {} \<Longrightarrow>
     ring_step s (LPush x) (s\<lparr>ring := snd (RingBuffer_push x (ring s))\<rparr>)"
| pop_return: "t \<notin> asleep s \<Longrightarrow> RingBuffer_pop_turn (ring s) = (Returned v, r') \<Longrightarrow>
     ring_step s (LPop t v) (s\<lparr>ring := r', woken := woken s - {t}\<rparr>)"
| pop_wait: "t \<notin> asleep s \<Longrightarrow> RingBuffer_pop_turn (ring s) = (Waits, r') \<Longrightarrow>
     ring_step s (LWait t) (s\<lparr>ring := r', asleep := insert t (asleep s), woken := woken s - {t}\<rparr>)"
| try_pop: "RingBuffer_try_pop (ring s) = (v, r') \<Longrightarrow>
     ring_step s (LTryPop v) (s\<lparr>ring := r'\<rparr>)"
| drain: "RingBuffer_drain_batch n (ring s) = (xs, r') \<Longrightarrow>
     ring_step s (LDrain xs) (s\<lparr>ring := r'\<rparr>)"
| close: "ring_step s LClose
     (s\<lparr>ring := RingBuffer_close (ring s), asleep := {}, woken := woken s \<union> asleep s\<rparr>)"
| spurious: "t \<in> asleep s \<Longrightarrow>
     ring_step s (LSpurious t) (s\<lparr>asleep := asleep s - {t}, woken := insert t (woken s)\<rparr>)"

inductive_cases ring_stepE: "ring_step s l s'"

inductive ring_run :: "'a ring_sys \<Rightarrow> 'a ring_label list \<Rightarrow> 'a ring_sys \<Rightarrow> bool" where
  ring_run_nil: "ring_run s [] s"
| ring_run_snoc: "ring_run s ls s1 \<Longrightarrow> ring_step s1 l s2 \<Longrightarrow> ring_run s (ls @ [l]) s2"

lemma ring_run_invariant:
  assumes "ring_run s ls s'" and "P s"
    and "\<And>s1 l s2. P s1 \<Longrightarrow> ring_step s1 l s2 \<Longrightarrow> l \<in> set ls \<Longrightarrow> P s2"
  shows "P s'"
  using assms by (induction rule: ring_run.induct) auto

text \<open>No wake-up is lost: while a thread sleeps, the buffer is open and there are at least as
  many woken threads as items.\<close>

definition wakeup_inv :: "'a ring_sys \<Rightarrow> bool" where
  "wakeup_inv s \<longleftrightarrow> finite (woken s) \<and> finite (asleep s) \<and> asleep s \<inter> woken s = {} \<and>
     (asleep s \<noteq> {} \<longrightarrow> \<not> closed (ring s) \<and> length (buf (ring s)) \<le> card (woken s))"

lemma pop_turn_cases:
  "RingBuffer_pop_turn r = (Returned (Some x), r') \<longleftrightarrow> (\<exists>xs. buf r = x # xs \<and> r' = r\<lparr>buf := xs\<rparr>)"
  "RingBuffer_pop_turn r = (Returned None, r') \<longleftrightarrow> buf r = [] \<and> closed r \<and> r' = r"
  "RingBuffer_pop_turn r = (Waits, r') \<longleftrightarrow> buf r = [] \<and> \<not> closed r \<and> r' = r"
  by (auto simp: RingBuffer_pop_turn_def split: list.splits)

lemma wakeup_step: "ring_step s l s' \<Longrightarrow> wakeup_inv s \<Longrightarrow> wakeup_inv s'"
proof (induction rule: ring_step.induct)
  case (push_notify t s x)
  then have "card (insert t (woken s)) = Suc (card (woken s))"
    by (intro card_insert_disjoint) (auto simp: wakeup_inv_def)
  with push_notify show ?case by (auto simp: wakeup_inv_def push_buf)
next
  case (pop_return t s v r')
  have len: "length (buf r') \<le> length (buf (ring s)) - 1" "closed r' = closed (ring s)"
    using pop_return(2) by (cases v; auto simp: pop_turn_cases)+
  have "card (woken s) \<le> card (woken s - {t}) + 1"
    using pop_return(3) by (cases "t \<in> woken s") (auto simp: wakeup_inv_def card_Diff_singleton)
  with len pop_return show ?case by (auto simp: wakeup_inv_def)
next
  case (spurious t s)
  then have "card (woken s) \<le> card (insert t (woken s))"
    by (auto simp: wakeup_inv_def intro: card_mono)
  with spurious show ?case by (auto simp: wakeup_inv_def)
next
  case (pop_wait t s r')
  then show ?case by (auto simp: wakeup_inv_def pop_turn_cases)
qed (auto simp: wakeup_inv_def ring_ops Let_def split: list.splits prod.splits)

text \<open>Nothing but \<open>close\<close> closes the buffer.\<close>

lemma step_keeps_open:
  "ring_step s l s' \<Longrightarrow> l \<noteq> LClose \<Longrightarrow> closed (ring s') = closed (ring s)"
  by (elim ring_stepE) (auto simp: ring_ops Let_def split: list.splits prod.splits if_splits)

section \<open>The threaded buffer implements the sequential queue\<close>

text \<open>What a step does to the contents, as events of the sequential queue, and what it hands
  to a consumer.\<close>

fun label_events :: "'a ring_label \<Rightarrow> 'a fifo_event list" where
  "label_events (LPush x) = [Enq x]"
| "label_events (LPop t (Some v)) = [Deq 1]"
| "label_events (LTryPop v) = [Deq 1]"
| "label_events (LDrain xs) = [Deq (length xs)]"
| "label_events _ = []"

fun label_out :: "'a ring_label \<Rightarrow> 'a list" where
  "label_out (LPop t (Some v)) = [v]"
| "label_out (LTryPop (Some v)) = [v]"
| "label_out (LDrain xs) = xs"
| "label_out _ = []"

definition run_events :: "'a ring_label list \<Rightarrow> 'a fifo_event list" where
  "run_events ls = concat (map label_events ls)"

definition run_out :: "'a ring_label list \<Rightarrow> 'a list" where
  "run_out ls = concat (map label_out ls)"

abbreviation seq_ring_run :: "'a fifo_event list \<Rightarrow> 'a ring \<Rightarrow> 'a list \<times> 'a ring" where
  "seq_ring_run \<equiv> fifo_run (\<lambda>x r. snd (RingBuffer_push x r)) RingBuffer_drain_batch"

text \<open>The contents and counters of a ring, without the flag that only \<open>pop_blocking\<close> reads.\<close>

definition same_queue :: "'a ring \<Rightarrow> 'a ring \<Rightarrow> bool" where
  "same_queue r q \<longleftrightarrow> buf r = buf q \<and> cap r = cap q \<and> dropped r = dropped q"

lemma step_refines:
  assumes "ring_step s l s'" and "same_queue (ring s) q"
  shows "\<exists>q'. seq_ring_run (label_events l) q = (label_out l, q') \<and> same_queue (ring s') q'"
  using assms
proof (induction rule: ring_step.induct)
  case (pop_return t s v r')
  then show ?case
    by (cases v) (auto simp: pop_turn_cases same_queue_def RingBuffer_drain_batch_def Let_def)
next
  case (try_pop s v r')
  then show ?case
    by (cases v) (auto simp: same_queue_def ring_ops Let_def split: list.splits)
next
  case (drain n s xs r')
  then show ?case by (auto simp: same_queue_def ring_ops Let_def)
qed (auto simp: same_queue_def ring_ops Let_def split: list.splits if_splits)

lemma run_refines:
  assumes "ring_run s ls s'" and "same_queue (ring s) q"
  shows "\<exists>q'. seq_ring_run (run_events ls) q = (run_out ls, q') \<and> same_queue (ring s') q'"
  using assms
proof (induction rule: ring_run.induct)
  case (ring_run_nil s)
  then show ?case by (simp add: run_events_def run_out_def)
next
  case (ring_run_snoc s ls s1 l s2)
  then obtain q1 where q1: "seq_ring_run (run_events ls) q = (run_out ls, q1)"
    and "same_queue (ring s1) q1" by blast
  with ring_run_snoc.hyps(2) obtain q2 where
    "seq_ring_run (label_events l) q1 = (label_out l, q2)" "same_queue (ring s2) q2"
    using step_refines by blast
  with q1 show ?case by (simp add: run_events_def run_out_def fifo_run_append)
qed

text \<open>Items are neither duplicated nor lost uncounted.\<close>

lemma ring_inv_step: "ring_step s l s' \<Longrightarrow> ring_inv (ring s) \<Longrightarrow> ring_inv (ring s')"
proof (induction rule: ring_step.induct)
  case (pop_return t s v r')
  then show ?case using ring_inv_pop_turn [of "ring s"] by simp
next
  case (pop_wait t s r')
  then show ?case using ring_inv_pop_turn [of "ring s"] by simp
next
  case (try_pop s v r')
  then show ?case using ring_inv_try_pop [of "ring s"] by simp
next
  case (drain n s xs r')
  then show ?case using ring_inv_drain [of "ring s" n] by simp
qed (simp_all add: ring_inv_push, simp_all add: ring_inv_def RingBuffer_close_def)

lemma step_count:
  assumes "ring_step s l s'" and "ring_inv (ring s)"
  shows "of_nat (length (label_out l)) + of_nat (length (buf (ring s'))) + dropped (ring s')
     = of_nat (length (submitted (label_events l))) + of_nat (length (buf (ring s))) + dropped (ring s)"
  using assms
proof (induction rule: ring_step.induct)
  case (push_notify t s x)
  then show ?case using push_counts [of "ring s" x] by (simp add: ac_simps)
next
  case (push_nobody s x)
  then show ?case using push_counts [of "ring s" x] by (simp add: ac_simps)
next
  case (pop_return t s v r')
  then show ?case by (cases v) (auto simp: pop_turn_cases)
next
  case (try_pop s v r')
  then show ?case by (cases v) (auto simp: ring_ops split: list.splits)
next
  case (drain n s xs r')
  then have "xs @ buf r' = buf (ring s)" "dropped r' = dropped (ring s)"
    using drain_buf [of n "ring s" xs r'] by (auto simp: ring_ops Let_def)
  then show ?case by (simp flip: \<open>xs @ buf r' = buf (ring s)\<close>)
qed (auto simp: ring_ops split: list.splits if_splits)

lemma count_chain:
  fixes a :: u64
  assumes "a + b1 + d1 = c + b0 + d0" and "x + b2 + d2 = y + b1 + d1"
  shows "a + x + b2 + d2 = c + y + b0 + d0"
proof -
  have "a + x + b2 + d2 = a + (x + b2 + d2)" by simp
  also have "\<dots> = y + (a + b1 + d1)" unfolding assms(2) by simp
  also have "\<dots> = c + y + b0 + d0" unfolding assms(1) by simp
  finally show ?thesis .
qed

lemma run_count:
  assumes "ring_run s ls s'" and "ring_inv (ring s)"
  shows "ring_inv (ring s') \<and>
     of_nat (length (run_out ls)) + of_nat (length (buf (ring s'))) + dropped (ring s')
     = of_nat (length (submitted (run_events ls))) + of_nat (length (buf (ring s))) + dropped (ring s)"
  using assms
proof (induction rule: ring_run.induct)
  case (ring_run_nil s)
  then show ?case by (simp add: run_events_def run_out_def)
next
  case (ring_run_snoc s ls s1 l s2)
  have 1: "ring_inv (ring s1)" and
    2: "of_nat (length (run_out ls)) + of_nat (length (buf (ring s1))) + dropped (ring s1)
     = of_nat (length (submitted (run_events ls))) + of_nat (length (buf (ring s))) + dropped (ring s)"
    using ring_run_snoc by auto
  note 3 = step_count [OF ring_run_snoc.hyps(2) 1]
  show ?case
    using count_chain [OF 2 3] ring_inv_step [OF ring_run_snoc.hyps(2) 1]
    by (simp add: run_out_def run_events_def)
qed

lemma ring_run_single: "ring_step s l s' \<Longrightarrow> ring_run s [l] s'"
  using ring_run_snoc [OF ring_run_nil] by fastforce

lemma ring_step_cap: "ring_step s l s' \<Longrightarrow> cap (ring s') = cap (ring s)"
  by (elim ring_stepE) (auto simp: ring_ops Let_def split: list.splits prod.splits if_splits)

lemma ring_run_cap: "ring_run s ls s' \<Longrightarrow> cap (ring s') = cap (ring s)"
  by (induction rule: ring_run.induct) (auto dest: ring_step_cap)

text \<open>A run used by the witnesses: a buffer of one place, two pushes and a pop.\<close>

lemma ring_demo:
  "ring_run (ring_sys_init 1) [LPush 7, LPush 8, LPop 0 (Some (8::nat))]
     \<lparr>ring = \<lparr>buf = [], cap = 1, dropped = 1, closed = False\<rparr>, asleep = {}, woken = {}\<rparr>"
proof -
  let ?s1 = "\<lparr>ring = \<lparr>buf = [7::nat], cap = 1, dropped = 0, closed = False\<rparr>, asleep = {}, woken = {}\<rparr>"
  let ?s2 = "\<lparr>ring = \<lparr>buf = [8::nat], cap = 1, dropped = 1, closed = False\<rparr>, asleep = {}, woken = {}\<rparr>"
  let ?s3 = "\<lparr>ring = \<lparr>buf = [], cap = 1, dropped = 1, closed = False\<rparr>, asleep = {}, woken = {} :: nat set\<rparr>"
  have 1: "ring_step (ring_sys_init 1) (LPush 7) ?s1"
    using push_nobody [of "ring_sys_init 1" "7::nat"]
    by (simp add: ring_sys_init_def RingBuffer_new_def RingBuffer_push_def)
  have 2: "ring_step ?s1 (LPush 8) ?s2"
    using push_nobody [of ?s1 "8::nat"] by (simp add: RingBuffer_push_def)
  have 3: "ring_step ?s2 (LPop 0 (Some 8)) ?s3"
    using pop_return [of 0 ?s2 "Some (8::nat)"] by (simp add: RingBuffer_pop_turn_def)
  show ?thesis
    using ring_run_snoc [OF ring_run_snoc [OF ring_run_snoc [OF ring_run_nil 1] 2] 3] by simp
qed

section \<open>Properties\<close>



text \<open>C10 (liveness). No wake-up is lost: in every reachable state of a buffer shared by any
  number of threads, while a thread is blocked in \<open>pop_blocking\<close> the buffer is not closed,
  and if it holds items then at least as many threads are already notified and about to
  take them.\<close>

theorem pop_blocking_no_lost_wakeup:
  assumes "ring_run (ring_sys_init c) ls s" and "t \<in> asleep s"
  shows "\<not> closed (ring s) \<and> length (buf (ring s)) \<le> card (woken s)"
proof -
  have "wakeup_inv (ring_sys_init c)" by (simp add: wakeup_inv_def ring_sys_init_def)
  then have "wakeup_inv s" using ring_run_invariant [OF assms(1)] wakeup_step by blast
  with assms(2) show ?thesis by (auto simp: wakeup_inv_def)
qed

theorem pop_blocking_no_lost_wakeup_witness:
  "\<exists>s :: nat ring_sys. ring_run (ring_sys_init 1) [LWait 0] s \<and> 0 \<in> asleep s \<and>
     \<not> closed (ring s) \<and> length (buf (ring s)) \<le> card (woken s)"
proof -
  have step: "ring_step (ring_sys_init 1) (LWait 0)
      ((ring_sys_init 1)\<lparr>asleep := {0}\<rparr> :: nat ring_sys)"
    using pop_wait [of 0 "ring_sys_init 1 :: nat ring_sys"]
    by (simp add: ring_sys_init_def RingBuffer_new_def RingBuffer_pop_turn_def)
  show ?thesis
    using pop_blocking_no_lost_wakeup [OF ring_run_single [OF step], of 0] ring_run_single [OF step]
    by fastforce
qed

text \<open>As long as nobody calls \<open>close\<close>, \<open>pop_blocking\<close> never returns \<open>None\<close>.\<close>

theorem pop_blocking_none_needs_close:
  assumes "ring_run (ring_sys_init c) ls s" and "LClose \<notin> set ls"
  shows "LPop t None \<notin> set ls \<and> \<not> closed (ring s)"
  using assms
proof (induction "ring_sys_init c :: 'a ring_sys" ls s rule: ring_run.induct)
  case ring_run_nil
  then show ?case by (simp add: ring_sys_init_def RingBuffer_new_def)
next
  case (ring_run_snoc ls s1 l s2)
  then have open1: "\<not> closed (ring s1)" and old: "LPop t None \<notin> set ls" by auto
  have "l \<noteq> LPop t None"
    using ring_run_snoc.hyps(3) open1 by (auto elim!: ring_stepE simp: pop_turn_cases)
  moreover have "\<not> closed (ring s2)"
    using step_keeps_open [OF ring_run_snoc.hyps(3)] ring_run_snoc.prems open1 by auto
  ultimately show ?case using old by auto
qed

theorem pop_blocking_none_needs_close_witness:
  "LPop 0 None \<notin> set [LPush 7, LPush 8, LPop 0 (Some (8::nat))]"
  using pop_blocking_none_needs_close [OF ring_demo, of 0] by simp

end
