(* ===== verification/Analyzer.thy ===== *)
theory Analyzer
  imports Workers RingBuffer
begin

text \<open>
  The analysis stage, \<open>analyzer.rs\<close>, between the ring buffer and the mpsc channel, and the
  pipeline it forms with the capture thread, the sweeper and the receiving end of the channel.

  A batch is scored by a pool of workers; each takes the turns of its analysis (\<open>Workers\<close>) in any
  interleaving with the others and with the calls of the sweeper, and the results are collected in
  the order of the batch.  A batch has at most 64 workers, of which the code runs four at a time:
  every schedule of the code is among those of the model.  The channel is a library: its operations are the fields of \<open>chan_api\<close>, and \<open>chan_ok\<close> states
  what the code relies on, a queue whose \<open>try_send\<close> either appends or refuses.
\<close>

section \<open>Operations\<close>

record 'q chan_api =
  queued :: "'q \<Rightarrow> raw_packet list"
  try_send :: "raw_packet \<Rightarrow> 'q \<Rightarrow> bool \<times> 'q"
  recv :: "'q \<Rightarrow> raw_packet option \<times> 'q"

text \<open>A packet with its result written in, as \<open>score_one\<close> returns it.\<close>

definition score_one :: "worker \<Rightarrow> raw_packet" where
  "score_one w =
     (case w_stage w of
        Scored result \<Rightarrow> (w_packet w)\<lparr>ids_score := total_score result, ids_flag := flag_reason result\<rparr>
      | _ \<Rightarrow> w_packet w)"

definition forward :: "'q chan_api \<Rightarrow> raw_packet \<Rightarrow> 'q \<Rightarrow> 'q" where
  "forward ch pkt q = snd (try_send ch pkt q)"

text \<open>Where the loop of \<open>start_analysis\<close> is: about to drain, about to block in \<open>pop_blocking\<close>,
  scoring, forwarding what is scored, or finished.\<close>

datatype analyzer_pc = Draining | Popping | Scoring "worker list" | Forwarding "raw_packet list" | Exited

record ('b, 'q) pipe =
  p_ring :: "raw_packet ring"
  p_pc :: analyzer_pc
  p_engine :: "'b engine"
  p_chan :: 'q
  p_captured :: "raw_packet list"
  p_received :: "raw_packet list"

definition drain_turn :: "'b env \<Rightarrow> ('b, 'q) pipe \<Rightarrow> ('b, 'q) pipe" where
  "drain_turn env s =
     (let (batch, r) = RingBuffer_drain_batch 64 (p_ring s)
      in if batch = [] then s\<lparr>p_ring := r, p_pc := Popping\<rparr>
         else s\<lparr>p_ring := r, p_pc := Scoring (map (worker_start env (e_blacklist (p_engine s))) batch)\<rparr>)"

definition pop_turn :: "'b env \<Rightarrow> ('b, 'q) pipe \<Rightarrow> ('b, 'q) pipe" where
  "pop_turn env s =
     (case RingBuffer_pop_turn (p_ring s) of
        (Returned (Some pkt), r) \<Rightarrow>
          s\<lparr>p_ring := r, p_pc := Scoring [worker_start env (e_blacklist (p_engine s)) pkt]\<rparr>
      | (Returned None, r) \<Rightarrow> s\<lparr>p_ring := r, p_pc := Exited\<rparr>
      | (Waits, r) \<Rightarrow> s\<lparr>p_ring := r\<rparr>)"

text \<open>A turn of worker \<open>i\<close>, and the end of the batch.\<close>

definition score_turn ::
  "'b env \<Rightarrow> engine_clock \<Rightarrow> usize \<Rightarrow> worker list \<Rightarrow> ('b, 'q) pipe \<Rightarrow> ('b, 'q) pipe panics" where
  "score_turn env clk i ws s = do {
     w \<leftarrow> idx ws i;
     (e, w') \<leftarrow> worker_turn env clk (p_engine s) w;
     Some (s\<lparr>p_engine := e, p_pc := Scoring (ws[i := w'])\<rparr>)
   }"

definition collect_turn :: "worker list \<Rightarrow> ('b, 'q) pipe \<Rightarrow> ('b, 'q) pipe" where
  "collect_turn ws s = s\<lparr>p_pc := Forwarding (map score_one ws)\<rparr>"

definition forward_turn :: "'q chan_api \<Rightarrow> raw_packet list \<Rightarrow> ('b, 'q) pipe \<Rightarrow> ('b, 'q) pipe" where
  "forward_turn ch pkts s =
     (case pkts of
        [] \<Rightarrow> s\<lparr>p_pc := Draining\<rparr>
      | pkt # rest \<Rightarrow> s\<lparr>p_chan := forward ch pkt (p_chan s), p_pc := Forwarding rest\<rparr>)"

section \<open>The pipeline\<close>

text \<open>The turns of the analyzer thread and its pool.\<close>

inductive analyzer_turn :: "'b env \<Rightarrow> 'q chan_api \<Rightarrow> ('b, 'q) pipe \<Rightarrow> ('b, 'q) pipe \<Rightarrow> bool"
  for env ch where
  drains: "p_pc s = Draining \<Longrightarrow> analyzer_turn env ch s (drain_turn env s)"
| pops: "p_pc s = Popping \<Longrightarrow> analyzer_turn env ch s (pop_turn env s)"
| scores: "p_pc s = Scoring ws \<Longrightarrow> i < length ws \<Longrightarrow> \<not> finished (ws ! i) \<Longrightarrow>
     score_turn env clk i ws s = Some s' \<Longrightarrow> analyzer_turn env ch s s'"
| collects: "p_pc s = Scoring ws \<Longrightarrow> list_all finished ws \<Longrightarrow> analyzer_turn env ch s (collect_turn ws s)"
| forwards: "p_pc s = Forwarding pkts \<Longrightarrow> analyzer_turn env ch s (forward_turn ch pkts s)"

text \<open>The pipeline: the capture thread, the analyzer and its pool, the sweeper, the receiver.\<close>

inductive pipe_step :: "json_api \<Rightarrow> 'b env \<Rightarrow> 'q chan_api \<Rightarrow> ('b, 'q) pipe \<Rightarrow> ('b, 'q) pipe \<Rightarrow> bool"
  for js env ch where
  capture: "pipe_step js env ch s
     (s\<lparr>p_ring := snd (RingBuffer_push p (p_ring s)), p_captured := p_captured s @ [p]\<rparr>)"
| close: "pipe_step js env ch s (s\<lparr>p_ring := RingBuffer_close (p_ring s)\<rparr>)"
| sweep: "sweeper_call js call (p_engine s, d) = (e, d') \<Longrightarrow> pipe_step js env ch s (s\<lparr>p_engine := e\<rparr>)"
| receive: "recv ch (p_chan s) = (Some p, q) \<Longrightarrow>
     pipe_step js env ch s (s\<lparr>p_chan := q, p_received := p_received s @ [p]\<rparr>)"
| analyze: "analyzer_turn env ch s s' \<Longrightarrow> pipe_step js env ch s s'"

inductive_cases pipe_stepE: "pipe_step js env ch s s'"

inductive pipe_reach :: "json_api \<Rightarrow> 'b env \<Rightarrow> 'q chan_api \<Rightarrow> ('b, 'q) pipe \<Rightarrow> ('b, 'q) pipe \<Rightarrow> bool"
  for js env ch where
  pipe_refl: "pipe_reach js env ch s s"
| pipe_next: "pipe_reach js env ch s t \<Longrightarrow> pipe_step js env ch t u \<Longrightarrow> pipe_reach js env ch s u"

definition pipe_init :: "usize \<Rightarrow> 'b engine \<Rightarrow> 'q \<Rightarrow> ('b, 'q) pipe" where
  "pipe_init c e q =
     \<lparr>p_ring = RingBuffer_new c, p_pc = Draining, p_engine = e, p_chan = q, p_captured = [], p_received = []\<rparr>"

definition chan_ok :: "'q chan_api \<Rightarrow> bool" where
  "chan_ok ch \<longleftrightarrow>
     (\<forall>p q. queued ch (snd (try_send ch p q)) = (if fst (try_send ch p q) then queued ch q @ [p] else queued ch q)) \<and>
     (\<forall>q. case queued ch q of
            [] \<Rightarrow> fst (recv ch q) = None
          | p # ps \<Rightarrow> fst (recv ch q) = Some p \<and> queued ch (snd (recv ch q)) = ps)"

text \<open>An instance: a list with room for \<open>n\<close> packets.\<close>

definition list_chan :: "usize \<Rightarrow> raw_packet list chan_api" where
  "list_chan n = \<lparr>queued = (\<lambda>q. q), try_send = (\<lambda>p q. if length q < n then (True, q @ [p]) else (False, q)),
     recv = (\<lambda>q. case q of [] \<Rightarrow> (None, []) | p # ps \<Rightarrow> (Some p, ps))\<rparr>"

lemma list_chan_ok: "chan_ok (list_chan n)"
  by (auto simp: chan_ok_def list_chan_def split: list.split)

section \<open>Scoring\<close>

text \<open>A packet without the two fields the analyzer writes, and a packet that carries the result of
  an analysis by a well-formed engine (\<open>analysed\<close>).\<close>

definition unscored :: "raw_packet \<Rightarrow> raw_packet" where
  "unscored p = p\<lparr>ids_score := 0, ids_flag := 0\<rparr>"

lemma unscored_transport: "transport (unscored p) = transport p"
  by (simp add: unscored_def)

definition scored :: "'b env \<Rightarrow> (ip_addr \<times> u16) set \<Rightarrow> 'b blacklist \<Rightarrow> raw_packet \<Rightarrow> bool" where
  "scored env C bl p \<longleftrightarrow> (\<exists>q r. unscored q = unscored p \<and> analysed env C bl q r \<and>
     ids_score p = total_score r \<and> ids_flag p = flag_reason r)"

lemma scored_mono: "scored env C bl p \<Longrightarrow> C \<subseteq> C' \<Longrightarrow> scored env C' bl p"
  unfolding scored_def by (blast intro: analysed_mono)

lemma score_one_unscored: "unscored (score_one w) = unscored (w_packet w)"
  by (simp add: score_one_def unscored_def split: stage.split)

lemma score_one_scored:
  assumes "worker_ok env C bl w" and "finished w" shows "scored env C bl (score_one w)"
proof -
  obtain r where r: "w_stage w = Scored r" using assms(2) by (auto simp: finished_iff)
  have "analysed env C bl (w_packet w) r" by (rule worker_result [OF assms(1) r])
  then show ?thesis unfolding scored_def
    by (intro exI [of _ "w_packet w"] exI [of _ r]) (simp add: score_one_def r unscored_def)
qed

text \<open>What is known of the workers of a batch: each is at a sound point of its analysis.\<close>

definition pool_ok :: "'b env \<Rightarrow> (ip_addr \<times> u16) set \<Rightarrow> 'b blacklist \<Rightarrow> worker list \<Rightarrow> bool" where
  "pool_ok env C bl ws \<longleftrightarrow> (\<forall>w \<in> set ws. worker_ok env C bl w)"

lemma pool_start:
  "(\<And>p tm. p \<in> set batch \<Longrightarrow> transport p = Some tm \<Longrightarrow> pair_in tm C) \<Longrightarrow> pool_ok env C bl (map (worker_start env bl) batch)"
  by (auto simp: pool_ok_def intro: worker_start_ok)

lemma pool_ok_mono: "pool_ok env C bl ws \<Longrightarrow> C \<subseteq> C' \<Longrightarrow> pool_ok env C' bl ws"
  unfolding pool_ok_def by (blast intro: worker_ok_mono)

lemma pool_turn:
  assumes "ac_ok (env_ac env)" and "view_ok env C bl e" and "pool_ok env C bl ws" and "i < length ws"
  obtains e' w' where "worker_turn env clk e (ws ! i) = Some (e', w')" and "view_ok env C bl e'"
    and "pool_ok env C bl (ws[i := w'])" and "w_packet w' = w_packet (ws ! i)"
    and "finished (ws ! i) \<or> turns_left (w_stage w') < turns_left (w_stage (ws ! i))"
proof -
  have "worker_ok env C bl (ws ! i)" using assms(3,4) by (simp add: pool_ok_def)
  from worker_turn_ok [OF assms(1,2) this, of clk] obtain e' w' where
    w: "worker_turn env clk e (ws ! i) = Some (e', w')" "view_ok env C bl e'" "worker_ok env C bl w'"
      "w_packet w' = w_packet (ws ! i)" "finished (ws ! i) \<or> turns_left (w_stage w') < turns_left (w_stage (ws ! i))"
    by blast
  have "pool_ok env C bl (ws[i := w'])" using assms(3) w(3) set_update_subset_insert [of ws i w'] by (auto simp: pool_ok_def)
  with that w show ?thesis by blast
qed

lemma pool_packets: "w_packet w' = w_packet (ws ! i) \<Longrightarrow> map w_packet (ws[i := w']) = map w_packet ws"
  by (cases "i < length ws") (simp_all add: map_update list_update_same_conv list_update_beyond)

text \<open>The turns a batch still takes.\<close>

definition pool_left :: "worker list \<Rightarrow> nat" where
  "pool_left ws = (\<Sum>w \<leftarrow> ws. turns_left (w_stage w))"

lemma pool_left_start: "pool_left (map (worker_start env bl) batch) \<le> 21 * length batch"
proof (induction batch)
  case (Cons p batch)
  then show ?case using worker_start_left [of env bl p] by (simp add: pool_left_def)
qed (simp add: pool_left_def)

lemma pool_left_update:
  "i < length ws \<Longrightarrow> turns_left (w_stage w') < turns_left (w_stage (ws ! i)) \<Longrightarrow> pool_left (ws[i := w']) < pool_left ws"
proof (induction ws arbitrary: i)
  case (Cons w ws)
  then show ?case by (cases i) (auto simp: pool_left_def)
qed simp

section \<open>The invariant of the pipeline\<close>

fun workers_of :: "analyzer_pc \<Rightarrow> worker list" where
  "workers_of (Scoring ws) = ws"
| "workers_of _ = []"

fun pending_of :: "analyzer_pc \<Rightarrow> raw_packet list" where
  "pending_of (Forwarding pkts) = pkts"
| "pending_of _ = []"

text \<open>What is scored, and what is not yet, in the order of the packets.\<close>

definition in_flight :: "'q chan_api \<Rightarrow> ('b, 'q) pipe \<Rightarrow> raw_packet list" where
  "in_flight ch s = p_received s @ queued ch (p_chan s) @ pending_of (p_pc s)"

definition ahead :: "('b, 'q) pipe \<Rightarrow> raw_packet list" where
  "ahead s = map w_packet (workers_of (p_pc s)) @ buf (p_ring s)"

definition pipe_inv :: "'b env \<Rightarrow> 'b blacklist \<Rightarrow> 'q chan_api \<Rightarrow> ('b, 'q) pipe \<Rightarrow> bool" where
  "pipe_inv env bl ch s \<longleftrightarrow> ring_inv (p_ring s) \<and> view_ok env (scan_pairs (p_captured s)) bl (p_engine s) \<and>
     subseq (map unscored (in_flight ch s @ ahead s)) (map unscored (p_captured s)) \<and>
     (\<forall>p \<in> set (in_flight ch s). scored env (scan_pairs (p_captured s)) bl p) \<and>
     pool_ok env (scan_pairs (p_captured s)) bl (workers_of (p_pc s)) \<and>
     (p_pc s = Exited \<longrightarrow> closed (p_ring s))"

text \<open>A packet that waits was captured.\<close>

lemma waiting_pair:
  assumes "pipe_inv env bl ch s" and "p \<in> set (buf (p_ring s))" and "transport p = Some tm"
  shows "pair_in tm (scan_pairs (p_captured s))"
proof -
  have mem: "unscored p \<in> set (map unscored (in_flight ch s @ ahead s))" using assms(2) by (simp add: ahead_def)
  have "subseq (map unscored (in_flight ch s @ ahead s)) (map unscored (p_captured s))"
    using assms(1) by (simp add: pipe_inv_def)
  from list_emb_set [OF this mem] have "unscored p \<in> set (map unscored (p_captured s))" by blast
  then obtain q where "q \<in> set (p_captured s)" "unscored q = unscored p" by auto
  moreover from this(2) have "transport q = transport p" by (metis unscored_transport)
  ultimately show ?thesis using assms(3) by (auto intro: scan_pairs_in)
qed

lemma send_cases:
  assumes "chan_ok ch"
  shows "queued ch (forward ch p q) = queued ch q @ [p] \<or> queued ch (forward ch p q) = queued ch q"
  using assms by (auto simp: chan_ok_def forward_def)

lemma recv_Some:
  assumes "chan_ok ch" and "recv ch q = (Some p, q')" shows "queued ch q = p # queued ch q'"
proof (cases "queued ch q")
  case Nil
  then show ?thesis using assms by (auto simp: chan_ok_def dest: spec [of _ q])
next
  case (Cons x xs)
  moreover have "case queued ch q of [] \<Rightarrow> fst (recv ch q) = None
      | p # ps \<Rightarrow> fst (recv ch q) = Some p \<and> queued ch (snd (recv ch q)) = ps"
    using assms(1) by (simp add: chan_ok_def)
  ultimately show ?thesis using assms(2) by simp
qed

lemma inv_capture:
  assumes "pipe_inv env bl ch s"
  shows "pipe_inv env bl ch (s\<lparr>p_ring := snd (RingBuffer_push p (p_ring s)), p_captured := p_captured s @ [p]\<rparr>)"
proof -
  let ?r = "snd (RingBuffer_push p (p_ring s))" and ?ws = "map w_packet (workers_of (p_pc s))"
  have "subseq (buf ?r) (buf (p_ring s) @ [p])"
    using assms by (intro ringq.items_enq) (simp add: pipe_inv_def)
  then have "subseq (map unscored (in_flight ch s @ ?ws @ buf ?r)) (map unscored (in_flight ch s @ ?ws @ buf (p_ring s) @ [p]))"
    by (intro subseq_map list_emb_append_mono) auto
  also have "\<dots> = map unscored (in_flight ch s @ ahead s) @ [unscored p]" by (simp add: ahead_def)
  also have "subseq \<dots> (map unscored (p_captured s) @ [unscored p])"
    using assms by (intro list_emb_append_mono) (auto simp: pipe_inv_def)
  finally show ?thesis
    using assms ring_inv_push [of "p_ring s" p]
    by (auto simp: pipe_inv_def in_flight_def ahead_def intro: view_ok_mono pool_ok_mono scored_mono)
qed

lemma inv_drain:
  assumes "pipe_inv env bl ch s" and "p_pc s = Draining"
  shows "pipe_inv env bl ch (drain_turn env s)"
proof -
  obtain batch r where d: "RingBuffer_drain_batch 64 (p_ring s) = (batch, r)" by force
  have items: "batch @ buf r = buf (p_ring s)" using drain_buf [OF d] by simp
  have inv: "ring_inv r" "closed r = closed (p_ring s)"
    using assms(1) ring_inv_drain [of "p_ring s" 64] d
    by (auto simp: pipe_inv_def RingBuffer_drain_batch_def Let_def)
  have "pool_ok env (scan_pairs (p_captured s)) bl (map (worker_start env bl) batch)"
    using waiting_pair [OF assms(1)] items by (intro pool_start) (metis Un_iff set_append)
  then have "pool_ok env (scan_pairs (p_captured s)) bl (map (worker_start env (e_blacklist (p_engine s))) batch)"
    using assms(1) by (simp add: pipe_inv_def view_ok_def)
  moreover have "map unscored (buf (p_ring s)) = map unscored batch @ map unscored (buf r)"
    by (metis items map_append)
  ultimately show ?thesis
    using d inv assms by (auto simp: drain_turn_def pipe_inv_def in_flight_def ahead_def worker_start_packet comp_def)
qed

lemma inv_pop:
  assumes "pipe_inv env bl ch s" and "p_pc s = Popping"
  shows "pipe_inv env bl ch (pop_turn env s)"
proof (cases "buf (p_ring s)")
  case Nil
  then show ?thesis
    using assms by (cases "closed (p_ring s)")
      (auto simp: pop_turn_def RingBuffer_pop_turn_def pipe_inv_def in_flight_def ahead_def)
next
  case (Cons p rest)
  have "pool_ok env (scan_pairs (p_captured s)) bl (map (worker_start env bl) [p])"
    using waiting_pair [OF assms(1)] Cons by (intro pool_start) auto
  then have "pool_ok env (scan_pairs (p_captured s)) bl (map (worker_start env (e_blacklist (p_engine s))) [p])"
    using assms(1) by (simp add: pipe_inv_def view_ok_def)
  moreover have "ring_inv (p_ring s\<lparr>buf := rest\<rparr>)" using assms(1) Cons by (auto simp: pipe_inv_def ring_inv_def)
  ultimately show ?thesis
    using Cons assms by (auto simp: pop_turn_def RingBuffer_pop_turn_def pipe_inv_def in_flight_def ahead_def worker_start_packet)
qed

lemma inv_score:
  assumes "ac_ok (env_ac env)" and "pipe_inv env bl ch s" and "p_pc s = Scoring ws" and "i < length ws"
  shows "\<exists>s'. score_turn env clk i ws s = Some s' \<and> pipe_inv env bl ch s' \<and> p_ring s' = p_ring s \<and>
     (\<exists>ws'. p_pc s' = Scoring ws' \<and> length ws' = length ws \<and> (finished (ws ! i) \<or> pool_left ws' < pool_left ws))"
proof -
  let ?C = "scan_pairs (p_captured s)"
  have ok: "view_ok env ?C bl (p_engine s)" "pool_ok env ?C bl ws" using assms(2,3) by (simp_all add: pipe_inv_def)
  obtain e' w' where w: "worker_turn env clk (p_engine s) (ws ! i) = Some (e', w')" "view_ok env ?C bl e'"
    "pool_ok env ?C bl (ws[i := w'])" "w_packet w' = w_packet (ws ! i)"
    "finished (ws ! i) \<or> turns_left (w_stage w') < turns_left (w_stage (ws ! i))"
    by (rule pool_turn [OF assms(1) ok assms(4)])
  let ?s = "s\<lparr>p_engine := e', p_pc := Scoring (ws[i := w'])\<rparr>"
  have "in_flight ch ?s = in_flight ch s" by (simp add: in_flight_def assms(3))
  moreover have "ahead ?s = ahead s" using pool_packets [OF w(4)] by (simp add: ahead_def assms(3))
  ultimately have "pipe_inv env bl ch ?s" using assms(2) w(2,3) by (simp add: pipe_inv_def)
  moreover have "score_turn env clk i ws s = Some ?s" using w(1) assms(4) by (simp add: score_turn_def idx_Some)
  moreover have "finished (ws ! i) \<or> pool_left (ws[i := w']) < pool_left ws"
    using w(5) pool_left_update [OF assms(4)] by blast
  ultimately show ?thesis by auto
qed

lemma inv_collect:
  assumes "pipe_inv env bl ch s" and "p_pc s = Scoring ws" and "list_all finished ws"
  shows "pipe_inv env bl ch (collect_turn ws s)"
proof -
  have "\<forall>w \<in> set ws. scored env (scan_pairs (p_captured s)) bl (score_one w)"
    using assms by (auto simp: pipe_inv_def pool_ok_def list_all_iff intro: score_one_scored)
  with assms show ?thesis
    by (auto simp: collect_turn_def pipe_inv_def in_flight_def ahead_def pool_ok_def score_one_unscored comp_def)
qed

lemma inv_forward:
  assumes "chan_ok ch" and "pipe_inv env bl ch s" and "p_pc s = Forwarding pkts"
  shows "pipe_inv env bl ch (forward_turn ch pkts s)"
proof (cases pkts)
  case Nil
  then show ?thesis using assms(2,3) by (auto simp: forward_turn_def pipe_inv_def in_flight_def ahead_def)
next
  case (Cons p rest)
  let ?s = "forward_turn ch pkts s"
  have fl: "in_flight ch ?s = in_flight ch s \<or>
      in_flight ch ?s = p_received s @ queued ch (p_chan s) @ rest"
    using send_cases [OF assms(1), of p "p_chan s"] assms(3)
    by (auto simp: in_flight_def forward_turn_def Cons)
  have old: "in_flight ch s = p_received s @ queued ch (p_chan s) @ p # rest"
    by (simp add: in_flight_def assms(3) Cons)
  have sub: "subseq (in_flight ch ?s) (in_flight ch s)"
    using fl by (auto simp: old intro!: list_emb_append_mono)
  have "ahead ?s = ahead s" by (simp add: ahead_def forward_turn_def Cons assms(3))
  with sub have "subseq (map unscored (in_flight ch ?s @ ahead ?s)) (map unscored (in_flight ch s @ ahead s))"
    by (intro subseq_map list_emb_append_mono) auto
  also have "subseq \<dots> (map unscored (p_captured s))" using assms(2) by (simp add: pipe_inv_def)
  finally have "subseq (map unscored (in_flight ch ?s @ ahead ?s)) (map unscored (p_captured s))" .
  moreover have "set (in_flight ch ?s) \<subseteq> set (in_flight ch s)" using fl by (auto simp: old)
  moreover have "p_ring ?s = p_ring s" "p_engine ?s = p_engine s" "p_captured ?s = p_captured s" "p_pc ?s \<noteq> Exited"
    "workers_of (p_pc ?s) = []"
    by (simp_all add: forward_turn_def Cons)
  ultimately show ?thesis using assms(2) unfolding pipe_inv_def by (auto simp: pool_ok_def)
qed

lemma inv_receive:
  assumes "chan_ok ch" and "pipe_inv env bl ch s" and "recv ch (p_chan s) = (Some p, q)"
  shows "pipe_inv env bl ch (s\<lparr>p_chan := q, p_received := p_received s @ [p]\<rparr>)"
proof -
  let ?s = "s\<lparr>p_chan := q, p_received := p_received s @ [p]\<rparr>"
  have "queued ch (p_chan s) = p # queued ch q" by (rule recv_Some [OF assms(1,3)])
  then have "in_flight ch ?s = in_flight ch s" by (simp add: in_flight_def)
  moreover have "ahead ?s = ahead s" by (simp add: ahead_def)
  ultimately show ?thesis using assms(2) by (simp add: pipe_inv_def)
qed

lemma inv_turn:
  assumes "ac_ok (env_ac env)" and "chan_ok ch" and "pipe_inv env bl ch s" and "analyzer_turn env ch s s'"
  shows "pipe_inv env bl ch s'"
  using assms(4)
proof (cases rule: analyzer_turn.cases)
  case (scores ws i clk)
  with inv_score [OF assms(1,3) scores(1,2), of clk] show ?thesis by auto
qed (use assms inv_drain inv_pop inv_collect inv_forward in auto)

lemma inv_step:
  assumes "ac_ok (env_ac env)" and "chan_ok ch" and "pipe_inv env bl ch s" and "pipe_step js env ch s s'"
  shows "pipe_inv env bl ch s'"
  using assms(4)
proof (cases rule: pipe_step.cases)
  case (sweep call d e d')
  then show ?thesis
    using assms(3) view_ok_call [of env "scan_pairs (p_captured s)" bl "p_engine s" js call d]
    by (auto simp: pipe_inv_def in_flight_def ahead_def)
next
  case close
  then show ?thesis
    using assms(3) by (auto simp: pipe_inv_def in_flight_def ahead_def RingBuffer_close_def ring_inv_def)
qed (use assms inv_capture inv_receive inv_turn in auto)

lemma inv_reach:
  assumes "ac_ok (env_ac env)" and "chan_ok ch" and "pipe_reach js env ch s t" and "pipe_inv env bl ch s"
  shows "pipe_inv env bl ch t"
  using assms(3,4) by (induction rule: pipe_reach.induct) (auto intro: inv_step [OF assms(1,2)])

text \<open>An engine that has just been built.\<close>

definition fresh :: "'b engine \<Rightarrow> bool" where
  "fresh e \<longleftrightarrow> (\<exists>b bl. e = IdsEngine_new b bl)"

lemma fresh_inv: "fresh e \<Longrightarrow> engine_inv e"
  using engine_inv_new by (auto simp: fresh_def)

lemma inv_init: "0 < c \<Longrightarrow> fresh e \<Longrightarrow> queued ch q = [] \<Longrightarrow> pipe_inv env (e_blacklist e) ch (pipe_init c e q)"
  using fresh_inv [of e] scan_sound_new
  by (auto simp: pipe_init_def pipe_inv_def in_flight_def ahead_def pool_ok_def view_ok_def RingBuffer_new_def ring_inv_def
      fresh_def IdsEngine_new_def)

lemma analysed_bounds:
  assumes "ac_ok (env_ac env)" and "analysed env C bl p r"
  shows "0 \<le> total_score r \<and> total_score r \<le> 100"
proof (cases "transport p")
  case None
  then show ?thesis using assms(2) by (simp add: analysed_def sum_f32_def)
next
  case (Some tm)
  then obtain clk e S where "engine_inv e" "syn_answer tm S" "r = packet_result_with env clk p tm e S"
    using assms(2) by (auto simp: analysed_def view_ok_def)
  then show ?thesis using total_bounds_with [OF assms(1) _ syn_answer_whole] by (simp add: engine_inv_def)
qed

lemma scored_bounds:
  assumes "ac_ok (env_ac env)" and "scored env C bl p" shows "0 \<le> ids_score p \<and> ids_score p \<le> 100"
  using assms(2) analysed_bounds [OF assms(1)] by (auto simp: scored_def)

lemma pipe_inv_received:
  assumes "ac_ok (env_ac env)" and "pipe_inv env bl ch s"
  shows "subseq (map unscored (p_received s)) (map unscored (p_captured s)) \<and>
     (\<forall>p \<in> set (p_received s). scored env (scan_pairs (p_captured s)) bl p \<and> 0 \<le> ids_score p \<and> ids_score p \<le> 100)"
proof -
  have "subseq (map unscored (p_received s)) (map unscored (in_flight ch s @ ahead s))"
    by (simp add: in_flight_def prefix_imp_subseq)
  also have "subseq \<dots> (map unscored (p_captured s))" using assms(2) by (simp add: pipe_inv_def)
  finally have "subseq (map unscored (p_received s)) (map unscored (p_captured s))" .
  moreover have "\<forall>p \<in> set (p_received s). scored env (scan_pairs (p_captured s)) bl p" using assms(2) by (simp add: pipe_inv_def in_flight_def)
  ultimately show ?thesis using scored_bounds [OF assms(1)] by blast
qed

lemma pipe_received:
  assumes "ac_ok (env_ac env)" and "chan_ok ch" and "0 < c" and "fresh e" and "queued ch q = []"
    and "pipe_reach js env ch (pipe_init c e q) s"
  shows "subseq (map unscored (p_received s)) (map unscored (p_captured s)) \<and>
     (\<forall>p \<in> set (p_received s). scored env (scan_pairs (p_captured s)) (e_blacklist e) p \<and> 0 \<le> ids_score p \<and> ids_score p \<le> 100)"
  by (rule pipe_inv_received [OF assms(1) inv_reach [OF assms(1,2,6) inv_init [OF assms(3-5)]]])

section \<open>The analyzer's own turns\<close>

text \<open>Waiting for a packet, with the buffer empty and open.\<close>

definition parked :: "('b, 'q) pipe \<Rightarrow> bool" where
  "parked s \<longleftrightarrow> p_pc s = Popping \<and> buf (p_ring s) = [] \<and> \<not> closed (p_ring s)"

text \<open>What the thread and its pool still have to do: 27 turns pay for a buffered packet, of which
  at most 21 are its analysis.\<close>

definition backlog :: "('b, 'q) pipe \<Rightarrow> nat" where
  "backlog s = 27 * length (buf (p_ring s)) +
     (case p_pc s of
        Exited \<Rightarrow> 0
      | Popping \<Rightarrow> 1
      | Draining \<Rightarrow> 2
      | Forwarding pkts \<Rightarrow> 3 + length pkts
      | Scoring ws \<Rightarrow> 4 + length ws + pool_left ws)"

lemma drain_backlog:
  assumes "p_pc s = Draining"
  shows "backlog (drain_turn env s) < backlog s \<and> closed (p_ring (drain_turn env s)) = closed (p_ring s) \<and>
     p_pc (drain_turn env s) \<noteq> Exited"
proof -
  obtain batch r where d: "RingBuffer_drain_batch 64 (p_ring s) = (batch, r)" by force
  have items: "length (buf (p_ring s)) = length batch + length (buf r)"
    using drain_buf [OF d] by (metis length_append)
  have cl: "closed r = closed (p_ring s)" using d by (auto simp: RingBuffer_drain_batch_def Let_def)
  show ?thesis
  proof (cases "batch = []")
    case True
    then show ?thesis using assms d items cl by (auto simp: drain_turn_def backlog_def)
  next
    case False
    have "1 \<le> length batch" using False by (cases batch) simp_all
    then have "2 + pool_left (map (worker_start env (e_blacklist (p_engine s))) batch) < 26 * length batch"
      using pool_left_start [of env "e_blacklist (p_engine s)" batch] by linarith
    with False assms d items cl show ?thesis by (simp add: drain_turn_def backlog_def)
  qed
qed

lemma pop_backlog:
  assumes "p_pc s = Popping"
  shows "(if parked s then pop_turn env s = s else backlog (pop_turn env s) < backlog s) \<and>
     closed (p_ring (pop_turn env s)) = closed (p_ring s) \<and> (p_pc (pop_turn env s) = Exited \<longrightarrow> closed (p_ring s))"
  using assms pool_left_start [of env "e_blacklist (p_engine s)" "[hd (buf (p_ring s))]"]
  by (cases "buf (p_ring s)")
    (auto simp: pop_turn_def RingBuffer_pop_turn_def parked_def backlog_def split: if_splits)

text \<open>A turn of a parked thread changes nothing; only an open buffer is waited on, and only a closed
  one ends the thread.\<close>

lemma turn_closed:
  assumes "analyzer_turn env ch s s'"
  shows "(parked s \<longrightarrow> s' = s) \<and> closed (p_ring s') = closed (p_ring s) \<and> (p_pc s' = Exited \<longrightarrow> closed (p_ring s))"
  using assms
proof (cases rule: analyzer_turn.cases)
  case drains
  then show ?thesis using drain_backlog by (fastforce simp: parked_def)
next
  case pops
  then show ?thesis using pop_backlog [OF pops(2), of env] by (auto split: if_splits)
next
  case (scores ws i clk)
  then show ?thesis by (auto simp: parked_def score_turn_def bind_eq_Some_conv)
next
  case collects
  then show ?thesis by (auto simp: parked_def collect_turn_def)
next
  case forwards
  then show ?thesis by (auto simp: parked_def forward_turn_def split: list.split)
qed

lemma turn_backlog:
  assumes "ac_ok (env_ac env)" and "pipe_inv env bl ch s" and "analyzer_turn env ch s s'" and "\<not> parked s"
  shows "backlog s' < backlog s"
  using assms(3)
proof (cases rule: analyzer_turn.cases)
  case drains
  then show ?thesis using drain_backlog by blast
next
  case pops
  then show ?thesis using pop_backlog [OF pops(2), of env] assms(4) by simp
next
  case (scores ws i clk)
  with inv_score [OF assms(1,2) scores(1,2), of clk] show ?thesis by (auto simp: backlog_def)
next
  case collects
  then show ?thesis by (simp add: backlog_def collect_turn_def)
next
  case forwards
  then show ?thesis by (auto simp: backlog_def forward_turn_def split: list.split)
qed

text \<open>Unless it is parked or has exited, the thread or its pool can take a turn.\<close>

lemma turn_exists:
  assumes "ac_ok (env_ac env)" and "pipe_inv env bl ch s" and "p_pc s \<noteq> Exited"
  shows "\<exists>s'. analyzer_turn env ch s s'"
proof (cases "p_pc s")
  case (Scoring ws)
  show ?thesis
  proof (cases "list_all finished ws")
    case True
    then show ?thesis using collects [OF Scoring] by blast
  next
    case False
    then obtain i where i: "i < length ws" "\<not> finished (ws ! i)" by (auto simp: list_all_length)
    then show ?thesis using inv_score [OF assms(1,2) Scoring i(1), of undefined] scores [OF Scoring i] by blast
  qed
qed (use assms(3) in \<open>auto intro: drains pops forwards\<close>)

lemma analyzer_finishes:
  assumes "ac_ok (env_ac env)" and "chan_ok ch"
  shows "pipe_inv env bl ch s \<Longrightarrow> \<exists>n t. n \<le> backlog s \<and> (analyzer_turn env ch ^^ n) s t \<and> pipe_inv env bl ch t \<and>
     closed (p_ring t) = closed (p_ring s) \<and> (if closed (p_ring s) then p_pc t = Exited else parked t)"
proof (induction "backlog s" arbitrary: s rule: less_induct)
  case less
  show ?case
  proof (cases "parked s \<or> p_pc s = Exited")
    case True
    then show ?thesis
      using less.prems by (intro exI [of _ 0] exI [of _ s]) (auto simp: parked_def pipe_inv_def)
  next
    case False
    then obtain s' where s': "analyzer_turn env ch s s'" using turn_exists [OF assms(1) less.prems] by blast
    then have dec: "backlog s' < backlog s" "closed (p_ring s') = closed (p_ring s)"
      using turn_backlog [OF assms(1) less.prems s'] turn_closed [OF s'] False by auto
    obtain n t where t: "n \<le> backlog s'" "(analyzer_turn env ch ^^ n) s' t" "pipe_inv env bl ch t"
      "closed (p_ring t) = closed (p_ring s')" "if closed (p_ring s') then p_pc t = Exited else parked t"
      using less.hyps [OF dec(1) inv_turn [OF assms less.prems s']] by blast
    have "(analyzer_turn env ch ^^ Suc n) s t" by (rule relpowp_Suc_I2 [OF s' t(2)])
    with t dec show ?thesis by (intro exI [of _ "Suc n"] exI [of _ t]) auto
  qed
qed

text \<open>The uninterrupted run of a worker, as turns of the pipeline.\<close>

lemma pool_run:
  assumes "p_pc s = Scoring [w]" and "worker_run env clks (p_engine s) w = Some (e', w')"
    and "pipe_reach js env ch s0 s"
  shows "pipe_reach js env ch s0 (s\<lparr>p_engine := e', p_pc := Scoring [w']\<rparr>)"
  using assms
proof (induction clks arbitrary: s w)
  case Nil
  then have "s\<lparr>p_engine := e', p_pc := Scoring [w']\<rparr> = s" by (cases s) auto
  with Nil(3) show ?case by (simp only:)
next
  case (Cons clk clks)
  then obtain e1 w1 where 1: "worker_turn env clk (p_engine s) w = Some (e1, w1)"
    "worker_run env clks e1 w1 = Some (e', w')" by (auto simp: bind_eq_Some_conv)
  show ?case
  proof (cases "finished w")
    case True
    then show ?thesis using Cons.IH [OF Cons.prems(1) _ Cons.prems(3)] 1 by (simp add: worker_turn_finished)
  next
    case False
    let ?s = "s\<lparr>p_engine := e1, p_pc := Scoring [w1]\<rparr>"
    have "analyzer_turn env ch s ?s"
      by (rule scores [OF Cons.prems(1), of 0 _ clk]) (use False 1(1) in \<open>simp_all add: score_turn_def idx_Some\<close>)
    from Cons.IH [of ?s w1] pipe_next [OF Cons.prems(3) analyze [OF this]] 1(2) show ?thesis by simp
  qed
qed

section \<open>Properties\<close>

text \<open>C1 (safety). The pipeline from capture to sender is faithful: whatever the interleaving of the
  capture thread, the analyzer, the turns of its workers, the calls of the sweeper and the receiver,
  the packets that arrive are captured packets in the order of capture, none duplicated, altered or
  invented (some may be lost when a buffer is full), each carrying the score and the flag reason of
  an analysis of itself by some well-formed engine with the blacklist of the start, whose port scan
  detector remembers only captured packets (\<open>scan_pairs\<close>), and in which only the number of half-open
  connections and whether the flow of a reset is tracked may be what other packets made of it
  meanwhile, with a score between 0 and 100.\<close>

theorem pipeline_faithful:
  assumes "ac_ok (env_ac env)" and "chan_ok ch" and "0 < c" and "fresh e" and "queued ch q = []"
    and "pipe_reach js env ch (pipe_init c e q) s"
  shows "subseq (map unscored (p_received s)) (map unscored (p_captured s)) \<and>
     (\<forall>p \<in> set (p_received s). scored env (scan_pairs (p_captured s)) (e_blacklist e) p \<and> 0 \<le> ids_score p \<and> ids_score p \<le> 100)"
  using assms by (rule pipe_received)

text \<open>The analyzer never gets stuck: in every reachable state it has finished, and then
  the buffer was closed; or it waits for a packet, and then the buffer is empty and open; or its
  next turn succeeds and brings it to another point of its loop.  In particular it never
  finishes as long as nobody closes the buffer.\<close>

theorem analyzer_progress:
  assumes "ac_ok (env_ac env)" and "chan_ok ch" and "0 < c" and "fresh e" and "queued ch q = []"
    and "pipe_reach js env ch (pipe_init c e q) s"
  shows "(p_pc s = Exited \<and> closed (p_ring s)) \<or>
     (p_pc s = Popping \<and> buf (p_ring s) = [] \<and> \<not> closed (p_ring s)) \<or>
     (\<exists>s'. pipe_step js env ch s s' \<and> p_pc s' \<noteq> p_pc s)"
proof -
  have inv: "pipe_inv env (e_blacklist e) ch s"
    by (rule inv_reach [OF assms(1,2,6) inv_init [OF assms(3-5)]])
  show ?thesis
  proof (cases "p_pc s = Exited \<or> parked s")
    case True
    then show ?thesis using inv by (auto simp: pipe_inv_def parked_def)
  next
    case False
    then obtain s' where t: "analyzer_turn env ch s s'" using turn_exists [OF assms(1) inv] by blast
    have dec: "backlog s' < backlog s" using turn_backlog [OF assms(1) inv t] False by blast
    have "p_pc s' \<noteq> p_pc s"
      using t
    proof (cases rule: analyzer_turn.cases)
      case (scores ws i clk)
      then show ?thesis using dec by (auto simp: score_turn_def backlog_def bind_eq_Some_conv)
    qed (use False in \<open>auto simp: drain_turn_def pop_turn_def RingBuffer_pop_turn_def collect_turn_def forward_turn_def
        parked_def Let_def split: list.splits prod.splits if_splits\<close>)
    then show ?thesis using pipe_step.analyze [OF t] by blast
  qed
qed

text \<open>C14 (termination). The analyzer always gets to the end of its work: every turn of the thread
  lowers its backlog unless it is waiting on an empty open buffer, so that from every reachable
  state at most as many turns as the backlog counts lead, when the buffer has been closed, to
  the exit of the thread, and otherwise to that wait.\<close>

theorem analyzer_terminates:
  assumes "ac_ok (env_ac env)" and "chan_ok ch" and "0 < c" and "fresh e" and "queued ch q = []"
    and "pipe_reach js env ch (pipe_init c e q) s"
  shows "(\<exists>n t. n \<le> backlog s \<and> (analyzer_turn env ch ^^ n) s t \<and>
       (if closed (p_ring s) then p_pc t = Exited else parked t)) \<and>
     (\<forall>s'. analyzer_turn env ch s s' \<longrightarrow> parked s \<or> backlog s' < backlog s)"
  using analyzer_finishes [OF assms(1,2) inv_reach [OF assms(1,2,6) inv_init [OF assms(3-5)]]]
    turn_backlog [OF assms(1) inv_reach [OF assms(1,2,6) inv_init [OF assms(3-5)]]]
  by blast

section \<open>Instances\<close>

lemma demo_fresh: "fresh demo_engine"
  by (auto simp: fresh_def demo_engine_def)

lemma engine_pipe_run:
  fixes e :: "u8 set engine"
  assumes "fresh e" and "0 < c"
  shows "\<exists>s. pipe_reach demo_json demo_env (list_chan 4) (pipe_init c e []) s \<and> length (p_received s) = 1 \<and>
     (\<forall>p \<in> set (p_received s). transport p = transport demo_packet) \<and> \<not> closed (p_ring s)"
proof -
  let ?ch = "list_chan 4" and ?s0 = "pipe_init c e [] :: (u8 set, raw_packet list) pipe"
  let ?s1 = "?s0\<lparr>p_ring := snd (RingBuffer_push demo_packet (p_ring ?s0)), p_captured := p_captured ?s0 @ [demo_packet]\<rparr>"
  let ?w = "worker_start demo_env (e_blacklist e) demo_packet"
  obtain r e1 where "IdsEngine_analyze demo_env demo_clock demo_packet e = Some (r, e1)"
    using analyze_step [OF demo_env_ok fresh_inv [OF assms(1)]] by blast
  then obtain n where run: "worker_run demo_env (replicate n demo_clock) e ?w =
      Some (e1, \<lparr>w_packet = demo_packet, w_stage = Scored r\<rparr>)" using uninterrupted by blast
  have d: "RingBuffer_drain_batch 64 (p_ring ?s1) = ([demo_packet], RingBuffer_new c)"
    using assms(2) by (simp add: pipe_init_def RingBuffer_new_def RingBuffer_push_def RingBuffer_drain_batch_def Let_def)
  let ?s2 = "?s1\<lparr>p_ring := RingBuffer_new c, p_pc := Scoring [?w]\<rparr>"
  have t: "drain_turn demo_env ?s1 = ?s2" using d by (simp add: drain_turn_def pipe_init_def)
  have pc: "p_pc ?s2 = Scoring [?w]" "p_engine ?s2 = e" by (simp_all add: pipe_init_def)
  have "pipe_reach demo_json demo_env ?ch ?s0 ?s1" by (rule pipe_next [OF pipe_refl capture])
  then have 2: "pipe_reach demo_json demo_env ?ch ?s0 ?s2"
    unfolding t [symmetric] by (rule pipe_next) (rule analyze [OF drains], simp add: pipe_init_def)
  let ?ws = "[\<lparr>w_packet = demo_packet, w_stage = Scored r\<rparr>]"
  let ?s3 = "?s2\<lparr>p_engine := e1, p_pc := Scoring ?ws\<rparr>"
  have "pipe_reach demo_json demo_env ?ch ?s0 ?s3"
    by (rule pool_run [OF pc(1) _ 2]) (unfold pc(2), rule run)
  then have "pipe_reach demo_json demo_env ?ch ?s0 (collect_turn ?ws ?s3)"
    by (rule pipe_next) (rule analyze [OF collects], simp_all add: finished_def)
  moreover define s4 where "s4 = collect_turn ?ws ?s3"
  moreover have "p_pc s4 = Forwarding [score_one (hd ?ws)]" "p_chan s4 = []" "p_received s4 = []"
    by (simp_all add: s4_def collect_turn_def pipe_init_def)
  moreover define s5 where "s5 = forward_turn ?ch [score_one (hd ?ws)] s4"
  ultimately have 5: "pipe_reach demo_json demo_env ?ch ?s0 s5" "p_chan s5 = [score_one (hd ?ws)]" "p_received s5 = []"
    using pipe_next [OF _ analyze [OF forwards]]
    by (metis, simp_all add: s5_def forward_turn_def forward_def list_chan_def)
  then have "pipe_reach demo_json demo_env ?ch ?s0 (s5\<lparr>p_chan := [], p_received := p_received s5 @ [score_one (hd ?ws)]\<rparr>)"
    by (intro pipe_next [OF 5(1)] receive) (simp add: list_chan_def)
  moreover have "\<not> closed (p_ring s5)"
    by (simp add: s5_def s4_def forward_turn_def collect_turn_def pipe_init_def RingBuffer_new_def)
  ultimately show ?thesis using 5(3)
    by (intro exI [of _ "s5\<lparr>p_chan := [], p_received := p_received s5 @ [score_one (hd ?ws)]\<rparr>"])
      (simp add: score_one_def)
qed

lemmas demo_pipe_run = engine_pipe_run [OF demo_fresh zero_less_numeral]

theorem pipeline_faithful_witness:
  "\<exists>s :: (u8 set, raw_packet list) pipe. length (p_received s) = 1 \<and> subseq (map unscored (p_received s)) (map unscored (p_captured s)) \<and>
     (\<forall>p \<in> set (p_received s). ids_score p \<le> 100)"
proof -
  obtain s where s: "pipe_reach demo_json demo_env (list_chan 4) (pipe_init 4 demo_engine []) s"
    "length (p_received s) = 1"
    using demo_pipe_run by blast
  have "queued (list_chan 4) [] = []" by (simp add: list_chan_def)
  from pipeline_faithful [OF demo_env_ok list_chan_ok _ demo_fresh this s(1)] s(2) show ?thesis by auto
qed

theorem analyzer_progress_witness:
  "\<exists>s'. pipe_step demo_json demo_env (list_chan 4) (pipe_init 4 demo_engine []) s' \<and> p_pc s' \<noteq> Draining"
proof -
  have q: "queued (list_chan 4) [] = []" by (simp add: list_chan_def)
  have pc: "p_pc (pipe_init 4 demo_engine ([] :: raw_packet list)) = Draining" by (simp add: pipe_init_def)
  show ?thesis
    using analyzer_progress [OF demo_env_ok list_chan_ok _ demo_fresh q pipe_refl, of 4 demo_json]
    unfolding pc by simp
qed

theorem analyzer_terminates_witness:
  "\<exists>n t. (analyzer_turn demo_env (list_chan 4) ^^ n)
      ((pipe_init 4 demo_engine [])\<lparr>p_ring := RingBuffer_close (RingBuffer_new 4)\<rparr>) t \<and> n \<le> 2 \<and> p_pc t = Exited"
proof -
  let ?s = "(pipe_init 4 demo_engine [])\<lparr>p_ring := RingBuffer_close (RingBuffer_new 4)\<rparr> :: (u8 set, raw_packet list) pipe"
  have q: "queued (list_chan 4) [] = []" by (simp add: list_chan_def)
  have "pipe_reach demo_json demo_env (list_chan 4) (pipe_init 4 demo_engine []) ?s"
    using pipe_next [OF pipe_refl close, of demo_json demo_env "list_chan 4" "pipe_init 4 demo_engine []"]
    by (simp add: pipe_init_def)
  from analyzer_terminates [OF demo_env_ok list_chan_ok _ demo_fresh q this]
  have "\<exists>n t. n \<le> backlog ?s \<and> (analyzer_turn demo_env (list_chan 4) ^^ n) ?s t \<and>
      (if closed (p_ring ?s) then p_pc t = Exited else parked t)" by simp
  moreover have "backlog ?s = 2" "closed (p_ring ?s)"
    by (simp_all add: backlog_def pipe_init_def RingBuffer_close_def RingBuffer_new_def)
  ultimately show ?thesis by auto
qed

end
