(* ===== verification/GrpcClient.thy ===== *)
theory GrpcClient
  imports Packet AddrText
begin

unbundle bit_operations_syntax

text \<open>
  The sending side, \<open>grpc_client.rs\<close>: packets become events, events are collected into
  numbered batches, and heartbeats report the counters.  The \<open>tokio::select!\<close> loops are
  state machines: each of their branches is one event.  Parameters: the BLAKE3 hash, the answers
  of the service, and \<open>parse_f32\<close>, the decimal reader for the memory figure.  The message types
  are the ones of \<open>proto/monitor.proto\<close>.
\<close>

section \<open>Messages\<close>

text \<open>The values of the enum \<open>Protocol\<close>.\<close>

definition PROTO_TCP :: int where "PROTO_TCP = 1"
definition PROTO_UDP :: int where "PROTO_UDP = 2"
definition PROTO_ICMP :: int where "PROTO_ICMP = 3"
definition PROTO_OTHER :: int where "PROTO_OTHER = 4"

lemmas proto_consts = PROTO_TCP_def PROTO_UDP_def PROTO_ICMP_def PROTO_OTHER_def

record pb_timestamp =
  ts_seconds :: int
  ts_nanos :: int

record packet_event =
  ev_agent_id :: bytes
  captured_at :: pb_timestamp
  ev_src_ip :: bytes
  ev_src_port :: u32
  ev_dst_ip :: bytes
  ev_dest_port :: u32
  ev_protocol :: int
  ev_bytes :: u64
  ev_ttl :: u32
  ev_tcp_flags :: "string list"
  ev_flag_reason :: int
  anomaly_score :: rat
  payload_hash :: bytes
  ev_interface :: bytes
  direction :: bytes

record packet_batch =
  pb_events :: "packet_event list"
  pb_seq :: u64
  pb_agent_id :: bytes

record heartbeat =
  hb_agent_id :: bytes
  hb_ts :: pb_timestamp
  packets_captured :: u64
  packets_flagged :: u64
  packets_dropped :: u64
  cpu_usage_pct :: rat
  mem_usage_mb :: rat
  hb_agent_version :: bytes
  hb_hostname :: bytes
  hb_os_info :: bytes

record agent_counters =
  c_captured :: u64
  c_flagged :: u64
  c_dropped :: u64

definition AgentCounters_default :: agent_counters where
  "AgentCounters_default = \<lparr>c_captured = 0, c_flagged = 0, c_dropped = 0\<rparr>"

section \<open>Packets to events\<close>

definition decode_tcp_flags :: "u8 \<Rightarrow> string list" where
  "decode_tcp_flags flags =
     (if flags AND 0x01 \<noteq> 0 then [''FIN''] else []) @
     (if flags AND 0x02 \<noteq> 0 then [''SYN''] else []) @
     (if flags AND 0x04 \<noteq> 0 then [''RST''] else []) @
     (if flags AND 0x08 \<noteq> 0 then [''PSH''] else []) @
     (if flags AND 0x10 \<noteq> 0 then [''ACK''] else []) @
     (if flags AND 0x20 \<noteq> 0 then [''URG''] else [])"

text \<open>A \<open>SystemTime\<close> as a protobuf timestamp; before the epoch it is zero.  The seconds are an
  \<open>u64\<close> cast to \<open>i64\<close>.\<close>

definition to_timestamp :: "system_time \<Rightarrow> pb_timestamp" where
  "to_timestamp t =
     (let d = nat t
      in \<lparr>ts_seconds = sint (of_nat (as_secs d) :: u64), ts_nanos = int (subsec_nanos d)\<rparr>)"

definition opt_port :: "u16 option \<Rightarrow> u32" where
  "opt_port p = ucast (case p of Some x \<Rightarrow> x | None \<Rightarrow> 0)"

definition parse_packet :: "(bytes \<Rightarrow> bytes) \<Rightarrow> raw_packet \<Rightarrow> bytes \<Rightarrow> packet_event option" where
  "parse_packet blake3 raw agent_id = do {
     tm \<leftarrow> transport raw;
     Some \<lparr>ev_agent_id = agent_id,
           captured_at = to_timestamp (timestamp raw),
           ev_src_ip = ip_to_string (src_ip tm),
           ev_src_port = opt_port (src_port tm),
           ev_dst_ip = ip_to_string (dst_ip tm),
           ev_dest_port = opt_port (dst_port tm),
           ev_protocol = (if protocol tm = 6 then PROTO_TCP
                          else if protocol tm = 17 then PROTO_UDP
                          else if protocol tm = 1 \<or> protocol tm = 58 then PROTO_ICMP
                          else PROTO_OTHER),
           ev_bytes = ucast (orig_len raw),
           ev_ttl = ucast (ttl tm),
           ev_tcp_flags = (case tcp_flags tm of Some flags \<Rightarrow> decode_tcp_flags flags | None \<Rightarrow> []),
           ev_flag_reason = ids_flag raw,
           anomaly_score = ids_score raw,
           payload_hash = blake3 (pkt_data raw),
           ev_interface = interface raw,
           direction = str ''unknown''\<rparr>
   }"

section \<open>The packet stream\<close>

record stream_cfg =
  cfg_agent_id :: bytes
  cfg_batch_size :: usize
  cfg_flush_interval :: duration

text \<open>The variables of the task; \<open>sent\<close> records the batches handed to the outgoing channel, in
  order, each with whether it was accepted.\<close>

record stream_state =
  pending :: "packet_event list"
  seq :: u64
  counters :: agent_counters
  sent :: "(packet_batch \<times> bool) list"
  running :: bool

definition stream_init :: "agent_counters \<Rightarrow> stream_state" where
  "stream_init c = \<lparr>pending = [], seq = 0, counters = c, sent = [], running = True\<rparr>"

text \<open>\<open>accepted\<close> is the outcome of \<open>batch_tx.send\<close>.\<close>

definition flush :: "bool \<Rightarrow> stream_cfg \<Rightarrow> stream_state \<Rightarrow> stream_state" where
  "flush accepted cfg s =
     (if pending s = [] then s
      else
        let batch = \<lparr>pb_events = pending s, pb_seq = seq s, pb_agent_id = cfg_agent_id cfg\<rparr>
        in s\<lparr>pending := [], sent := sent s @ [(batch, accepted)], seq := seq s + 1\<rparr>)"

datatype stream_event = Cancelled bool | ChannelClosed bool | Packet raw_packet bool | FlushTick bool

fun stream_turn :: "(bytes \<Rightarrow> bytes) \<Rightarrow> stream_cfg \<Rightarrow> stream_event \<Rightarrow> stream_state \<Rightarrow> stream_state" where
  "stream_turn blake3 cfg (Cancelled ok) s = (flush ok cfg s)\<lparr>running := False\<rparr>"
| "stream_turn blake3 cfg (ChannelClosed ok) s = (flush ok cfg s)\<lparr>running := False\<rparr>"
| "stream_turn blake3 cfg (Packet raw ok) s =
     (case parse_packet blake3 raw (cfg_agent_id cfg) of
        None \<Rightarrow> s
      | Some event \<Rightarrow>
          let s1 = s\<lparr>counters := (counters s)\<lparr>c_captured := c_captured (counters s) + 1\<rparr>\<rparr>;
              s2 = s1\<lparr>pending := pending s1 @ [event]\<rparr>
          in if cfg_batch_size cfg \<le> length (pending s2) then flush ok cfg s2 else s2)"
| "stream_turn blake3 cfg (FlushTick ok) s = flush ok cfg s"

text \<open>The loop leaves on the first cancellation or end of the input.\<close>

fun run_packet_stream :: "(bytes \<Rightarrow> bytes) \<Rightarrow> stream_cfg \<Rightarrow> stream_event list \<Rightarrow> stream_state \<Rightarrow> stream_state" where
  "run_packet_stream blake3 cfg [] s = s"
| "run_packet_stream blake3 cfg (e # es) s =
     (let s' = stream_turn blake3 cfg e s
      in if running s' then run_packet_stream blake3 cfg es s' else s')"

section \<open>Heartbeats and registration\<close>

record heartbeat_cfg =
  hc_agent_id :: bytes
  hc_interval :: duration
  hc_agent_version :: bytes
  hc_hostname :: bytes
  hc_os_info :: bytes

text \<open>The second word of a line, \<open>split_whitespace().nth(1)\<close>.\<close>

definition second_word :: "bytes \<Rightarrow> bytes option" where
  "second_word line = (case split_whitespace [] line of _ # w # _ \<Rightarrow> Some w | _ \<Rightarrow> None)"

definition read_mem_usage_mb :: "(bytes \<Rightarrow> rat option) \<Rightarrow> bytes option \<Rightarrow> rat" where
  "read_mem_usage_mb parse_f32 status =
     (case status of
        None \<Rightarrow> 0
      | Some text \<Rightarrow>
          (case find (\<lambda>line. prefix (str ''VmRSS:'') line) (str_lines text) of
             None \<Rightarrow> 0
           | Some line \<Rightarrow>
               (case Option.bind (second_word line) parse_f32 of Some kb \<Rightarrow> kb / 1024 | None \<Rightarrow> 0)))"

definition build_heartbeat :: "heartbeat_cfg \<Rightarrow> system_time \<Rightarrow> rat \<Rightarrow> agent_counters \<Rightarrow> heartbeat" where
  "build_heartbeat cfg now mem c =
     \<lparr>hb_agent_id = hc_agent_id cfg, hb_ts = to_timestamp now, packets_captured = c_captured c,
      packets_flagged = c_flagged c, packets_dropped = c_dropped c, cpu_usage_pct = 0,
      mem_usage_mb = mem, hb_agent_version = hc_agent_version cfg, hb_hostname = hc_hostname cfg,
      hb_os_info = hc_os_info cfg\<rparr>"

record register_request =
  rq_token :: bytes
  rq_agent_id :: bytes
  rq_hostname :: bytes
  rq_os_info :: bytes
  rq_agent_version :: bytes

record register_response =
  rs_ok :: bool
  rs_message :: bytes

text \<open>A \<open>tonic::Status\<close> of the transport, or the one made from a refusal.\<close>

datatype 's status = Rpc 's | UnknownStatus bytes

definition hostname_or_default :: "bytes option \<Rightarrow> bytes" where
  "hostname_or_default env_hostname = (case env_hostname of Some h \<Rightarrow> h | None \<Rightarrow> str ''unknown'')"

definition register_agent ::
  "(register_request \<Rightarrow> 's + register_response) \<Rightarrow> bytes option \<Rightarrow> bytes \<Rightarrow> bytes \<Rightarrow> bytes \<Rightarrow> bytes \<Rightarrow> 's status + unit" where
  "register_agent rpc env_hostname os token agent_id agent_version =
     (let req = \<lparr>rq_token = token, rq_agent_id = agent_id,
                 rq_hostname = hostname_or_default env_hostname,
                 rq_os_info = os, rq_agent_version = agent_version\<rparr>
      in case rpc req of
           Inl e \<Rightarrow> Inl (Rpc e)
         | Inr resp \<Rightarrow> if \<not> rs_ok resp then Inl (UnknownStatus (rs_message resp)) else Inr ())"

section \<open>Flags\<close>

definition flag_value :: "string \<Rightarrow> u8" where
  "flag_value n = (if n = ''FIN'' then 0x01 else if n = ''SYN'' then 0x02 else if n = ''RST'' then 0x04
     else if n = ''PSH'' then 0x08 else if n = ''ACK'' then 0x10 else if n = ''URG'' then 0x20 else 0)"

definition encode_tcp_flags :: "string list \<Rightarrow> u8" where
  "encode_tcp_flags ns = foldr (\<lambda>n acc. flag_value n OR acc) ns 0"

lemma single_bit: "flags AND (2 ^ k) = (if bit flags k then 2 ^ k else (0 :: u8))"
  by (rule bit_word_eqI) (auto simp: bit_simps)

lemma encode_append: "encode_tcp_flags (xs @ ys) = encode_tcp_flags xs OR encode_tcp_flags ys"
  by (induction xs) (simp_all add: encode_tcp_flags_def ac_simps)

lemma encode_flag:
  "encode_tcp_flags (if w AND m \<noteq> 0 then [n] else []) = w AND m"
  if "flag_value n = m" and "w AND m = 0 \<or> w AND m = m"
  using that by (auto simp: encode_tcp_flags_def)

lemma flag_mask: "w AND 1 = 0 \<or> w AND 1 = 1" "w AND 2 = 0 \<or> w AND 2 = 2" "w AND 4 = 0 \<or> w AND 4 = 4"
  "w AND 8 = 0 \<or> w AND 8 = 8" "w AND 0x10 = 0 \<or> w AND 0x10 = 0x10" "w AND 0x20 = 0 \<or> w AND 0x20 = 0x20"
  for w :: u8
  using single_bit [of w 0] single_bit [of w 1] single_bit [of w 2] single_bit [of w 3]
    single_bit [of w 4] single_bit [of w 5]
  by (auto split: if_splits)

lemma encode_decode: "encode_tcp_flags (decode_tcp_flags w) = w AND 0x3F"
proof -
  have "encode_tcp_flags (decode_tcp_flags w) =
      (w AND 1) OR (w AND 2) OR (w AND 4) OR (w AND 8) OR (w AND 0x10) OR (w AND 0x20)"
    unfolding decode_tcp_flags_def encode_append
    by (simp add: encode_flag flag_mask flag_value_def)
  also have "\<dots> = w AND 0x3F" by (simp flip: bit.conj_disj_distrib)
  finally show ?thesis .
qed

section \<open>The stream\<close>

text \<open>What the loop takes in: the packets before the first cancellation or end of the input.\<close>

fun taken_in :: "stream_event list \<Rightarrow> raw_packet list" where
  "taken_in [] = []"
| "taken_in (Cancelled ok # es) = []"
| "taken_in (ChannelClosed ok # es) = []"
| "taken_in (Packet raw ok # es) = raw # taken_in es"
| "taken_in (FlushTick ok # es) = taken_in es"

definition events_of :: "(bytes \<Rightarrow> bytes) \<Rightarrow> stream_cfg \<Rightarrow> raw_packet list \<Rightarrow> packet_event list" where
  "events_of blake3 cfg raws = List.map_filter (\<lambda>r. parse_packet blake3 r (cfg_agent_id cfg)) raws"

lemma events_of_simps [simp]:
  "events_of b cfg [] = []"
  "events_of b cfg (xs @ ys) = events_of b cfg xs @ events_of b cfg ys"
  "events_of b cfg [r] = (case parse_packet b r (cfg_agent_id cfg) of None \<Rightarrow> [] | Some e \<Rightarrow> [e])"
  by (simp_all add: events_of_def List.map_filter_def split: option.split)

definition sent_events :: "stream_state \<Rightarrow> packet_event list" where
  "sent_events s = concat (map (pb_events \<circ> fst) (sent s))"

definition stream_inv :: "(bytes \<Rightarrow> bytes) \<Rightarrow> stream_cfg \<Rightarrow> raw_packet list \<Rightarrow> stream_state \<Rightarrow> bool" where
  "stream_inv blake3 cfg raws s \<longleftrightarrow>
     sent_events s @ pending s = events_of blake3 cfg raws \<and>
     map (pb_seq \<circ> fst) (sent s) = map of_nat [0..<length (sent s)] \<and> seq s = of_nat (length (sent s)) \<and>
     (\<forall>(b, _) \<in> set (sent s). pb_events b \<noteq> [] \<and> length (pb_events b) \<le> max 1 (cfg_batch_size cfg)) \<and>
     length (pending s) < max 1 (cfg_batch_size cfg) \<and>
     c_captured (counters s) = of_nat (length (events_of blake3 cfg raws)) \<and>
     c_flagged (counters s) = 0 \<and> c_dropped (counters s) = 0"

lemma stream_inv_init: "stream_inv b cfg [] (stream_init AgentCounters_default)"
  by (simp add: stream_inv_def stream_init_def AgentCounters_default_def sent_events_def)

lemma flush_inv:
  assumes "sent_events s @ pending s = events_of b cfg raws"
    and "map (pb_seq \<circ> fst) (sent s) = map of_nat [0..<length (sent s)]" and "seq s = of_nat (length (sent s))"
    and "\<forall>(b, _) \<in> set (sent s). pb_events b \<noteq> [] \<and> length (pb_events b) \<le> max 1 (cfg_batch_size cfg)"
    and "length (pending s) \<le> max 1 (cfg_batch_size cfg)"
    and "c_captured (counters s) = of_nat (length (events_of b cfg raws))"
    and "c_flagged (counters s) = 0" and "c_dropped (counters s) = 0"
  shows "stream_inv b cfg raws (flush ok cfg s)" and "pending (flush ok cfg s) = []"
  using assms by (auto simp: stream_inv_def flush_def sent_events_def Let_def)

lemma turn_inv:
  assumes "stream_inv b cfg raws s"
  shows "stream_inv b cfg (raws @ taken_in [e]) (stream_turn b cfg e s) \<and>
     (\<not> running (stream_turn b cfg e s) \<longrightarrow> running s \<longrightarrow> pending (stream_turn b cfg e s) = [])"
proof -
  have fl: "stream_inv b cfg raws (flush ok cfg s)" "pending (flush ok cfg s) = []"
    "running (flush ok cfg s) = running s" for ok
    using assms flush_inv [of s b cfg raws ok] by (auto simp: stream_inv_def flush_def Let_def)
  have stop: "stream_inv b cfg raws (t\<lparr>running := False\<rparr>) = stream_inv b cfg raws t" for t
    by (simp add: stream_inv_def sent_events_def)
  show ?thesis
  proof (cases e)
    case (Packet raw ok)
    show ?thesis
    proof (cases "parse_packet b raw (cfg_agent_id cfg)")
      case None
      then show ?thesis using assms by (simp add: Packet stream_inv_def)
    next
      case (Some ev)
      define t where "t = s\<lparr>counters := (counters s)\<lparr>c_captured := c_captured (counters s) + 1\<rparr>,
          pending := pending s @ [ev]\<rparr>"
      have turn: "stream_turn b cfg e s = (if cfg_batch_size cfg \<le> length (pending t) then flush ok cfg t else t)"
        by (simp add: Packet Some t_def Let_def)
      have t: "sent_events t @ pending t = events_of b cfg (raws @ [raw])"
        "map (pb_seq \<circ> fst) (sent t) = map of_nat [0..<length (sent t)]" "seq t = of_nat (length (sent t))"
        "\<forall>(b, _) \<in> set (sent t). pb_events b \<noteq> [] \<and> length (pb_events b) \<le> max 1 (cfg_batch_size cfg)"
        "length (pending t) \<le> max 1 (cfg_batch_size cfg)"
        "c_captured (counters t) = of_nat (length (events_of b cfg (raws @ [raw])))"
        "c_flagged (counters t) = 0" "c_dropped (counters t) = 0" "running t = running s"
        using assms Some by (simp_all add: t_def stream_inv_def sent_events_def)
      have "running (stream_turn b cfg e s) = running s"
        unfolding turn by (simp add: flush_def Let_def t(9))
      moreover have "stream_inv b cfg (raws @ [raw]) (stream_turn b cfg e s)"
      proof (cases "cfg_batch_size cfg \<le> length (pending t)")
        case True
        then show ?thesis unfolding turn using flush_inv(1) [OF t(1-8)] by simp
      next
        case False
        then show ?thesis unfolding turn using t by (simp add: stream_inv_def)
      qed
      ultimately show ?thesis by (simp add: Packet)
    qed
  qed (use assms fl stop in simp_all)
qed

lemma stream_run_inv:
  "stream_inv b cfg raws s \<Longrightarrow> running s \<Longrightarrow>
     stream_inv b cfg (raws @ taken_in es) (run_packet_stream b cfg es s) \<and>
     (\<not> running (run_packet_stream b cfg es s) \<longrightarrow> pending (run_packet_stream b cfg es s) = [])"
proof (induction es arbitrary: raws s)
  case (Cons e es)
  let ?s = "stream_turn b cfg e s"
  have inv: "stream_inv b cfg (raws @ taken_in [e]) ?s" "\<not> running ?s \<longrightarrow> pending ?s = []"
    using turn_inv [OF Cons.prems(1), of e] Cons.prems(2) by auto
  show ?case
  proof (cases "running ?s")
    case True
    then have "taken_in (e # es) = taken_in [e] @ taken_in es" by (cases e) simp_all
    with Cons.IH [OF inv(1) True] True show ?thesis by (simp add: Let_def)
  next
    case False
    then have "taken_in (e # es) = taken_in [e]"
      using Cons.prems(2) by (cases e) (auto simp: flush_def Let_def split: option.splits if_splits)
    with inv False show ?thesis by (simp add: Let_def)
  qed
qed simp

section \<open>Heartbeats during a run\<close>

text \<open>The stream and the heartbeat loop share the counters: a run interleaves their turns.\<close>

datatype sender_event = Turn stream_event | Beat system_time rat

fun sender_run :: "(bytes \<Rightarrow> bytes) \<Rightarrow> stream_cfg \<Rightarrow> heartbeat_cfg \<Rightarrow> sender_event list \<Rightarrow> stream_state \<Rightarrow> heartbeat list" where
  "sender_run b cfg hc [] s = []"
| "sender_run b cfg hc (Turn e # es) s =
     sender_run b cfg hc es (if running s then stream_turn b cfg e s else s)"
| "sender_run b cfg hc (Beat now mem # es) s = build_heartbeat hc now mem (counters s) # sender_run b cfg hc es s"

lemma sender_counters:
  "stream_inv b cfg raws s \<Longrightarrow> hb \<in> set (sender_run b cfg hc es s) \<Longrightarrow> packets_flagged hb = 0 \<and> packets_dropped hb = 0"
proof (induction es arbitrary: s raws)
  case (Cons e es)
  show ?case
  proof (cases e)
    case (Turn t)
    with Cons turn_inv [OF Cons.prems(1), of t] show ?thesis by (auto split: if_splits)
  next
    case (Beat now mem)
    with Cons show ?thesis by (auto simp: build_heartbeat_def stream_inv_def)
  qed
qed simp

section \<open>Properties\<close>

text \<open>C35 (functional). An event carries its packet faithfully: only packets without parsed headers are
  skipped, and from an event one reads back the IPv4 addresses, the ports, the length, the six
  TCP flags, the score and reason of the analysis, and the capture time to the nanosecond.\<close>

theorem event_faithful:
  "(parse_packet b raw i = None \<longleftrightarrow> transport raw = None) \<and>
   (\<forall>ev tm. parse_packet b raw i = Some ev \<longrightarrow> transport raw = Some tm \<longrightarrow>
      (\<forall>o1 o2 o3 o4. src_ip tm = V4 o1 o2 o3 o4 \<longrightarrow> parse_ipv4_addr (ev_src_ip ev) = Some (o1, o2, o3, o4)) \<and>
      (\<forall>o1 o2 o3 o4. dst_ip tm = V4 o1 o2 o3 o4 \<longrightarrow> parse_ipv4_addr (ev_dst_ip ev) = Some (o1, o2, o3, o4)) \<and>
      (\<forall>p. src_port tm = Some p \<longrightarrow> unat (ev_src_port ev) = unat p) \<and>
      (\<forall>p. dst_port tm = Some p \<longrightarrow> unat (ev_dest_port ev) = unat p) \<and>
      unat (ev_bytes ev) = unat (orig_len raw) \<and>
      (\<forall>f. tcp_flags tm = Some f \<longrightarrow> encode_tcp_flags (ev_tcp_flags ev) = f AND 0x3F) \<and>
      anomaly_score ev = ids_score raw \<and> ev_flag_reason ev = ids_flag raw \<and>
      (0 \<le> timestamp raw \<and> timestamp raw < 2 ^ 63 * 1000000000 \<longrightarrow>
         ts_seconds (captured_at ev) * 1000000000 + ts_nanos (captured_at ev) = timestamp raw))"
proof -
  have time: "ts_seconds (to_timestamp t) * 1000000000 + ts_nanos (to_timestamp t) = t"
    if "0 \<le> t" "t < 2 ^ 63 * 1000000000" for t
  proof -
    have "nat t div 1000000000 < 2 ^ 63" using that by (simp add: nat_less_iff less_mult_imp_div_less)
    then have "sint (of_nat (nat t div 1000000000) :: u64) = int (nat t div 1000000000)"
      by (simp add: signed_of_nat signed_take_bit_int_eq_self)
    moreover have "int (nat t div 1000000000) * 1000000000 + int (nat t mod 1000000000) = t"
      using that(1) by (simp add: zdiv_int zmod_int)
    ultimately show ?thesis by (simp add: to_timestamp_def Let_def time_defs)
  qed
  have cast: "take_bit 32 (unat p) = unat p" "take_bit 64 (unat n) = unat n" for p :: u16 and n :: u32
    using unsigned_less [where 'a = nat, of p] unsigned_less [where 'a = nat, of n]
    by (simp_all add: take_bit_nat_eq_self)
  show ?thesis
    by (cases "transport raw")
      (auto simp: parse_packet_def parse_ipv4_to_string opt_port_def encode_decode time unsigned_ucast_eq cast)
qed

definition demo_event_packet :: raw_packet where
  "demo_event_packet = \<lparr>timestamp = 1700000000123456789, pkt_data = [], orig_len = 60, cap_len = 60,
     interface = [], link_type = Ethernet,
     transport = Some \<lparr>src_ip = V4 10 0 0 66, dst_ip = V4 10 0 0 1, src_port = Some 4000, dst_port = Some 443,
       protocol = 6, tcp_flags = Some 0x12, ttl = 64, ip_flags = 0, ip_frag_offset = 0, icmp_type = None,
       icmp_code = None, eth_src_mac = None, vlan_id = None, payload_offset = 0\<rparr>,
     is_truncated = False, packet_id = 0, ids_score = 90, ids_flag = 7\<rparr>"

theorem event_faithful_witness:
  "\<exists>ev. parse_packet id demo_event_packet [] = Some ev \<and>
     parse_ipv4_addr (ev_src_ip ev) = Some (10, 0, 0, 66) \<and> encode_tcp_flags (ev_tcp_flags ev) = 0x12"
proof -
  note f = event_faithful [of id demo_event_packet "[]"]
  have "parse_packet id demo_event_packet [] \<noteq> None" using f by (simp add: demo_event_packet_def)
  then obtain ev where "parse_packet id demo_event_packet [] = Some ev" by blast
  with f show ?thesis by (fastforce simp: demo_event_packet_def)
qed

text \<open>C17 (invariant). The stream batches every event exactly once: for any sequence of packets, ticks and
  cancellations the events of the batches handed over (accepted or not), followed by those still
  pending, are the events of the packets taken in, in order; the batches are numbered 0, 1, 2 and so on, none is
  empty or larger than the batch size (read as at least one), fewer than that are ever
  pending, nothing is pending when the task has ended, and the capture counter is the number of
  events.\<close>

theorem stream_exact:
  fixes es b cfg
  defines "s \<equiv> run_packet_stream b cfg es (stream_init AgentCounters_default)"
  shows "concat (map (pb_events \<circ> fst) (sent s)) @ pending s = events_of b cfg (taken_in es) \<and>
     map (pb_seq \<circ> fst) (sent s) = map of_nat [0..<length (sent s)] \<and>
     (\<forall>(pb, _) \<in> set (sent s). 1 \<le> length (pb_events pb) \<and> length (pb_events pb) \<le> max 1 (cfg_batch_size cfg)) \<and>
     length (pending s) < max 1 (cfg_batch_size cfg) \<and>
     (\<not> running s \<longrightarrow> pending s = []) \<and>
     c_captured (counters s) = of_nat (length (events_of b cfg (taken_in es)))"
proof -
  have "running (stream_init AgentCounters_default)" by (simp add: stream_init_def)
  from stream_run_inv [OF stream_inv_init [of b cfg] this, of es]
  have inv: "stream_inv b cfg (taken_in es) s" "\<not> running s \<longrightarrow> pending s = []" by (simp_all add: s_def)
  then show ?thesis by (auto simp: stream_inv_def sent_events_def Suc_le_eq)
qed

theorem stream_exact_witness:
  "let s = run_packet_stream id \<lparr>cfg_agent_id = [], cfg_batch_size = 50, cfg_flush_interval = from_millis 200\<rparr>
       [Packet demo_event_packet True, Cancelled True] (stream_init AgentCounters_default)
   in pending s = [] \<and> length (concat (map (pb_events \<circ> fst) (sent s))) = 1"
proof -
  let ?cfg = "\<lparr>cfg_agent_id = [], cfg_batch_size = 50, cfg_flush_interval = from_millis 200\<rparr>"
  let ?es = "[Packet demo_event_packet True, Cancelled True]"
  have "\<not> running (run_packet_stream id ?cfg ?es (stream_init AgentCounters_default))"
    by (auto simp: Let_def stream_init_def flush_def split: option.split)
  moreover have "length (events_of id ?cfg (taken_in ?es)) = 1"
    by (simp add: events_of_def List.map_filter_def parse_packet_def demo_event_packet_def)
  ultimately show ?thesis using stream_exact [of id ?cfg ?es] by (auto simp: Let_def)
qed

text \<open>The counters of flagged and dropped packets are dead: in every run of the stream and
  the heartbeat loop, from the counters the agent starts with, each heartbeat reports zero
  flagged and zero dropped packets, whatever was flagged or dropped.\<close>

theorem heartbeat_counters_dead:
  "\<forall>hb \<in> set (sender_run b cfg hc es (stream_init AgentCounters_default)).
     packets_flagged hb = 0 \<and> packets_dropped hb = 0"
  using sender_counters [OF stream_inv_init] by blast

definition demo_heartbeat_cfg :: heartbeat_cfg where
  "demo_heartbeat_cfg = \<lparr>hc_agent_id = [], hc_interval = from_secs 10, hc_agent_version = [], hc_hostname = [], hc_os_info = []\<rparr>"

theorem heartbeat_counters_dead_witness:
  "packets_flagged (hd (sender_run id \<lparr>cfg_agent_id = [], cfg_batch_size = 50, cfg_flush_interval = from_millis 200\<rparr> demo_heartbeat_cfg
     [Turn (Packet demo_event_packet True), Beat 5 1] (stream_init AgentCounters_default))) = 0"
proof -
  let ?r = "sender_run id \<lparr>cfg_agent_id = [], cfg_batch_size = 50, cfg_flush_interval = from_millis 200\<rparr> demo_heartbeat_cfg
     [Turn (Packet demo_event_packet True), Beat 5 1] (stream_init AgentCounters_default)"
  have "?r \<noteq> []" by simp
  then have "hd ?r \<in> set ?r" by (rule hd_in_set)
  then show ?thesis using heartbeat_counters_dead by blast
qed

end
