(* ===== verification/Config.thy ===== *)
theory Config
  imports GrpcClient
begin

text \<open>
  The command line as \<open>config.rs\<close> declares it, the settings of the tasks that \<open>main\<close> derives from
  it, and the log filter.  The library \<open>clap\<close> splits the command line into options, rejects
  unknown ones and converts their values; \<open>Config_parse\<close> is what the attributes in \<open>config.rs\<close> make
  of the options: the fields, the default and the two environment variables.
\<close>

record config =
  list_devices :: bool
  cf_interface :: "bytes option"
  bpf_filter :: "bytes option"
  channel_capacity :: usize
  grpc_addr :: "bytes option"
  grpc_batch_size :: "usize option"
  grpc_flush_ms :: "u64 option"
  heartbeat_interval_secs :: "u64 option"
  cf_agent_id :: "bytes option"
  register_token :: "bytes option"
  test_send :: bool
  test_packets_per_tick :: "usize option"
  test_tick_ms :: "u64 option"
  test_max_ticks :: "u64 option"

text \<open>\<open>Option::unwrap_or\<close>.\<close>

definition unwrap_or :: "'a option \<Rightarrow> 'a \<Rightarrow> 'a" where
  "unwrap_or x d = (case x of Some v \<Rightarrow> v | None \<Rightarrow> d)"

lemma unwrap_or_simps [simp]: "unwrap_or (Some v) d = v" "unwrap_or None d = d"
  by (simp_all add: unwrap_or_def)

text \<open>\<open>Duration::from_millis\<close> and \<open>from_secs\<close> of an \<open>u64\<close> do not overflow.\<close>

definition main_stream_cfg :: "config \<Rightarrow> bytes \<Rightarrow> stream_cfg" where
  "main_stream_cfg c agent_id =
     \<lparr>cfg_agent_id = agent_id, cfg_batch_size = unwrap_or (grpc_batch_size c) 50,
      cfg_flush_interval = from_millis (unat (unwrap_or (grpc_flush_ms c) 200))\<rparr>"

definition main_heartbeat_cfg :: "config \<Rightarrow> bytes \<Rightarrow> bytes \<Rightarrow> bytes option \<Rightarrow> bytes \<Rightarrow> heartbeat_cfg" where
  "main_heartbeat_cfg c agent_id version env_hostname os =
     \<lparr>hc_agent_id = agent_id, hc_interval = from_secs (unat (unwrap_or (heartbeat_interval_secs c) 10)),
      hc_agent_version = version, hc_hostname = hostname_or_default env_hostname, hc_os_info = os\<rparr>"

definition main_grpc_addr :: "config \<Rightarrow> bytes" where
  "main_grpc_addr c = unwrap_or (grpc_addr c) (str ''http://127.0.0.1:50051'')"

section \<open>The command line\<close>

text \<open>An option of the command line with its converted value, and its name, which \<open>clap\<close> derives from
  the field.\<close>

datatype cli_arg =
    Arg_list_devices
  | Arg_interface bytes
  | Arg_bpf_filter bytes
  | Arg_channel_capacity usize
  | Arg_grpc_addr bytes
  | Arg_grpc_batch_size usize
  | Arg_grpc_flush_ms u64
  | Arg_heartbeat_interval_secs u64
  | Arg_agent_id bytes
  | Arg_register_token bytes
  | Arg_test_send
  | Arg_test_packets_per_tick usize
  | Arg_test_tick_ms u64
  | Arg_test_max_ticks u64

fun arg_name :: "cli_arg \<Rightarrow> string" where
  "arg_name Arg_list_devices = ''list-devices''"
| "arg_name (Arg_interface _) = ''interface''"
| "arg_name (Arg_bpf_filter _) = ''bpf-filter''"
| "arg_name (Arg_channel_capacity _) = ''channel-capacity''"
| "arg_name (Arg_grpc_addr _) = ''grpc-addr''"
| "arg_name (Arg_grpc_batch_size _) = ''grpc-batch-size''"
| "arg_name (Arg_grpc_flush_ms _) = ''grpc-flush-ms''"
| "arg_name (Arg_heartbeat_interval_secs _) = ''heartbeat-interval-secs''"
| "arg_name (Arg_agent_id _) = ''agent-id''"
| "arg_name (Arg_register_token _) = ''register-token''"
| "arg_name Arg_test_send = ''test-send''"
| "arg_name (Arg_test_packets_per_tick _) = ''test-packets-per-tick''"
| "arg_name (Arg_test_tick_ms _) = ''test-tick-ms''"
| "arg_name (Arg_test_max_ticks _) = ''test-max-ticks''"

text \<open>The value of the option that \<open>f\<close> selects.\<close>

definition value_of :: "(cli_arg \<Rightarrow> 'a option) \<Rightarrow> cli_arg list \<Rightarrow> 'a option" where
  "value_of f cli = (case List.map_filter f cli of [] \<Rightarrow> None | v # _ \<Rightarrow> Some v)"

definition or_else :: "'a option \<Rightarrow> 'a option \<Rightarrow> 'a option" where
  "or_else x y = (case x of None \<Rightarrow> y | Some _ \<Rightarrow> x)"

text \<open>\<open>Config::parse\<close>.  An option that is given twice is an error of \<open>clap\<close>, which exits.  A variable of
  the environment counts only where the option is not given.\<close>

definition Config_parse :: "cli_arg list \<Rightarrow> (bytes \<Rightarrow> bytes option) \<Rightarrow> config option" where
  "Config_parse cli var =
     (if \<not> distinct (map arg_name cli) then None
      else Some
        \<lparr>list_devices = Arg_list_devices \<in> set cli,
         cf_interface = value_of (\<lambda>a. case a of Arg_interface v \<Rightarrow> Some v | _ \<Rightarrow> None) cli,
         bpf_filter = value_of (\<lambda>a. case a of Arg_bpf_filter v \<Rightarrow> Some v | _ \<Rightarrow> None) cli,
         channel_capacity = unwrap_or (value_of (\<lambda>a. case a of Arg_channel_capacity v \<Rightarrow> Some v | _ \<Rightarrow> None) cli) 1024,
         grpc_addr = or_else (value_of (\<lambda>a. case a of Arg_grpc_addr v \<Rightarrow> Some v | _ \<Rightarrow> None) cli) (var (str ''GRPC_ADDR'')),
         grpc_batch_size = value_of (\<lambda>a. case a of Arg_grpc_batch_size v \<Rightarrow> Some v | _ \<Rightarrow> None) cli,
         grpc_flush_ms = value_of (\<lambda>a. case a of Arg_grpc_flush_ms v \<Rightarrow> Some v | _ \<Rightarrow> None) cli,
         heartbeat_interval_secs = value_of (\<lambda>a. case a of Arg_heartbeat_interval_secs v \<Rightarrow> Some v | _ \<Rightarrow> None) cli,
         cf_agent_id = value_of (\<lambda>a. case a of Arg_agent_id v \<Rightarrow> Some v | _ \<Rightarrow> None) cli,
         register_token = or_else (value_of (\<lambda>a. case a of Arg_register_token v \<Rightarrow> Some v | _ \<Rightarrow> None) cli) (var (str ''REGISTER_TOKEN'')),
         test_send = Arg_test_send \<in> set cli,
         test_packets_per_tick = value_of (\<lambda>a. case a of Arg_test_packets_per_tick v \<Rightarrow> Some v | _ \<Rightarrow> None) cli,
         test_tick_ms = value_of (\<lambda>a. case a of Arg_test_tick_ms v \<Rightarrow> Some v | _ \<Rightarrow> None) cli,
         test_max_ticks = value_of (\<lambda>a. case a of Arg_test_max_ticks v \<Rightarrow> Some v | _ \<Rightarrow> None) cli\<rparr>)"

text \<open>The log filter of \<open>main\<close>: the directives in \<open>RUST_LOG\<close> if it is set and parses.\<close>

definition main_log_filter :: "(bytes \<Rightarrow> bool) \<Rightarrow> (bytes \<Rightarrow> bytes option) \<Rightarrow> bytes" where
  "main_log_filter parses var =
     (case var (str ''RUST_LOG'') of
        Some s \<Rightarrow> if parses s then s else str ''info''
      | None \<Rightarrow> str ''info'')"

subsection \<open>Every setting can be given\<close>

text \<open>The options that spell a configuration.\<close>

definition given :: "('a \<Rightarrow> cli_arg) \<Rightarrow> 'a option \<Rightarrow> cli_arg list" where
  "given f x = (case x of None \<Rightarrow> [] | Some v \<Rightarrow> [f v])"

definition config_args :: "config \<Rightarrow> cli_arg list" where
  "config_args c =
     (if list_devices c then [Arg_list_devices] else []) @ given Arg_interface (cf_interface c) @
     given Arg_bpf_filter (bpf_filter c) @ [Arg_channel_capacity (channel_capacity c)] @
     given Arg_grpc_addr (grpc_addr c) @ given Arg_grpc_batch_size (grpc_batch_size c) @
     given Arg_grpc_flush_ms (grpc_flush_ms c) @ given Arg_heartbeat_interval_secs (heartbeat_interval_secs c) @
     given Arg_agent_id (cf_agent_id c) @ given Arg_register_token (register_token c) @
     (if test_send c then [Arg_test_send] else []) @ given Arg_test_packets_per_tick (test_packets_per_tick c) @
     given Arg_test_tick_ms (test_tick_ms c) @ given Arg_test_max_ticks (test_max_ticks c)"

lemma given_simps [simp]: "given f None = []" "given f (Some v) = [f v]"
  by (simp_all add: given_def)

lemma value_of_Nil [simp]: "value_of f [] = None"
  by (simp add: value_of_def)

lemma value_of_Cons [simp]: "value_of f (a # as) = or_else (f a) (value_of f as)"
  by (simp add: value_of_def or_else_def split: option.split)

lemma value_of_append [simp]: "value_of f (as @ bs) = or_else (value_of f as) (value_of f bs)"
  by (induction as) (simp_all add: or_else_def split: option.split)

lemma value_of_given [simp]: "value_of f (given g x) = Option.bind x (\<lambda>v. f (g v))"
  by (cases x) (simp_all add: or_else_def split: option.split)

lemma or_else_simps [simp]: "or_else None y = y" "or_else (Some v) y = Some v" "or_else x None = x"
  by (simp_all add: or_else_def split: option.split)

lemma set_given [simp]: "set (given f x) = f ` set_option x" "distinct (map arg_name (given f x))"
  by (cases x; simp)+

lemma config_args_distinct: "distinct (map arg_name (config_args c))"
  by (auto simp: config_args_def)

lemma config_roundtrip:
  assumes "grpc_addr c = None \<longrightarrow> var (str ''GRPC_ADDR'') = None"
    and "register_token c = None \<longrightarrow> var (str ''REGISTER_TOKEN'') = None"
  shows "Config_parse (config_args c) var = Some c"
proof -
  have env: "or_else (grpc_addr c) (var (str ''GRPC_ADDR'')) = grpc_addr c"
    "or_else (register_token c) (var (str ''REGISTER_TOKEN'')) = register_token c"
    using assms by (auto simp: or_else_def split: option.split)
  have if_args: "value_of f (if b then [a] else []) = (if b then f a else None)" for f :: "cli_arg \<Rightarrow> 'b option" and b a
    by simp
  have flags: "Arg_list_devices \<in> set (config_args c) \<longleftrightarrow> list_devices c" "Arg_test_send \<in> set (config_args c) \<longleftrightarrow> test_send c"
    by (auto simp: config_args_def)
  show ?thesis
    unfolding Config_parse_def flags using config_args_distinct [of c] env
    by (simp add: config_args_def if_args Option.bind_rzero)
qed

end
