(* ===== verification/GrpcTasks.thy ===== *)
theory GrpcTasks
  imports Config "HOL-Library.Multiset"
begin

text \<open>
  The tasks of \<open>grpc_client.rs\<close> around the loops of \<open>GrpcClient\<close>: opening the stream, the task
  that reads the acknowledgements, and the heartbeat loop with the answers of the service.

  The service is the environment: a run is given what each wait yields.  \<open>tokio::time::interval\<close>
  panics when its period is zero, as its documentation says, and \<open>Vec::with_capacity\<close> when the
  capacity exceeds \<open>isize::MAX\<close> bytes; it aborts when there is no such memory.  \<open>None\<close> stands for
  either; as the release profile says \<open>panic = "abort"\<close>, it is the end of the process.  The lines a
  task logs are part of its result, because they are all that it does with an answer.
\<close>

section \<open>Registration\<close>

text \<open>\<open>main\<close> registers when a token is set, and goes on whatever comes of it.\<close>

definition main_register ::
  "(register_request \<Rightarrow> 's + register_response) \<Rightarrow> config \<Rightarrow> bytes option \<Rightarrow> bytes \<Rightarrow> bytes \<Rightarrow> bytes \<Rightarrow> ('s status + unit) option" where
  "main_register rpc cfg env_hostname os agent_id version =
     map_option (\<lambda>token. register_agent rpc env_hostname os token agent_id version) (register_token cfg)"

section \<open>The stream task\<close>

text \<open>\<open>connect\<close> is the result of \<open>client.ingest_packets\<close>; when it fails, the task exits without having
  looked at the channel or the counters.\<close>

datatype 'e stream_outcome = StreamRefused 'e | StreamRan stream_state

text \<open>\<open>alloc\<close> says how many bytes can be had, \<open>ev_size\<close> is the size of a \<open>PacketEvent\<close>, which is generated.\<close>

definition allocates :: "(nat \<Rightarrow> bool) \<Rightarrow> nat \<Rightarrow> usize \<Rightarrow> bool" where
  "allocates alloc ev_size n \<longleftrightarrow> ev_size * n = 0 \<or> (ev_size * n < 2 ^ 63 \<and> alloc (ev_size * n))"

definition packet_stream_task ::
  "(nat \<Rightarrow> bool) \<Rightarrow> nat \<Rightarrow> (bytes \<Rightarrow> bytes) \<Rightarrow> stream_cfg \<Rightarrow> 'e + unit \<Rightarrow> stream_event list \<Rightarrow> agent_counters \<Rightarrow> 'e stream_outcome panics" where
  "packet_stream_task alloc ev_size blake3 cfg connect es c =
     (case connect of
        Inl e \<Rightarrow> Some (StreamRefused e)
      | Inr _ \<Rightarrow>
          if \<not> allocates alloc ev_size (cfg_batch_size cfg) then None
          else if cfg_flush_interval cfg = 0 then None
          else Some (StreamRan (run_packet_stream blake3 cfg es (stream_init c))))"

section \<open>Acknowledgements\<close>

record ingest_ack =
  ack_seq :: u64
  ack_accepted :: u32
  ack_rejected :: u32
  ack_message :: bytes

datatype 'e ack_event = AckCancelled | AckNext "('e + ingest_ack) option"

datatype 'e ack_log = LogCancelled | LogAck ingest_ack | LogError 'e | LogClosed

text \<open>What the task logs, and whether it has ended.\<close>

fun ack_task :: "'e ack_event list \<Rightarrow> 'e ack_log list \<times> bool" where
  "ack_task [] = ([], False)"
| "ack_task (AckCancelled # es) = ([LogCancelled], True)"
| "ack_task (AckNext None # es) = ([LogClosed], True)"
| "ack_task (AckNext (Some (Inr ack)) # es) = (let (log, ended) = ack_task es in (LogAck ack # log, ended))"
| "ack_task (AckNext (Some (Inl e)) # es) = (let (log, ended) = ack_task es in (LogError e # log, ended))"

section \<open>Heartbeats\<close>

record heartbeat_ack =
  ha_ok :: bool
  ha_message :: bytes

datatype 'e heartbeat_log = HbAcked | HbNotOk bytes | HbFailed 'e

text \<open>A tick comes with the time, the memory in use, the counters as they are then, and the answer of
  the service.\<close>

datatype 'e heartbeat_event = HbCancelled | HbTick system_time rat agent_counters "'e + heartbeat_ack"

definition heartbeat_log_of :: "'e + heartbeat_ack \<Rightarrow> 'e heartbeat_log" where
  "heartbeat_log_of answer =
     (case answer of Inr ack \<Rightarrow> if ha_ok ack then HbAcked else HbNotOk (ha_message ack) | Inl e \<Rightarrow> HbFailed e)"

fun heartbeat_loop :: "heartbeat_cfg \<Rightarrow> 'e heartbeat_event list \<Rightarrow> (heartbeat \<times> 'e heartbeat_log) list \<times> bool" where
  "heartbeat_loop cfg [] = ([], False)"
| "heartbeat_loop cfg (HbCancelled # es) = ([], True)"
| "heartbeat_loop cfg (HbTick now mem c answer # es) =
     (let (beats, ended) = heartbeat_loop cfg es
      in ((build_heartbeat cfg now mem c, heartbeat_log_of answer) # beats, ended))"

definition run_heartbeat_loop ::
  "heartbeat_cfg \<Rightarrow> 'e heartbeat_event list \<Rightarrow> ((heartbeat \<times> 'e heartbeat_log) list \<times> bool) panics" where
  "run_heartbeat_loop cfg es = (if hc_interval cfg = 0 then None else Some (heartbeat_loop cfg es))"

section \<open>Failures of the service\<close>

text \<open>The same run with other answers: every batch accepted or not as \<open>f\<close> says, every heartbeat
  answered as \<open>g\<close> says.\<close>

fun reanswer_stream :: "(bool \<Rightarrow> bool) \<Rightarrow> stream_event \<Rightarrow> stream_event" where
  "reanswer_stream f (Cancelled ok) = Cancelled (f ok)"
| "reanswer_stream f (ChannelClosed ok) = ChannelClosed (f ok)"
| "reanswer_stream f (Packet raw ok) = Packet raw (f ok)"
| "reanswer_stream f (FlushTick ok) = FlushTick (f ok)"

fun reanswer_beat :: "('e + heartbeat_ack \<Rightarrow> 'e + heartbeat_ack) \<Rightarrow> 'e heartbeat_event \<Rightarrow> 'e heartbeat_event" where
  "reanswer_beat g HbCancelled = HbCancelled"
| "reanswer_beat g (HbTick now mem c answer) = HbTick now mem c (g answer)"

definition same_work :: "stream_state \<Rightarrow> stream_state \<Rightarrow> bool" where
  "same_work s t \<longleftrightarrow> pending s = pending t \<and> seq s = seq t \<and> counters s = counters t \<and>
     map fst (sent s) = map fst (sent t) \<and> running s = running t"

lemma same_work_flush: "same_work s t \<Longrightarrow> same_work (flush ok cfg s) (flush ok' cfg t)"
  by (auto simp: same_work_def flush_def Let_def)

lemma same_work_turn: "same_work s t \<Longrightarrow> same_work (stream_turn b cfg e s) (stream_turn b cfg (reanswer_stream f e) t)"
proof (cases e)
  case (Cancelled ok)
  assume "same_work s t"
  from same_work_flush [OF this, of ok cfg "f ok"] show ?thesis by (simp add: Cancelled) (simp add: same_work_def)
next
  case (ChannelClosed ok)
  assume "same_work s t"
  from same_work_flush [OF this, of ok cfg "f ok"] show ?thesis by (simp add: ChannelClosed) (simp add: same_work_def)
next
  case (Packet raw ok)
  assume st: "same_work s t"
  show ?thesis
  proof (cases "parse_packet b raw (cfg_agent_id cfg)")
    case (Some event)
    let ?n = "\<lambda>u. u\<lparr>counters := (counters u)\<lparr>c_captured := c_captured (counters u) + 1\<rparr>, pending := pending u @ [event]\<rparr>"
    have "same_work (?n s) (?n t)" using st by (simp add: same_work_def)
    moreover from same_work_flush [OF this] have "same_work (flush ok cfg (?n s)) (flush (f ok) cfg (?n t))" .
    moreover have "pending s = pending t" using st by (simp add: same_work_def)
    ultimately show ?thesis by (simp add: Packet Some Let_def)
  qed (use st in \<open>simp add: Packet\<close>)
qed (use same_work_flush in auto)

lemma same_work_run:
  "same_work s t \<Longrightarrow> same_work (run_packet_stream b cfg es s) (run_packet_stream b cfg (map (reanswer_stream f) es) t)"
proof (induction es arbitrary: s t)
  case (Cons e es)
  note st = same_work_turn [OF Cons.prems, of b cfg e f]
  then have "running (stream_turn b cfg e s) = running (stream_turn b cfg (reanswer_stream f e) t)"
    by (simp add: same_work_def)
  with st Cons.IH [OF st] show ?case by (simp add: Let_def)
qed simp

lemma heartbeats_reanswered:
  "map fst (fst (heartbeat_loop hc (map (reanswer_beat g) hs))) = map fst (fst (heartbeat_loop hc hs)) \<and>
   snd (heartbeat_loop hc (map (reanswer_beat g) hs)) = snd (heartbeat_loop hc hs)"
  by (induction hc hs rule: heartbeat_loop.induct) (auto simp: split_beta Let_def)

text \<open>The events of the batches that were accepted and of those that were not.\<close>

definition batch_events :: "bool \<Rightarrow> stream_state \<Rightarrow> packet_event list" where
  "batch_events ok s = concat (map (pb_events \<circ> fst) (filter (\<lambda>x. snd x = ok) (sent s)))"

abbreviation all_accepted :: "stream_event list \<Rightarrow> stream_event list" where
  "all_accepted \<equiv> map (reanswer_stream (\<lambda>_. True))"

lemma flush_accepted: "snd ` set (sent s) \<subseteq> {True} \<Longrightarrow> snd ` set (sent (flush True cfg s)) \<subseteq> {True}"
  by (auto simp: flush_def Let_def)

lemma turn_accepted:
  "snd ` set (sent s) \<subseteq> {True} \<Longrightarrow> snd ` set (sent (stream_turn b cfg (reanswer_stream (\<lambda>_. True) e) s)) \<subseteq> {True}"
proof (cases e)
  case (Packet raw ok)
  assume "snd ` set (sent s) \<subseteq> {True}"
  then show ?thesis
    by (auto simp: Packet Let_def flush_def split: option.split)
qed (use flush_accepted [of s cfg] in auto)

lemma run_accepted:
  "snd ` set (sent s) \<subseteq> {True} \<Longrightarrow> snd ` set (sent (run_packet_stream b cfg (all_accepted es) s)) \<subseteq> {True}"
proof (induction es arbitrary: s)
  case (Cons e es)
  from turn_accepted [OF Cons.prems] Cons.IH show ?case by (simp add: Let_def)
qed simp

lemma reanswered_taken: "taken_in (map (reanswer_stream f) es) = taken_in es"
  by (induction es rule: taken_in.induct) simp_all

lemma all_sent: "snd ` set (sent s) \<subseteq> {True} \<Longrightarrow> batch_events True s = sent_events s"
proof -
  assume "snd ` set (sent s) \<subseteq> {True}"
  then have "filter (\<lambda>x. snd x = True) (sent s) = sent s" by (intro filter_True) auto
  then show ?thesis by (simp add: batch_events_def sent_events_def)
qed

lemma concat_filter_subseq: "subseq (concat (map f (filter P xs))) (concat (map f xs))"
proof (induction xs)
  case (Cons x xs)
  then show ?case using list_emb_append_mono [OF subseq_order.refl Cons.IH] by (simp add: subseq_drop_many)
qed simp

lemma mset_split: "mset (concat (map f xs)) =
  mset (concat (map f (filter P xs))) + mset (concat (map f (filter (\<lambda>x. \<not> P x) xs)))"
  by (induction xs) simp_all

section \<open>Properties\<close>



end
