(* ===== verification/Lifecycle.thy ===== *)
theory Lifecycle
  imports Analyzer GrpcTasks
begin

text \<open>
  The life of the process, \<open>main.rs\<close>: the threads and tasks that \<open>main\<close> starts, and its
  shutdown after Ctrl-C.  The state joins the pipeline of \<open>Analyzer\<close> with the positions of the
  main task, the capture thread, the stream task and the heartbeat task.

  A step is one action of one thread.  \<open>Analyzer.pipe_step\<close> lets the buffer be closed at any
  moment; here nothing closes it, because no function of the program calls \<open>close\<close>.  A step of the
  stream task or the heartbeat task that waits for the service is taken to end, and the time
  stamps of captured packets are those of pcap, so that the capture thread does not panic.  The
  release profile says \<open>panic = "abort"\<close>: with a setting that makes a task panic
  (\<open>startup_panics\<close>) the process ends there, and so do the runs described here.
\<close>

section \<open>State and steps\<close>

text \<open>\<open>SignalError\<close> is the early return when the Ctrl-C handler cannot be installed.\<close>

datatype main_pc = Serving | AwaitStream | AwaitHeartbeat | AwaitCapture | CleanExit | SignalError

text \<open>The capture thread runs the capture loop and then joins the analyzer thread; with
  \<open>--test-send\<close> neither thread is started.\<close>

datatype capture_pc = NoThread | Capturing | Joining | Ended

record ('b, 'q) agent =
  ag_pipe :: "('b, 'q) pipe"
  ag_main :: main_pc
  ag_cancel :: bool
  ag_shutdown :: bool
  ag_capture :: capture_pc
  ag_stream_done :: bool
  ag_heartbeat_done :: bool
  ag_disk :: disk

definition agent_init :: "config \<Rightarrow> 'b engine \<Rightarrow> 'q \<Rightarrow> disk \<Rightarrow> ('b, 'q) agent" where
  "agent_init cfg e q disk =
     \<lparr>ag_pipe = pipe_init 4096 e q, ag_main = Serving, ag_cancel = False, ag_shutdown = False,
      ag_capture = (if test_send cfg then NoThread else Capturing),
      ag_stream_done = False, ag_heartbeat_done = False, ag_disk = disk\<rparr>"

text \<open>\<open>main\<close> from the creation of the channel to the point where everything runs.  \<open>mpsc::channel\<close>
  panics when its capacity is zero or above \<open>Semaphore::MAX_PERMITS\<close>, as its documentation says.
  (With \<open>--list-devices\<close>, \<open>main\<close> prints and returns before.)\<close>

definition MAX_PERMITS :: usize where "MAX_PERMITS = 2 ^ 61 - 1"

definition main_start ::
  "config \<Rightarrow> (usize \<Rightarrow> 'q) \<Rightarrow> 'b engine \<Rightarrow> disk \<Rightarrow> ('b, 'q) agent panics" where
  "main_start cfg new_channel e disk =
     (if channel_capacity cfg = 0 \<or> MAX_PERMITS < channel_capacity cfg then None
      else Some (agent_init cfg e (new_channel (channel_capacity cfg)) disk))"

text \<open>The end of \<open>main\<close>: the baseline is saved.\<close>

definition clean_exit :: "json_api \<Rightarrow> bool \<Rightarrow> ('b, 'q) agent \<Rightarrow> ('b, 'q) agent" where
  "clean_exit js ok s =
     s\<lparr>ag_main := CleanExit, ag_disk := Baseline_persist js ok (e_baseline (p_engine (ag_pipe s))) (ag_disk s)\<rparr>"

inductive agent_step :: "json_api \<Rightarrow> 'b env \<Rightarrow> 'q chan_api \<Rightarrow> ('b, 'q) agent \<Rightarrow> ('b, 'q) agent \<Rightarrow> bool"
  for js env ch where
  ctrl_c: "ag_main s = Serving \<Longrightarrow>
     agent_step js env ch s (s\<lparr>ag_main := AwaitStream, ag_cancel := True, ag_shutdown := True\<rparr>)"
| signal_error: "ag_main s = Serving \<Longrightarrow> agent_step js env ch s (s\<lparr>ag_main := SignalError\<rparr>)"
| stream_joined: "ag_main s = AwaitStream \<Longrightarrow> ag_stream_done s \<Longrightarrow>
     agent_step js env ch s (s\<lparr>ag_main := AwaitHeartbeat\<rparr>)"
| heartbeat_joined: "ag_main s = AwaitHeartbeat \<Longrightarrow> ag_heartbeat_done s \<Longrightarrow>
     agent_step js env ch s (s\<lparr>ag_main := AwaitCapture\<rparr>)"
| no_capture: "ag_main s = AwaitCapture \<Longrightarrow> ag_capture s = NoThread \<Longrightarrow>
     agent_step js env ch s (clean_exit js ok s)"
| capture_joined: "ag_main s = AwaitCapture \<Longrightarrow> ag_capture s = Ended \<Longrightarrow>
     agent_step js env ch s (clean_exit js ok s)"
| stream_cancelled: "ag_cancel s \<Longrightarrow> agent_step js env ch s (s\<lparr>ag_stream_done := True\<rparr>)"
| stream_failed: "agent_step js env ch s (s\<lparr>ag_stream_done := True\<rparr>)"
| heartbeat_cancelled: "ag_cancel s \<Longrightarrow> agent_step js env ch s (s\<lparr>ag_heartbeat_done := True\<rparr>)"
| received: "\<not> ag_stream_done s \<Longrightarrow> recv ch (p_chan (ag_pipe s)) = (Some p, q) \<Longrightarrow>
     agent_step js env ch s (s\<lparr>ag_pipe := (ag_pipe s)\<lparr>p_chan := q, p_received := p_received (ag_pipe s) @ [p]\<rparr>\<rparr>)"
| captured: "ag_capture s = Capturing \<Longrightarrow>
     agent_step js env ch s (s\<lparr>ag_pipe := (ag_pipe s)\<lparr>p_ring := snd (RingBuffer_push p (p_ring (ag_pipe s))),
        p_captured := p_captured (ag_pipe s) @ [p]\<rparr>\<rparr>)"
| capture_stops: "ag_capture s = Capturing \<Longrightarrow> ag_shutdown s \<Longrightarrow>
     agent_step js env ch s (s\<lparr>ag_capture := Joining\<rparr>)"
| capture_fails: "ag_capture s = Capturing \<Longrightarrow> agent_step js env ch s (s\<lparr>ag_capture := Joining\<rparr>)"
| analyzer_joined: "ag_capture s = Joining \<Longrightarrow> p_pc (ag_pipe s) = Exited \<Longrightarrow>
     agent_step js env ch s (s\<lparr>ag_capture := Ended\<rparr>)"
| analyzes: "ag_capture s \<noteq> NoThread \<Longrightarrow> analyzer_turn env ch (ag_pipe s) t \<Longrightarrow>
     agent_step js env ch s (s\<lparr>ag_pipe := t\<rparr>)"
| synthetic: "ag_capture s = NoThread \<Longrightarrow>
     agent_step js env ch s (s\<lparr>ag_pipe := (ag_pipe s)\<lparr>p_chan := forward ch p (p_chan (ag_pipe s))\<rparr>\<rparr>)"
| sweeps: "sweeper_call js call (p_engine (ag_pipe s), ag_disk s) = (e, d) \<Longrightarrow>
     agent_step js env ch s (s\<lparr>ag_pipe := (ag_pipe s)\<lparr>p_engine := e\<rparr>, ag_disk := d\<rparr>)"

abbreviation agent_reach :: "json_api \<Rightarrow> 'b env \<Rightarrow> 'q chan_api \<Rightarrow> ('b, 'q) agent \<Rightarrow> ('b, 'q) agent \<Rightarrow> bool" where
  "agent_reach js env ch \<equiv> (agent_step js env ch)\<^sup>*\<^sup>*"

section \<open>Invariants\<close>

text \<open>With a capture thread: the pipeline is sound, its buffer is open, and neither the analyzer nor
  the capture thread has ended.\<close>

definition capture_mode :: "'b env \<Rightarrow> 'b blacklist \<Rightarrow> 'q chan_api \<Rightarrow> ('b, 'q) agent \<Rightarrow> bool" where
  "capture_mode env bl ch s \<longleftrightarrow> pipe_inv env bl ch (ag_pipe s) \<and> \<not> closed (p_ring (ag_pipe s)) \<and>
     ag_capture s \<in> {Capturing, Joining} \<and> ag_main s \<noteq> CleanExit"

definition cancel_inv :: "('b, 'q) agent \<Rightarrow> bool" where
  "cancel_inv s \<longleftrightarrow> ag_cancel s = ag_shutdown s \<and> (ag_cancel s \<longleftrightarrow> ag_main s \<notin> {Serving, SignalError})"

lemma capture_mode_step:
  assumes "ac_ok (env_ac env)" and "chan_ok ch" and "capture_mode env bl ch s" and "agent_step js env ch s s'"
  shows "capture_mode env bl ch s'"
  using assms(4)
proof (cases rule: agent_step.cases)
  case (captured p)
  then show ?thesis
    using assms(3) inv_capture [of env bl ch "ag_pipe s" p] by (simp add: capture_mode_def RingBuffer_push_def Let_def)
next
  case (received p q)
  then show ?thesis using assms(3) inv_receive [OF assms(2), of env bl "ag_pipe s" p q] by (simp add: capture_mode_def)
next
  case (analyzes t)
  then show ?thesis
    using assms(3) inv_turn [OF assms(1,2), of bl "ag_pipe s" t] turn_closed [of env ch "ag_pipe s" t] by (simp add: capture_mode_def)
next
  case (analyzer_joined)
  then show ?thesis using assms(3) by (auto simp: capture_mode_def pipe_inv_def)
next
  case (sweeps call e d)
  then have "view_ok env (scan_pairs (p_captured (ag_pipe s))) bl e"
    using assms(3) view_ok_call [of env "scan_pairs (p_captured (ag_pipe s))" bl "p_engine (ag_pipe s)" js call "ag_disk s"]
    by (simp add: capture_mode_def pipe_inv_def)
  then show ?thesis using sweeps assms(3) by (auto simp: capture_mode_def pipe_inv_def in_flight_def ahead_def)
qed (use assms(3) in \<open>auto simp: capture_mode_def\<close>)

lemma capture_mode_reach:
  assumes "ac_ok (env_ac env)" and "chan_ok ch" and "agent_reach js env ch s0 s" and "capture_mode env bl ch s0"
  shows "capture_mode env bl ch s"
  using assms(3,4) by (induction rule: rtranclp_induct) (auto intro: capture_mode_step [OF assms(1,2)])

lemma capture_mode_init:
  assumes "\<not> test_send cfg" and "fresh e" and "queued ch q = []"
  shows "capture_mode env (e_blacklist e) ch (agent_init cfg e q disk)"
  using assms inv_init [of 4096 e ch q env]
  by (simp add: capture_mode_def agent_init_def pipe_init_def RingBuffer_new_def)

lemma cancel_inv_reach:
  assumes "agent_reach js env ch (agent_init cfg e q disk) s"
  shows "cancel_inv s \<and> (ag_capture s = NoThread \<longleftrightarrow> test_send cfg)"
  using assms
proof (induction rule: rtranclp_induct)
  case base
  then show ?case by (simp add: cancel_inv_def agent_init_def)
next
  case (step s t)
  then show ?case by (cases rule: agent_step.cases [OF step.hyps(2)]) (auto simp: cancel_inv_def clean_exit_def)
qed

section \<open>Shutdown\<close>

lemma await_capture:
  assumes "ag_cancel s" and "ag_main s \<in> {AwaitStream, AwaitHeartbeat, AwaitCapture}"
  obtains t where "agent_reach js env ch s t" and "ag_main t = AwaitCapture"
    and "ag_pipe t = ag_pipe s" and "ag_capture t = ag_capture s" and "ag_shutdown t = ag_shutdown s"
proof -
  let ?s1 = "s\<lparr>ag_stream_done := True\<rparr>" and ?s2 = "s\<lparr>ag_stream_done := True, ag_heartbeat_done := True\<rparr>"
  let ?s3 = "?s2\<lparr>ag_main := AwaitHeartbeat\<rparr>" and ?s4 = "?s2\<lparr>ag_main := AwaitCapture\<rparr>"
  have "agent_step js env ch s ?s1" by (rule stream_cancelled [OF assms(1)])
  moreover have "agent_step js env ch ?s1 ?s2" using heartbeat_cancelled [of ?s1] assms(1) by simp
  ultimately have s2: "agent_reach js env ch s ?s2"
    by (rule rtranclp.rtrancl_into_rtrancl [OF r_into_rtranclp])
  have s4: "agent_reach js env ch s ?s4" if "agent_reach js env ch s ?s3"
    using that by (rule rtranclp.rtrancl_into_rtrancl) (use heartbeat_joined [of ?s3] in simp)
  consider "ag_main s = AwaitStream" | "?s2 = ?s3" | "?s2 = ?s4"
    using assms(2) by fastforce
  then have "agent_reach js env ch s ?s4"
  proof cases
    case 1
    then have "agent_step js env ch ?s2 ?s3" using stream_joined [of ?s2] by simp
    then show ?thesis by (rule s4 [OF rtranclp.rtrancl_into_rtrancl [OF s2]])
  next
    case 2
    show ?thesis by (rule s4 [OF back_subst [of "agent_reach js env ch s", OF s2 2]])
  next
    case 3
    show ?thesis by (rule back_subst [of "agent_reach js env ch s", OF s2 3])
  qed
  then show ?thesis by (rule that) simp_all
qed

lemma analyzer_runs:
  "(analyzer_turn env ch ^^ n) (ag_pipe s) t \<Longrightarrow> ag_capture s \<noteq> NoThread \<Longrightarrow> agent_reach js env ch s (s\<lparr>ag_pipe := t\<rparr>)"
proof (induction n arbitrary: t)
  case (Suc n)
  then obtain u where u: "agent_reach js env ch s (s\<lparr>ag_pipe := u\<rparr>)" "analyzer_turn env ch u t" by auto
  have "agent_step js env ch (s\<lparr>ag_pipe := u\<rparr>) (s\<lparr>ag_pipe := t\<rparr>)"
    using analyzes [of "s\<lparr>ag_pipe := u\<rparr>" env ch t js] u(2) Suc.prems(2) by simp
  with u(1) show ?case by (rule rtranclp.rtrancl_into_rtrancl)
qed simp

text \<open>The deadlock: main waits for the capture thread, which waits for the analyzer, which waits on
  an empty buffer that nobody fills or closes any more.\<close>

definition hung :: "('b, 'q) agent \<Rightarrow> bool" where
  "hung s \<longleftrightarrow> ag_main s = AwaitCapture \<and> ag_capture s = Joining \<and> parked (ag_pipe s)"

lemma hung_step:
  assumes "hung s" and "agent_step js env ch s s'" shows "hung s'"
  using assms(2)
proof (cases rule: agent_step.cases)
  case (analyzes t)
  then show ?thesis using assms(1) turn_closed [of env ch "ag_pipe s" t] by (simp add: hung_def)
qed (use assms(1) in \<open>auto simp: hung_def parked_def\<close>)

lemma hung_reach: "agent_reach js env ch s t \<Longrightarrow> hung s \<Longrightarrow> hung t"
  by (induction rule: rtranclp_induct) (auto intro: hung_step)

lemma capture_mode_hangs:
  assumes "ac_ok (env_ac env)" and "chan_ok ch" and "capture_mode env bl ch s"
    and "ag_cancel s" and "ag_shutdown s" and "ag_main s \<in> {AwaitStream, AwaitHeartbeat, AwaitCapture}"
  shows "\<exists>t. agent_reach js env ch s t \<and> hung t"
proof -
  obtain t where t: "agent_reach js env ch s t" "ag_main t = AwaitCapture" "ag_pipe t = ag_pipe s"
    "ag_capture t = ag_capture s" "ag_shutdown t = ag_shutdown s"
    by (rule await_capture [OF assms(4,6)])
  let ?u = "t\<lparr>ag_capture := Joining\<rparr>"
  have u: "agent_reach js env ch s ?u"
  proof (cases "ag_capture t = Capturing")
    case True
    then have "agent_step js env ch t ?u" using capture_stops t(5) assms(5) by metis
    with t(1) show ?thesis by (rule rtranclp.rtrancl_into_rtrancl)
  next
    case False
    then have "?u = t" using assms(3) t(4) by (auto simp: capture_mode_def)
    with t(1) show ?thesis by simp
  qed
  obtain n p where p: "(analyzer_turn env ch ^^ n) (ag_pipe ?u) p" "parked p"
    using analyzer_finishes [OF assms(1,2), of bl "ag_pipe s"] assms(3) t(3) by (auto simp: capture_mode_def)
  have "agent_reach js env ch ?u (?u\<lparr>ag_pipe := p\<rparr>)" by (rule analyzer_runs [OF p(1)]) simp
  with u p(2) t(2) show ?thesis
    by (intro exI [of _ "?u\<lparr>ag_pipe := p\<rparr>"]) (auto simp: hung_def intro: rtranclp_trans)
qed

text \<open>How far \<open>main\<close> is from its end.\<close>

definition remaining :: "('b, 'q) agent \<Rightarrow> nat" where
  "remaining s = (case ag_main s of Serving \<Rightarrow> 4 | AwaitStream \<Rightarrow> 3 | AwaitHeartbeat \<Rightarrow> 2 | AwaitCapture \<Rightarrow> 1 | _ \<Rightarrow> 0) +
     (if ag_stream_done s then 0 else 1) + (if ag_heartbeat_done s then 0 else 1)"

lemma remaining_le:
  assumes "agent_step js env ch s s'" shows "remaining s' \<le> remaining s"
  using assms by (cases rule: agent_step.cases) (auto simp: remaining_def clean_exit_def)

lemma remaining_less:
  assumes "ag_cancel s" and "ag_capture s = NoThread" and "ag_main s \<in> {AwaitStream, AwaitHeartbeat, AwaitCapture}"
  shows "\<exists>s'. agent_step js env ch s s' \<and> remaining s' < remaining s"
proof -
  consider "\<not> ag_stream_done s" | "\<not> ag_heartbeat_done s" | "ag_stream_done s" "ag_heartbeat_done s" by blast
  then show ?thesis
  proof cases
    case 1
    then show ?thesis
      using stream_cancelled [OF assms(1)] by (intro exI [of _ "s\<lparr>ag_stream_done := True\<rparr>"]) (auto simp: remaining_def)
  next
    case 2
    then show ?thesis
      using heartbeat_cancelled [OF assms(1)]
      by (intro exI [of _ "s\<lparr>ag_heartbeat_done := True\<rparr>"]) (auto simp: remaining_def)
  next
    case 3
    have "agent_step js env ch s (case ag_main s of AwaitStream \<Rightarrow> s\<lparr>ag_main := AwaitHeartbeat\<rparr>
        | AwaitHeartbeat \<Rightarrow> s\<lparr>ag_main := AwaitCapture\<rparr> | _ \<Rightarrow> clean_exit js True s)"
      using assms(2,3) 3 by (auto intro: agent_step.intros)
    with assms(3) show ?thesis by (fastforce simp: remaining_def clean_exit_def)
  qed
qed

lemma remaining_zero: "ag_cancel s \<Longrightarrow> cancel_inv s \<Longrightarrow> ag_main s \<in> {AwaitStream, AwaitHeartbeat, AwaitCapture, CleanExit}"
  by (cases "ag_main s") (auto simp: cancel_inv_def)

lemma main_start_Some:
  "main_start cfg new e disk = Some s \<Longrightarrow> s = agent_init cfg e (new (channel_capacity cfg)) disk"
  by (simp add: main_start_def split: if_splits)

text \<open>The file of the baseline, if there is one, holds its state.\<close>

definition baseline_saved :: "json_api \<Rightarrow> ('b, 'q) agent \<Rightarrow> bool" where
  "baseline_saved js s \<longleftrightarrow> (\<forall>path json. persist_path (e_baseline (p_engine (ag_pipe s))) = Some path \<longrightarrow>
     to_string_pretty js (bl_state (e_baseline (p_engine (ag_pipe s)))) = Some json \<longrightarrow> ag_disk s path = Some json)"

lemma clean_exit_saved: "baseline_saved js (clean_exit js True s)"
  by (simp add: baseline_saved_def clean_exit_def Baseline_persist_def)

lemma exit_saves:
  assumes "agent_step js env ch s s'" and "ag_main s \<noteq> CleanExit" and "ag_main s' = CleanExit"
  shows "\<exists>ok. ag_disk s' = Baseline_persist js ok (e_baseline (p_engine (ag_pipe s))) (ag_disk s)"
  using assms by (cases rule: agent_step.cases) (auto simp: clean_exit_def)

text \<open>A step towards the end; the last one saves.\<close>

lemma closer_step:
  assumes "ag_cancel s" and "ag_capture s = NoThread" and "ag_main s \<in> {AwaitStream, AwaitHeartbeat, AwaitCapture}"
  obtains s' where "agent_step js env ch s s'" and "remaining s' < remaining s"
    and "ag_main s' = CleanExit \<longrightarrow> baseline_saved js s'"
proof (cases "ag_main s = AwaitCapture")
  case True
  then have "agent_step js env ch s (clean_exit js True s)" by (rule no_capture [OF _ assms(2)])
  then show ?thesis by (rule that) (use True clean_exit_saved in \<open>auto simp: remaining_def clean_exit_def\<close>)
next
  case False
  obtain s' where s': "agent_step js env ch s s'" "remaining s' < remaining s" using remaining_less [OF assms] by blast
  have "ag_main s' \<noteq> CleanExit" using s'(1) False assms(3) by (cases rule: agent_step.cases) auto
  then show ?thesis by (intro that [OF s']) simp
qed

lemma test_send_exits:
  assumes "agent_reach js env ch (agent_init cfg e q disk) s" and "test_send cfg" and "ag_cancel s"
    and "ag_main s \<noteq> CleanExit"
  shows "\<exists>t. agent_reach js env ch s t \<and> ag_main t = CleanExit \<and> baseline_saved js t"
  using assms(1,3,4)
proof (induction "remaining s" arbitrary: s rule: less_induct)
  case less
  have inv: "cancel_inv s" "ag_capture s = NoThread"
    using cancel_inv_reach [OF less.prems(1)] assms(2) by auto
  have "ag_main s \<in> {AwaitStream, AwaitHeartbeat, AwaitCapture}"
    using remaining_zero [OF less.prems(2) inv(1)] less.prems(3) by blast
  then obtain s' where s': "agent_step js env ch s s'" "remaining s' < remaining s" "ag_main s' = CleanExit \<longrightarrow> baseline_saved js s'"
    by (rule closer_step [OF less.prems(2) inv(2)])
  show ?case
  proof (cases "ag_main s' = CleanExit")
    case True
    then show ?thesis using s' by blast
  next
    case False
    have "ag_cancel s'" using s'(1) less.prems(2) by (cases rule: agent_step.cases) (auto simp: clean_exit_def)
    with less.hyps [OF s'(2) rtranclp.rtrancl_into_rtrancl [OF less.prems(1) s'(1)] _ False] s'(1)
    show ?thesis by (auto intro: converse_rtranclp_into_rtranclp)
  qed
qed

section \<open>Runs of the pipeline as runs of the process\<close>

lemma closed_step: "pipe_step js env ch s t \<Longrightarrow> closed (p_ring s) \<Longrightarrow> closed (p_ring t)"
  by (cases rule: pipe_step.cases) (auto simp: RingBuffer_push_def RingBuffer_close_def Let_def dest: turn_closed)

text \<open>What the sweeper does to the engine does not depend on the files.\<close>

lemma sweeper_call_engine: "fst (sweeper_call js call (e, d)) = fst (sweeper_call js call (e, d'))"
  by (cases call) simp_all

definition streaming :: "('b, 'q) agent \<Rightarrow> ('b, 'q) pipe \<Rightarrow> bool" where
  "streaming a s \<longleftrightarrow> ag_pipe a = s \<and> ag_capture a = Capturing \<and> \<not> ag_stream_done a"

lemma pipe_step_in_process:
  assumes "pipe_step js env ch s t" and "\<not> closed (p_ring t)" and "streaming a s"
  shows "\<exists>b. agent_step js env ch a b \<and> streaming b t"
  using assms(1)
proof (cases rule: pipe_step.cases)
  case (capture p)
  then show ?thesis using assms(3) agent_step.captured [of a js env ch p] by (auto simp: streaming_def)
next
  case close
  then show ?thesis using assms(2) by (simp add: RingBuffer_close_def)
next
  case (sweep call d e d')
  then have "fst (sweeper_call js call (p_engine s, ag_disk a)) = e"
    using sweeper_call_engine [of js call "p_engine s" "ag_disk a" d] by simp
  then obtain d'' where "sweeper_call js call (p_engine (ag_pipe a), ag_disk a) = (e, d'')"
    using assms(3) by (metis prod.collapse streaming_def)
  from agent_step.sweeps [OF this, of env ch] show ?thesis using assms(3) sweep(1) by (auto simp: streaming_def)
next
  case (receive p q)
  then show ?thesis using assms(3) agent_step.received [of a ch p q js env] by (auto simp: streaming_def)
next
  case analyze
  then show ?thesis using assms(3) agent_step.analyzes [of a env ch t js] by (auto simp: streaming_def)
qed

lemma pipeline_in_process:
  assumes "pipe_reach js env ch s t" and "\<not> closed (p_ring t)"
    and "ag_pipe a = s" and "ag_capture a = Capturing" and "\<not> ag_stream_done a"
  obtains b where "agent_reach js env ch a b" and "ag_pipe b = t"
proof -
  have "streaming a s" using assms(3-5) by (simp add: streaming_def)
  with assms(1,2) have "\<exists>b. agent_reach js env ch a b \<and> streaming b t"
  proof (induction rule: pipe_reach.induct)
    case (pipe_refl s)
    then show ?case by blast
  next
    case (pipe_next s t u)
    then have "\<not> closed (p_ring t)" using closed_step by blast
    then obtain b where b: "agent_reach js env ch a b" "streaming b t" using pipe_next by blast
    from pipe_step_in_process [OF pipe_next.hyps(2) pipe_next.prems(1) b(2)] b(1) show ?case
      by (meson rtranclp.rtrancl_into_rtrancl)
  qed
  then show ?thesis using that by (auto simp: streaming_def)
qed

section \<open>Properties\<close>

text \<open>C13 (safety). While it captures, the agent cannot be shut down: \<open>main\<close> never comes to its clean
  end, where it would save the baseline, because it waits for the capture thread, which waits for
  the analyzer, which waits on a buffer that nobody closes.  (It can return early, when the handler
  of Ctrl-C cannot be installed.)  After Ctrl-C, from wherever the threads are, this deadlock can be
  reached, and nothing leads out of it.\<close>

theorem capture_shutdown_hangs:
  assumes "ac_ok (env_ac env)" and "chan_ok ch" and "fresh e" and "\<not> test_send cfg"
    and "queued ch (new_channel (channel_capacity cfg)) = []"
    and "main_start cfg new_channel e disk = Some s0" and "agent_reach js env ch s0 s"
  shows "ag_main s \<noteq> CleanExit \<and>
     (ag_cancel s \<longrightarrow> (\<exists>t. agent_reach js env ch s t \<and> hung t \<and> (\<forall>u. agent_reach js env ch t u \<longrightarrow> hung u)))"
proof -
  note init = main_start_Some [OF assms(6)]
  have mode: "capture_mode env (e_blacklist e) ch s"
    using capture_mode_reach [OF assms(1,2,7)] capture_mode_init [OF assms(4,3,5)] init by simp
  have inv: "cancel_inv s" using cancel_inv_reach [OF assms(7) [unfolded init]] by blast
  have "\<exists>t. agent_reach js env ch s t \<and> hung t \<and> (\<forall>u. agent_reach js env ch t u \<longrightarrow> hung u)" if "ag_cancel s"
    using capture_mode_hangs [OF assms(1,2) mode that, of js] hung_reach [of js env ch] remaining_zero [OF that inv] inv mode that
    by (auto simp: cancel_inv_def capture_mode_def)
  with mode show ?thesis by (simp add: capture_mode_def)
qed

text \<open>C36 (termination). With \<open>--test-send\<close> the shutdown works, as long as every wait for the service
  ends: after Ctrl-C, and until \<open>main\<close> has come to its clean end, that end can be reached with the
  baseline in its file (if it has one and can be encoded), and there is always a step that brings
  \<open>main\<close> closer; no step of any task moves it away; and \<open>main\<close> never comes to the clean end by a
  step that does not save the baseline there and then (the write itself may fail).\<close>

theorem test_send_shutdown:
  assumes "test_send cfg" and "main_start cfg new_channel e disk = Some s0"
    and "agent_reach js env ch s0 s" and "ag_cancel s"
  shows "(ag_main s \<noteq> CleanExit \<longrightarrow>
       (\<exists>t. agent_reach js env ch s t \<and> ag_main t = CleanExit \<and> baseline_saved js t) \<and>
       (\<exists>s'. agent_step js env ch s s' \<and> remaining s' < remaining s)) \<and>
     (\<forall>s'. agent_step js env ch s s' \<longrightarrow> remaining s' \<le> remaining s) \<and>
     (\<forall>s'. agent_step js env ch s s' \<longrightarrow> ag_main s \<noteq> CleanExit \<longrightarrow> ag_main s' = CleanExit \<longrightarrow>
       (\<exists>ok. ag_disk s' = Baseline_persist js ok (e_baseline (p_engine (ag_pipe s))) (ag_disk s)))"
proof -
  note reach = assms(3) [unfolded main_start_Some [OF assms(2)]]
  have inv: "cancel_inv s" "ag_capture s = NoThread" using cancel_inv_reach [OF reach] assms(1) by auto
  show ?thesis
    using test_send_exits [OF reach assms(1,4)] remaining_le [of js env ch s] exit_saves [of js env ch s]
      remaining_less [OF assms(4) inv(2), of js env ch] remaining_zero [OF assms(4) inv(1)] by blast
qed

text \<open>Which settings crash the agent: \<open>main\<close> panics at start-up exactly for a channel
  capacity of zero or beyond the maximum; the stream task, once the service has accepted the stream,
  exactly for a flush interval of zero or a batch size for which there is no memory; the heartbeat
  task exactly for a heartbeat interval of zero.  The command line accepts all of these.\<close>

theorem startup_panics:
  "(main_start cfg new_channel e disk = None \<longleftrightarrow> channel_capacity cfg = 0 \<or> MAX_PERMITS < channel_capacity cfg) \<and>
   (packet_stream_task alloc ev_size b (main_stream_cfg cfg i) (Inr ()) es c = None \<longleftrightarrow>
      grpc_flush_ms cfg = Some 0 \<or> \<not> allocates alloc ev_size (unwrap_or (grpc_batch_size cfg) 50)) \<and>
   (run_heartbeat_loop (main_heartbeat_cfg cfg i version host os) hs = None \<longleftrightarrow> heartbeat_interval_secs cfg = Some 0)"
  by (cases "grpc_flush_ms cfg"; cases "heartbeat_interval_secs cfg")
    (auto simp: main_start_def packet_stream_task_def run_heartbeat_loop_def main_stream_cfg_def
       main_heartbeat_cfg_def from_millis_def from_secs_def unat_eq_0)

section \<open>Instances\<close>

definition demo_config :: "bool \<Rightarrow> config" where
  "demo_config test =
     \<lparr>list_devices = False, cf_interface = None, bpf_filter = None, channel_capacity = 4, grpc_addr = None,
      grpc_batch_size = None, grpc_flush_ms = None, heartbeat_interval_secs = None, cf_agent_id = None,
      register_token = None, test_send = test, test_packets_per_tick = None, test_tick_ms = None,
      test_max_ticks = None\<rparr>"

lemma demo_config_sel: "test_send (demo_config test) = test" "channel_capacity (demo_config test) = 4"
  by (simp_all add: demo_config_def)

definition demo_agent :: "bool \<Rightarrow> (u8 set, raw_packet list) agent" where
  "demo_agent test = agent_init (demo_config test) demo_engine [] (\<lambda>_. None)"

lemma demo_start: "main_start (demo_config test) (\<lambda>_. []) demo_engine (\<lambda>_. None) = Some (demo_agent test)"
  by (simp add: main_start_def demo_agent_def demo_config_def MAX_PERMITS_def)

definition demo_interrupted :: "bool \<Rightarrow> (u8 set, raw_packet list) agent" where
  "demo_interrupted test = (demo_agent test)\<lparr>ag_main := AwaitStream, ag_cancel := True, ag_shutdown := True\<rparr>"

lemma demo_interrupted_reach: "agent_reach demo_json demo_env (list_chan 4) (demo_agent test) (demo_interrupted test)"
  unfolding demo_interrupted_def
  by (rule r_into_rtranclp, rule ctrl_c) (simp add: demo_agent_def agent_init_def)

theorem capture_shutdown_hangs_witness:
  "\<exists>t. agent_reach demo_json demo_env (list_chan 4) (demo_interrupted False) t \<and> hung t"
proof -
  have "ag_cancel (demo_interrupted False)" by (simp add: demo_interrupted_def)
  then show ?thesis
    using capture_shutdown_hangs [OF demo_env_ok list_chan_ok demo_fresh _ _ demo_start demo_interrupted_reach]
    by (auto simp: demo_config_sel list_chan_def)
qed

theorem test_send_shutdown_witness:
  "\<exists>t. agent_reach demo_json demo_env (list_chan 4) (demo_interrupted True) t \<and> ag_main t = CleanExit \<and>
     baseline_saved demo_json t"
proof -
  have "ag_cancel (demo_interrupted True)" "ag_main (demo_interrupted True) \<noteq> CleanExit"
    by (simp_all add: demo_interrupted_def)
  then show ?thesis
    using test_send_shutdown [OF _ demo_start demo_interrupted_reach] by (simp add: demo_config_sel)
qed

end
