(* ===== verification/Geo.thy ===== *)
theory Geo
  imports Engine
begin

text \<open>
  The country of an address, \<open>ids/geo.rs\<close>.  The MaxMind reader is a library: opening a database
  and looking up an address are the fields of \<open>mmdb_api\<close>.  The record it returns has an optional
  country with an optional ISO code.
\<close>

section \<open>Operations\<close>

record mmdb_country =
  iso_code :: "bytes option"

record mmdb_record =
  mm_country :: "mmdb_country option"

record ('m, 'e) mmdb_api =
  open_readfile :: "bytes \<Rightarrow> 'e + 'm"
  lookup :: "'m \<Rightarrow> ip_addr \<Rightarrow> 'e + mmdb_record"

record 'm geo =
  reader :: "'m option"

definition GeoDetector_new :: "'m geo" where
  "GeoDetector_new = \<lparr>reader = None\<rparr>"

definition GeoDetector_load :: "('m, 'e) mmdb_api \<Rightarrow> bytes \<Rightarrow> 'm geo \<Rightarrow> 'm geo" where
  "GeoDetector_load api path g =
     (case open_readfile api path of Inr r \<Rightarrow> g\<lparr>reader := Some r\<rparr> | Inl e \<Rightarrow> g)"

definition GeoDetector_is_loaded :: "'m geo \<Rightarrow> bool" where
  "GeoDetector_is_loaded g \<longleftrightarrow> reader g \<noteq> None"

definition GeoDetector_country_code :: "('m, 'e) mmdb_api \<Rightarrow> 'm geo \<Rightarrow> ip_addr \<Rightarrow> bytes option" where
  "GeoDetector_country_code api g ip = do {
     r \<leftarrow> reader g;
     rec \<leftarrow> (case lookup api r ip of Inr rec \<Rightarrow> Some rec | Inl e \<Rightarrow> None);
     country \<leftarrow> mm_country rec;
     iso_code country
   }"

text \<open>The detector that \<open>main\<close> makes, from the path in \<open>GEOIP_MMDB_PATH\<close>; and an engine that uses it.\<close>

definition main_geo :: "('m, 'e) mmdb_api \<Rightarrow> bytes option \<Rightarrow> 'm geo" where
  "main_geo api mmdb_path =
     (case mmdb_path of Some p \<Rightarrow> GeoDetector_load api p GeoDetector_new | None \<Rightarrow> GeoDetector_new)"

definition geo_env :: "('m, 'e) mmdb_api \<Rightarrow> 'm geo \<Rightarrow> 'b env \<Rightarrow> 'b env" where
  "geo_env api g env = env\<lparr>country_code := GeoDetector_country_code api g\<rparr>"

section \<open>An engine without countries\<close>

lemma first_reason_in: "first_reason F \<noteq> 0 \<Longrightarrow> first_reason F \<in> fst ` set F"
proof (cases "filter (\<lambda>(r, _). r \<noteq> 0) F")
  case (Cons x G)
  have "set (x # G) \<subseteq> set F" unfolding Cons [symmetric] by auto
  then have "fst x \<in> fst ` set F" by auto
  with Cons show ?thesis by (cases x) (simp add: first_reason_def)
qed (simp add: first_reason_def)

lemma country_code_unloaded: "\<not> GeoDetector_is_loaded g \<Longrightarrow> GeoDetector_country_code api g = (\<lambda>_. None)"
  by (simp add: GeoDetector_is_loaded_def GeoDetector_country_code_def fun_eq_iff)

lemma main_geo_unloaded:
  "(\<And>p. mmdb_path = Some p \<Longrightarrow> \<exists>err. open_readfile api p = Inl err) \<Longrightarrow> \<not> GeoDetector_is_loaded (main_geo api mmdb_path)"
  by (cases mmdb_path) (auto simp: main_geo_def GeoDetector_load_def GeoDetector_new_def GeoDetector_is_loaded_def)

text \<open>What an engine without countries does with a packet: it never gives the reason of the country
  check, and it learns no country.\<close>

lemma analyze_no_country:
  assumes "ac_ok (env_ac env)" and "e_payload e = PayloadScanner_new" and "country_code env = (\<lambda>_. None)"
    and "IdsEngine_analyze env clk pkt e = Some (r, e')"
  shows "flag_reason r \<noteq> 4 \<and> e_payload e' = PayloadScanner_new \<and>
     (Baseline_is_known_country c (e_baseline e') \<longleftrightarrow> Baseline_is_known_country c (e_baseline e))"
proof (cases "transport pkt")
  case None
  then show ?thesis using assms by (auto simp: IdsEngine_analyze_def)
next
  case (Some tm)
  note r = assms(4) [unfolded analyze_findings [OF assms(1,2) Some], simplified]
  have "4 \<notin> fst ` set (findings env clk pkt tm e)"
    by (auto simp: findings_defs blacklist_findings_def dns_findings_def geo_signal_def assms(3) split: option.splits)
  then have "first_reason (findings env clk pkt tm e) \<noteq> 4" using first_reason_in [of "findings env clk pkt tm e"] by auto
  moreover have "SeeCountry c \<notin> set (learn_events env pkt tm)" by (auto simp: learn_events_def assms(3))
  then have "Baseline_is_known_country c (update_baseline (env_lc env) tm (country_code env (src_ip tm)) (query_of pkt tm) (e_baseline e))
      \<longleftrightarrow> Baseline_is_known_country c (e_baseline e)"
    unfolding update_is_run [of env tm pkt "e_baseline e" undefined undefined] by (simp add: run_known)
  ultimately show ?thesis using r assms(2) by (auto simp: packet_result_def next_engine_def split: if_splits)
qed

lemma sweep_no_country:
  "Baseline_is_known_country c (e_baseline (fst (sweeper_tick js ok1 ok2 clk (e, d)))) \<longleftrightarrow> Baseline_is_known_country c (e_baseline e)"
  "e_payload (fst (sweeper_tick js ok1 ok2 clk (e, d))) = e_payload e"
  by (simp_all add: sweeper_tick_def Let_def split_beta tick_defs
      Baseline_is_known_country_def)

lemma run_no_country:
  assumes "ac_ok (env_ac env)" and "country_code env = (\<lambda>_. None)"
  shows "e_payload e = PayloadScanner_new \<Longrightarrow> engine_run js env es (e, d) = Some (rs, e', d') \<Longrightarrow>
     (\<forall>r \<in> set rs. flag_reason r \<noteq> 4) \<and>
     (Baseline_is_known_country c (e_baseline e') \<longleftrightarrow> Baseline_is_known_country c (e_baseline e))"
proof (induction es arbitrary: e d rs)
  case (Cons ev es)
  show ?case
  proof (cases ev)
    case (Analyze clk pkt)
    with Cons.prems(2) obtain r e1 rs1 where a: "IdsEngine_analyze env clk pkt e = Some (r, e1)"
      "engine_run js env es (e1, d) = Some (rs1, e', d')" "rs = r # rs1"
      by (auto simp: bind_eq_Some_conv)
    from analyze_no_country [OF assms(1) Cons.prems(1) assms(2) a(1), of c] Cons.IH [OF _ a(2)] a(3)
    show ?thesis by simp
  next
    case (SweepTick ok1 ok2 clk)
    obtain e1 d1 where t: "sweeper_tick js ok1 ok2 clk (e, d) = (e1, d1)" by force
    with sweep_no_country(1) [of c js ok1 ok2 clk e d] sweep_no_country(2) [of js ok1 ok2 clk e d] Cons SweepTick
    show ?thesis by simp
  qed
qed simp

section \<open>Properties\<close>

text \<open>A database that cannot be opened switches the country check off and does nothing
  else: the detector that \<open>main\<close> makes is not loaded, and in any run of packets and sweeps no
  analysis fails, none gives the reason of the country check, and no country is learned, whatever
  the reader would have answered.\<close>

theorem geo_failed_load:
  assumes "mmdb_path = None \<or> (\<exists>p err. mmdb_path = Some p \<and> open_readfile api p = Inl err)"
    and "ac_ok (env_ac env)" and "engine_inv e"
  shows "\<not> GeoDetector_is_loaded (main_geo api mmdb_path) \<and>
     (\<exists>rs e' d'. engine_run js (geo_env api (main_geo api mmdb_path) env) es (e, d) = Some (rs, e', d') \<and>
        (\<forall>r \<in> set rs. flag_reason r \<noteq> 4) \<and>
        (\<forall>c. Baseline_is_known_country c (e_baseline e') \<longleftrightarrow> Baseline_is_known_country c (e_baseline e)))"
proof -
  let ?env = "geo_env api (main_geo api mmdb_path) env"
  have un: "\<not> GeoDetector_is_loaded (main_geo api mmdb_path)" using assms(1) by (intro main_geo_unloaded) auto
  then have none: "country_code ?env = (\<lambda>_. None)" by (simp add: geo_env_def country_code_unloaded)
  have ac: "ac_ok (env_ac ?env)" using assms(2) by (simp add: geo_env_def)
  obtain rs e' d' where run: "engine_run js ?env es (e, d) = Some (rs, e', d')"
    using engine_run_total [OF ac assms(3)] by blast
  have "e_payload e = PayloadScanner_new" using assms(3) by (simp add: engine_inv_def)
  from run_no_country [OF ac none this run] un run show ?thesis by auto
qed

theorem geo_failed_load_witness:
  "\<exists>rs e' d'. engine_run demo_json
       (geo_env \<lparr>open_readfile = (\<lambda>_. Inl ()), lookup = (\<lambda>(_ :: unit) _. Inl ())\<rparr>
          (main_geo \<lparr>open_readfile = (\<lambda>_. Inl ()), lookup = (\<lambda>(_ :: unit) _. Inl ())\<rparr> (Some [])) demo_env)
       [Analyze demo_clock demo_packet] (demo_engine, \<lambda>_. None) = Some (rs, e', d') \<and> (\<forall>r \<in> set rs. flag_reason r \<noteq> 4)"
  using geo_failed_load [OF _ demo_env_ok demo_engine_inv, of "Some []"
      "\<lparr>open_readfile = (\<lambda>_. Inl ()), lookup = (\<lambda>(_ :: unit) _. Inl ())\<rparr>" demo_json "[Analyze demo_clock demo_packet]" "\<lambda>_. None"]
  by auto

end
