(* ===== verification/AgentIdentity.thy ===== *)
theory AgentIdentity
  imports RustStr
begin

text \<open>
  The identity of the agent, \<open>agent_identity.rs\<close>.  The home directory and the fresh UUID are
  inputs; the file system is a map from paths to contents, and whether creating the directory
  and writing the file succeed are inputs as well.  Paths are joined as on Unix.
\<close>

section \<open>Operations\<close>

type_synonym files = "bytes \<Rightarrow> bytes option"

definition identity_path :: "bytes option \<Rightarrow> bytes option" where
  "identity_path home_dir = map_option (\<lambda>home. home @ str ''/.monitor-agent'' @ str ''/agent_id'') home_dir"

definition resolve_identity ::
  "bytes option \<Rightarrow> bytes option \<Rightarrow> bytes \<Rightarrow> bool \<Rightarrow> bool \<Rightarrow> files \<Rightarrow> bytes \<times> files" where
  "resolve_identity cli_override home_dir uuid mkdir_ok write_ok fs =
     (case cli_override of
        Some i \<Rightarrow> (i, fs)
      | None \<Rightarrow>
          (case identity_path home_dir of
             None \<Rightarrow> (uuid, fs)
           | Some path \<Rightarrow>
               (case fs path of
                  Some existing \<Rightarrow>
                    if trim existing \<noteq> [] then (trim existing, fs)
                    else if \<not> mkdir_ok then (uuid, fs)
                    else if write_ok then (uuid, fs(path \<mapsto> uuid)) else (uuid, fs)
                | None \<Rightarrow>
                    if \<not> mkdir_ok then (uuid, fs)
                    else if write_ok then (uuid, fs(path \<mapsto> uuid)) else (uuid, fs))))"

section \<open>UUID texts\<close>

text \<open>The text of a UUID: lower-case hexadecimal digits and hyphens.\<close>

definition uuid_text :: "bytes \<Rightarrow> bool" where
  "uuid_text u \<longleftrightarrow> u \<noteq> [] \<and> (\<forall>b \<in> set u. b = 0x2D \<or> (0x30 \<le> b \<and> b \<le> 0x39) \<or> (0x61 \<le> b \<and> b \<le> 0x66))"

lemma uuid_far: "uuid_text u \<Longrightarrow> b < 0x2D \<or> 0x67 \<le> b \<Longrightarrow> b \<notin> set u"
  by (auto simp: uuid_text_def word_le_nat_alt word_less_nat_alt)

lemma trim_uuid:
  assumes "uuid_text u" shows "trim u = u"
proof -
  note far = uuid_far [OF assms]
  have "strip_pats white_space u = u" by (rule strip_pats_none) (simp add: white_space_def far)
  moreover have "strip_pats (map rev white_space) (rev u) = rev u"
    by (rule strip_pats_none) (simp add: white_space_def far)
  ultimately show ?thesis by (simp add: trim_def)
qed

section \<open>The file of the identity\<close>

text \<open>Once a start could write its file, the file gives the identity; nothing else matters.\<close>

lemma identity_kept:
  assumes "uuid_text uuid" and "resolve_identity None (Some home) uuid True True fs = (i, fs')"
    and "\<And>path. identity_path (Some home) = Some path \<Longrightarrow> fs'' path = fs' path"
  shows "resolve_identity None (Some home) uuid' mkdir_ok write_ok fs'' = (i, fs'')"
proof -
  define path where "path = home @ str ''/.monitor-agent'' @ str ''/agent_id''"
  have p: "identity_path (Some home) = Some path" by (simp add: identity_path_def path_def)
  note same = assms(3) [OF p]
  show ?thesis
  proof (cases "\<exists>c. fs path = Some c \<and> trim c \<noteq> []")
    case True
    with assms(2) same show ?thesis by (auto simp: resolve_identity_def p)
  next
    case False
    then have "i = uuid" "fs' = fs(path \<mapsto> uuid)"
      using assms(2) by (auto simp: resolve_identity_def p split: option.splits)
    moreover have "uuid \<noteq> []" using assms(1) by (simp add: uuid_text_def)
    ultimately show ?thesis using same by (simp add: resolve_identity_def p trim_uuid [OF assms(1)])
  qed
qed

section \<open>Properties\<close>

text \<open>The identity survives restarts: once a first start without \<open>--agent-id\<close> could
  write its file, every later start without it gets the same identity, whatever UUID it would
  generate and whether or not it could write, and leaves the file alone.\<close>

theorem identity_stable:
  assumes "uuid_text uuid"
    and "resolve_identity None (Some home) uuid True True fs = (i, fs')"
  shows "resolve_identity None (Some home) uuid' mkdir_ok write_ok fs' = (i, fs')"
  using identity_kept [OF assms] by simp

theorem identity_stable_witness:
  "resolve_identity None (Some (str ''/root'')) (str ''ffff'') False False
     (snd (resolve_identity None (Some (str ''/root'')) (str ''ab-12'') True True (\<lambda>_. None))) =
   resolve_identity None (Some (str ''/root'')) (str ''ab-12'') True True (\<lambda>_. None)"
proof -
  have "uuid_text (str ''ab-12'')" by (simp add: uuid_text_def str_def)
  from identity_stable [OF this, of "str ''/root''" "\<lambda>_. None"] show ?thesis by (metis prod.collapse)
qed

end
