(* ===== verification/Capture.thy ===== *)
theory Capture
  imports Packet RingBuffer
begin

unbundle bit_operations_syntax

text \<open>
  Packet capture, \<open>capture.rs\<close>: the header parsers, the choice of the device, and the loop
  that turns what pcap delivers into \<open>RawPacket\<close>s in the ring buffer.  The parsers are
  written with the panicking reads of the prelude, in the order of the source; a parser
  returns \<open>None\<close> for a panic and \<open>Some None\<close> for the source's \<open>None\<close>.  pcap itself is a
  parameter.
\<close>

section \<open>Header parsers\<close>

definition get_from :: "'a list \<Rightarrow> usize \<Rightarrow> 'a list option" where
  "get_from xs a = (if a \<le> length xs then Some (drop a xs) else None)"

type_synonym l4_fields =
  "u16 option \<times> u16 option \<times> u8 option \<times> u8 option \<times> u8 option \<times> usize"

definition parse_l4 :: "u8 \<Rightarrow> u8 \<Rightarrow> bytes \<Rightarrow> usize \<Rightarrow> l4_fields panics" where
  "parse_l4 icmp proto th off =
     (if proto = 6 \<and> 20 \<le> length th then do {
        t12 \<leftarrow> idx th 12;
        let data_off = unat (drop_bit 4 t12) * 4;
        t0 \<leftarrow> idx th 0; t1 \<leftarrow> idx th 1; t2 \<leftarrow> idx th 2; t3 \<leftarrow> idx th 3; t13 \<leftarrow> idx th 13;
        Some (Some (be16 t0 t1), Some (be16 t2 t3), Some t13, None, None, off + data_off)
      }
      else if proto = 17 \<and> 8 \<le> length th then do {
        t0 \<leftarrow> idx th 0; t1 \<leftarrow> idx th 1; t2 \<leftarrow> idx th 2; t3 \<leftarrow> idx th 3;
        Some (Some (be16 t0 t1), Some (be16 t2 t3), None, None, None, off + 8)
      }
      else if proto = icmp \<and> 4 \<le> length th then do {
        t0 \<leftarrow> idx th 0; t1 \<leftarrow> idx th 1;
        Some (None, None, None, Some t0, Some t1, off + 8)
      }
      else Some (None, None, None, None, None, off))"

definition parse_ipv4 ::
  "bytes \<Rightarrow> usize \<Rightarrow> bytes option \<Rightarrow> u16 option \<Rightarrow> transport_meta option panics" where
  "parse_ipv4 ip ip_offset mac vlan =
     (if length ip < 20 then Some None
      else do {
        b0 \<leftarrow> idx ip 0;
        let ihl = unat (b0 AND 0x0F) * 4;
        if ihl < 20 \<or> length ip < ihl then Some None
        else do {
          ttl' \<leftarrow> idx ip 8;
          proto \<leftarrow> idx ip 9;
          b6 \<leftarrow> idx ip 6; b7 \<leftarrow> idx ip 7;
          let flags_frag = be16 b6 b7;
          let flags = ucast (drop_bit 13 flags_frag AND 0x07);
          let frag_offset = (flags_frag AND 0x1FFF) * 8;
          s0 \<leftarrow> idx ip 12; s1 \<leftarrow> idx ip 13; s2 \<leftarrow> idx ip 14; s3 \<leftarrow> idx ip 15;
          d0 \<leftarrow> idx ip 16; d1 \<leftarrow> idx ip 17; d2 \<leftarrow> idx ip 18; d3 \<leftarrow> idx ip 19;
          (case get_from ip ihl of
             None \<Rightarrow> Some None
           | Some th \<Rightarrow> do {
               let off = ip_offset + ihl;
               (sp, dp, fl, ity, ico, app_off) \<leftarrow> parse_l4 1 proto th off;
               Some (Some \<lparr>src_ip = V4 s0 s1 s2 s3, dst_ip = V4 d0 d1 d2 d3,
                 src_port = sp, dst_port = dp, protocol = proto, tcp_flags = fl, ttl = ttl',
                 ip_flags = flags, ip_frag_offset = frag_offset,
                 icmp_type = ity, icmp_code = ico, eth_src_mac = mac, vlan_id = vlan,
                 payload_offset = app_off\<rparr>)
             })
        }
      })"

text \<open>\<open><[u8; 16]>::try_from\<close> of a slice.\<close>

definition try_array :: "nat \<Rightarrow> bytes \<Rightarrow> bytes option" where
  "try_array n xs = (if length xs = n then Some xs else None)"

definition parse_ipv6 ::
  "bytes \<Rightarrow> usize \<Rightarrow> bytes option \<Rightarrow> u16 option \<Rightarrow> transport_meta option panics" where
  "parse_ipv6 ip ip_offset mac vlan =
     (if length ip < 40 then Some None
      else do {
        proto \<leftarrow> idx ip 6;
        hop \<leftarrow> idx ip 7;
        s \<leftarrow> slice ip 8 24;
        (case try_array 16 s of None \<Rightarrow> Some None | Some src \<Rightarrow> do {
          d \<leftarrow> slice ip 24 40;
          (case try_array 16 d of None \<Rightarrow> Some None | Some dst \<Rightarrow>
            (case get_from ip 40 of
               None \<Rightarrow> Some None
             | Some th \<Rightarrow> do {
                 let off = ip_offset + 40;
                 (sp, dp, fl, ity, ico, app_off) \<leftarrow> parse_l4 58 proto th off;
                 Some (Some \<lparr>src_ip = V6 src, dst_ip = V6 dst,
                   src_port = sp, dst_port = dp, protocol = proto, tcp_flags = fl, ttl = hop,
                   ip_flags = 0, ip_frag_offset = 0,
                   icmp_type = ity, icmp_code = ico, eth_src_mac = mac, vlan_id = vlan,
                   payload_offset = app_off\<rparr>)
               }))
        })
      })"

text \<open>The link layer: the offset of the IP header, the source MAC and the VLAN of a frame.\<close>

definition parse_link ::
  "bytes \<Rightarrow> link_type \<Rightarrow> (usize \<times> bytes option \<times> u16 option) option panics" where
  "parse_link data lt =
     (case lt of
        Ethernet \<Rightarrow>
          (if length data < 14 then Some None
           else do {
             m \<leftarrow> slice data 6 12;
             let mac = try_array 6 m;
             let offset = 12;
             e0 \<leftarrow> idx data offset; e1 \<leftarrow> idx data (offset + 1);
             let etype = be16 e0 e1;
             let offset = offset + 2;
             (vlan, etype, offset) \<leftarrow>
               (if etype = 0x8100 \<and> offset + 4 < length data then do {
                  t0 \<leftarrow> idx data offset; t1 \<leftarrow> idx data (offset + 1);
                  let tci = be16 t0 t1;
                  let offset = offset + 2;
                  e0 \<leftarrow> idx data offset; e1 \<leftarrow> idx data (offset + 1);
                  Some (Some (tci AND 0x0FFF), be16 e0 e1, offset + 2)
                }
                else Some (None, etype, offset));
             if etype \<noteq> 0x0800 \<and> etype \<noteq> 0x86DD then Some None
             else Some (Some (offset, mac, vlan))
           })
      | Loopback \<Rightarrow> Some (Some (4, None, None))
      | RawIp \<Rightarrow> Some (Some (0, None, None))
      | Unknown _ \<Rightarrow> Some None)"

definition parse_transport :: "bytes \<Rightarrow> link_type \<Rightarrow> transport_meta option panics" where
  "parse_transport data lt = do {
     l \<leftarrow> parse_link data lt;
     (case l of None \<Rightarrow> Some None | Some (ip_offset, mac, vlan) \<Rightarrow>
       (case get_from data ip_offset of None \<Rightarrow> Some None | Some ip \<Rightarrow>
         (case ip of [] \<Rightarrow> Some None | first # _ \<Rightarrow>
            let version = drop_bit 4 first AND 0x0F in
            if version = 4 then parse_ipv4 ip ip_offset mac vlan
            else if version = 6 then parse_ipv6 ip ip_offset mac vlan
            else Some None)))
   }"

definition pcap_linktype_to_enum :: "int \<Rightarrow> link_type" where
  "pcap_linktype_to_enum n =
     (if n = 1 then Ethernet else if n = 12 then RawIp else if n = 0 then Loopback
      else Unknown (word_of_int n))"

section \<open>No parser panics\<close>

text \<open>The parsers without the checks: every read is in bounds, so each parser equals the
  pure reading of its input.\<close>

definition l4_of :: "u8 \<Rightarrow> u8 \<Rightarrow> bytes \<Rightarrow> usize \<Rightarrow> l4_fields" where
  "l4_of icmp proto th off =
     (if proto = 6 \<and> 20 \<le> length th then
        (Some (be16 (th ! 0) (th ! 1)), Some (be16 (th ! 2) (th ! 3)), Some (th ! 13), None, None,
         off + unat (drop_bit 4 (th ! 12)) * 4)
      else if proto = 17 \<and> 8 \<le> length th then
        (Some (be16 (th ! 0) (th ! 1)), Some (be16 (th ! 2) (th ! 3)), None, None, None, off + 8)
      else if proto = icmp \<and> 4 \<le> length th then
        (None, None, None, Some (th ! 0), Some (th ! 1), off + 8)
      else (None, None, None, None, None, off))"

lemma parse_l4_value: "parse_l4 icmp proto th off = Some (l4_of icmp proto th off)"
  unfolding parse_l4_def l4_of_def idx_def Let_def by auto

definition meta_of ::
  "ip_addr \<Rightarrow> ip_addr \<Rightarrow> u8 \<Rightarrow> u8 \<Rightarrow> u16 \<Rightarrow> l4_fields \<Rightarrow> bytes option \<Rightarrow> u16 option \<Rightarrow> transport_meta" where
  "meta_of src dst proto hop ff f mac vlan =
     (case f of (sp, dp, fl, ity, ico, app) \<Rightarrow>
        \<lparr>src_ip = src, dst_ip = dst, src_port = sp, dst_port = dp, protocol = proto, tcp_flags = fl,
         ttl = hop, ip_flags = ucast (drop_bit 13 ff AND 0x07), ip_frag_offset = (ff AND 0x1FFF) * 8,
         icmp_type = ity, icmp_code = ico, eth_src_mac = mac, vlan_id = vlan, payload_offset = app\<rparr>)"

lemma meta_of_link [simp]:
  "vlan_id (meta_of src dst proto hop ff f mac vlan) = vlan"
  "eth_src_mac (meta_of src dst proto hop ff f mac vlan) = mac"
  by (simp_all add: meta_of_def split: prod.split)

definition ihl_of :: "bytes \<Rightarrow> nat" where
  "ihl_of ip = unat (ip ! 0 AND 0x0F) * 4"

lemma parse_ipv4_value:
  "parse_ipv4 ip off mac vlan = Some
     (if length ip < 20 \<or> ihl_of ip < 20 \<or> length ip < ihl_of ip then None
      else Some (meta_of (V4 (ip ! 12) (ip ! 13) (ip ! 14) (ip ! 15))
                   (V4 (ip ! 16) (ip ! 17) (ip ! 18) (ip ! 19)) (ip ! 9) (ip ! 8)
                   (be16 (ip ! 6) (ip ! 7))
                   (l4_of 1 (ip ! 9) (drop (ihl_of ip) ip) (off + ihl_of ip)) mac vlan))"
  by (auto simp: parse_ipv4_def ihl_of_def idx_def get_from_def parse_l4_value meta_of_def Let_def
           split: prod.split)

lemma parse_ipv6_value:
  "parse_ipv6 ip off mac vlan = Some
     (if length ip < 40 then None
      else Some (meta_of (V6 (take 16 (drop 8 ip))) (V6 (take 16 (drop 24 ip))) (ip ! 6) (ip ! 7) 0
                   (l4_of 58 (ip ! 6) (drop 40 ip) (off + 40)) mac vlan))"
  by (auto simp: parse_ipv6_def idx_def slice_def try_array_def get_from_def parse_l4_value
           meta_of_def split: prod.split)

lemma parse_link_total: "\<exists>l. parse_link data lt = Some l"
  by (auto simp: parse_link_def panic_free Let_def split: link_type.split)

lemma parse_transport_total: "\<exists>m. parse_transport data lt = Some m"
proof -
  obtain l where "parse_link data lt = Some l" using parse_link_total by blast
  then show ?thesis
    by (auto simp: parse_transport_def parse_ipv4_value parse_ipv6_value Let_def
             split: option.split list.split)
qed

section \<open>What a parse result satisfies\<close>

lemma nibble_le: "unat (drop_bit 4 (b :: u8)) \<le> 15"
proof -
  have "unat (drop_bit 4 b) = unat b div 2 ^ 4" by (subst unat_drop_bit_eq) (rule drop_bit_eq_div)
  moreover have "unat b < 2 ^ 8" using unsigned_less [of b] by simp
  ultimately show ?thesis by simp
qed

lemma ihl_le: "ihl_of ip \<le> 60"
proof -
  have "ip ! 0 AND 0x0F \<le> 0x0F" by (rule word_and_le1)
  then show ?thesis by (simp add: ihl_of_def word_le_nat_alt)
qed

lemma frag_scaled:
  fixes w :: u16
  shows "unat ((w AND 0x1FFF) * 8) = unat (w AND 0x1FFF) * 8 \<and> unat (w AND 0x1FFF) \<le> 8191"
proof -
  have "w AND 0x1FFF \<le> 0x1FFF" by (rule word_and_le1)
  then have le: "unat (w AND 0x1FFF) \<le> 8191" by (simp add: word_le_nat_alt)
  then have "unat (w AND 0x1FFF) * unat (8 :: u16) < 2 ^ LENGTH(16)" by simp
  then have "unat ((w AND 0x1FFF) * 8) = unat (w AND 0x1FFF) * unat (8 :: u16)"
    by (rule unat_mult_lem [THEN iffD1])
  with le show ?thesis by simp
qed

lemma ip_flags_le: "(ucast (w AND 7 :: u16) :: u8) \<le> 7"
proof -
  have "w AND 7 \<le> 7" by (rule word_and_le1)
  then have "unat (w AND 7) \<le> 7" by (simp add: word_le_nat_alt)
  then show ?thesis by (simp add: word_le_nat_alt unsigned_ucast_eq take_bit_nat_eq_self)
qed

text \<open>\<open>meta_ok n m\<close>: the parts of \<open>m\<close> fit together, for an IP header that starts at \<open>n\<close>.\<close>

definition meta_ok :: "usize \<Rightarrow> transport_meta \<Rightarrow> bool" where
  "meta_ok n m \<longleftrightarrow>
     (src_port m = None \<longleftrightarrow> dst_port m = None) \<and>
     (src_port m \<noteq> None \<longrightarrow> protocol m = 6 \<or> protocol m = 17) \<and>
     (tcp_flags m \<noteq> None \<longleftrightarrow> protocol m = 6 \<and> src_port m \<noteq> None) \<and>
     (icmp_type m = None \<longleftrightarrow> icmp_code m = None) \<and>
     (icmp_type m \<noteq> None \<longrightarrow> protocol m = 1 \<or> protocol m = 58) \<and>
     ip_flags m \<le> 7 \<and> unat (ip_frag_offset m) \<le> 65528 \<and> unat (ip_frag_offset m) mod 8 = 0 \<and>
     n + 20 \<le> payload_offset m \<and> payload_offset m \<le> n + 120"

lemma meta_of_ok:
  assumes "icmp = 1 \<or> icmp = 58" and "n + 20 \<le> off" and "off \<le> n + 60"
  shows "meta_ok n (meta_of src dst proto hop ff (l4_of icmp proto th off) mac vlan)"
  using assms nibble_le [of "th ! 12"] frag_scaled [of ff] ip_flags_le
  by (auto simp: meta_ok_def meta_of_def l4_of_def)

definition link_ok :: "link_type \<Rightarrow> usize \<Rightarrow> bytes option \<Rightarrow> u16 option \<Rightarrow> bool" where
  "link_ok lt n mac vlan \<longleftrightarrow>
     n \<le> 18 \<and>
     (\<forall>v. vlan = Some v \<longrightarrow> lt = Ethernet \<and> v \<le> 4095) \<and>
     (mac \<noteq> None \<longleftrightarrow> lt = Ethernet) \<and> (\<forall>a. mac = Some a \<longrightarrow> length a = 6)"

lemma parse_link_ok:
  assumes "parse_link data lt = Some (Some (n, mac, vlan))"
  shows "link_ok lt n mac vlan"
proof (cases lt)
  case Ethernet
  have le: "x AND 0x0FFF \<le> 0x0FFF" for x :: u16 by (rule word_and_le1)
  show ?thesis
    using assms Ethernet le
    by (auto simp: parse_link_def link_ok_def idx_def slice_def try_array_def Let_def split: if_splits)
qed (use assms in \<open>auto simp: parse_link_def link_ok_def\<close>)

lemma parse_transport_cases:
  assumes "parse_transport data lt = Some (Some m)"
  obtains n mac vlan where "parse_link data lt = Some (Some (n, mac, vlan))" and "n < length data"
    and "parse_ipv4 (drop n data) n mac vlan = Some (Some m) \<or>
         parse_ipv6 (drop n data) n mac vlan = Some (Some m)"
proof -
  obtain l where l: "parse_link data lt = Some l" using parse_link_total by blast
  with assms obtain n mac vlan where l': "l = Some (n, mac, vlan)"
    by (auto simp: parse_transport_def split: option.splits)
  with assms l have n: "n \<le> length data" "drop n data \<noteq> []"
    by (auto simp: parse_transport_def get_from_def split: option.splits list.splits if_splits)
  have "parse_ipv4 (drop n data) n mac vlan = Some (Some m) \<or>
         parse_ipv6 (drop n data) n mac vlan = Some (Some m)"
    using assms l l' n
    by (auto simp: parse_transport_def get_from_def Let_def split: list.splits if_splits)
  with that l l' n show ?thesis by auto
qed

lemma parse_ipv4_meta_ok:
  assumes "parse_ipv4 ip n mac vlan = Some (Some m)"
  shows "meta_ok n m \<and> vlan_id m = vlan \<and> eth_src_mac m = mac"
proof -
  have "20 \<le> ihl_of ip" and m: "m = meta_of (V4 (ip ! 12) (ip ! 13) (ip ! 14) (ip ! 15))
      (V4 (ip ! 16) (ip ! 17) (ip ! 18) (ip ! 19)) (ip ! 9) (ip ! 8) (be16 (ip ! 6) (ip ! 7))
      (l4_of 1 (ip ! 9) (drop (ihl_of ip) ip) (n + ihl_of ip)) mac vlan"
    using assms by (auto simp: parse_ipv4_value split: if_splits)
  then show ?thesis
    using meta_of_ok [of 1 n "n + ihl_of ip"] ihl_le [of ip] by simp
qed

lemma parse_ipv6_meta_ok:
  assumes "parse_ipv6 ip n mac vlan = Some (Some m)"
  shows "meta_ok n m \<and> vlan_id m = vlan \<and> eth_src_mac m = mac"
proof -
  have "m = meta_of (V6 (take 16 (drop 8 ip))) (V6 (take 16 (drop 24 ip))) (ip ! 6) (ip ! 7) 0
                   (l4_of 58 (ip ! 6) (drop 40 ip) (n + 40)) mac vlan"
    using assms by (auto simp: parse_ipv6_value split: if_splits)
  then show ?thesis
    using meta_of_ok [of 58 n "n + 40"] by simp
qed

section \<open>Frames and their parse\<close>

text \<open>Descriptions of well-formed packets and the bytes they are sent as: the wire formats of
  Ethernet with an optional 802.1Q tag, IPv4 with options, IPv6, TCP, UDP and ICMP.\<close>

datatype l4_desc =
  Tcp u16 u16 bytes nat u8 bytes
| Udp u16 u16 bytes
| Icmp u8 u8 bytes
| OtherL4 u8 bytes

fun l4_wf :: "u8 \<Rightarrow> l4_desc \<Rightarrow> bool" where
  "l4_wf icmp (Tcp sp dp seq_ack off fl rest) \<longleftrightarrow> length seq_ack = 8 \<and> off < 16 \<and> 6 \<le> length rest"
| "l4_wf icmp (Udp sp dp rest) \<longleftrightarrow> 4 \<le> length rest"
| "l4_wf icmp (Icmp ty code rest) \<longleftrightarrow> 2 \<le> length rest"
| "l4_wf icmp (OtherL4 p rest) \<longleftrightarrow> p \<noteq> 6 \<and> p \<noteq> 17 \<and> p \<noteq> icmp"

fun l4_bytes :: "l4_desc \<Rightarrow> bytes" where
  "l4_bytes (Tcp sp dp seq_ack off fl rest) =
     [hi8 sp, lo8 sp, hi8 dp, lo8 dp] @ seq_ack @ [push_bit 4 (of_nat off), fl] @ rest"
| "l4_bytes (Udp sp dp rest) = [hi8 sp, lo8 sp, hi8 dp, lo8 dp] @ rest"
| "l4_bytes (Icmp ty code rest) = [ty, code] @ rest"
| "l4_bytes (OtherL4 p rest) = rest"

fun l4_proto :: "u8 \<Rightarrow> l4_desc \<Rightarrow> u8" where
  "l4_proto icmp (Tcp _ _ _ _ _ _) = 6"
| "l4_proto icmp (Udp _ _ _) = 17"
| "l4_proto icmp (Icmp _ _ _) = icmp"
| "l4_proto icmp (OtherL4 p _) = p"

fun l4_expected :: "l4_desc \<Rightarrow> usize \<Rightarrow> l4_fields" where
  "l4_expected (Tcp sp dp seq_ack doff fl rest) off = (Some sp, Some dp, Some fl, None, None, off + doff * 4)"
| "l4_expected (Udp sp dp rest) off = (Some sp, Some dp, None, None, None, off + 8)"
| "l4_expected (Icmp ty code rest) off = (None, None, None, Some ty, Some code, off + 8)"
| "l4_expected (OtherL4 p rest) off = (None, None, None, None, None, off)"

lemma nibble_roundtrip: "n < 16 \<Longrightarrow> unat (drop_bit 4 (push_bit 4 (of_nat n) :: u8)) = n"
proof -
  assume "n < 16"
  then have "n \<in> set [0..<16]" by simp
  then show ?thesis by (auto simp: upt_rec)
qed

lemma l4_of_bytes:
  assumes "l4_wf icmp l" and "icmp \<noteq> 6" and "icmp \<noteq> 17"
  shows "l4_of icmp (l4_proto icmp l) (l4_bytes l) off = l4_expected l off"
  using assms nibble_roundtrip by (cases l) (auto simp: l4_of_def nth_append)

record ip4_hdr =
  h4_ihl :: nat
  h4_tos :: u8
  h4_len_id :: bytes
  h4_ff :: u16
  h4_ttl :: u8
  h4_sum :: bytes
  h4_src :: bytes
  h4_dst :: bytes
  h4_opts :: bytes

record ip6_hdr =
  h6_class :: nat
  h6_flow_len :: bytes
  h6_hop :: u8
  h6_src :: bytes
  h6_dst :: bytes

datatype ip_desc = Ip4 ip4_hdr l4_desc | Ip6 ip6_hdr l4_desc

fun ip_wf :: "ip_desc \<Rightarrow> bool" where
  "ip_wf (Ip4 h l) \<longleftrightarrow> 5 \<le> h4_ihl h \<and> h4_ihl h \<le> 15 \<and> length (h4_len_id h) = 4 \<and> length (h4_sum h) = 2 \<and>
     length (h4_src h) = 4 \<and> length (h4_dst h) = 4 \<and> length (h4_opts h) = 4 * (h4_ihl h - 5) \<and> l4_wf 1 l"
| "ip_wf (Ip6 h l) \<longleftrightarrow> h6_class h < 16 \<and> length (h6_flow_len h) = 5 \<and>
     length (h6_src h) = 16 \<and> length (h6_dst h) = 16 \<and> l4_wf 58 l"

fun ip_bytes :: "ip_desc \<Rightarrow> bytes" where
  "ip_bytes (Ip4 h l) =
     [0x40 OR of_nat (h4_ihl h), h4_tos h] @ h4_len_id h @
     [hi8 (h4_ff h), lo8 (h4_ff h), h4_ttl h, l4_proto 1 l] @ h4_sum h @
     h4_src h @ h4_dst h @ h4_opts h @ l4_bytes l"
| "ip_bytes (Ip6 h l) =
     [0x60 OR of_nat (h6_class h)] @ h6_flow_len h @ [l4_proto 58 l, h6_hop h] @
     h6_src h @ h6_dst h @ l4_bytes l"

fun v4_of :: "bytes \<Rightarrow> ip_addr" where
  "v4_of bs = V4 (bs ! 0) (bs ! 1) (bs ! 2) (bs ! 3)"

fun ip_expected :: "ip_desc \<Rightarrow> usize \<Rightarrow> bytes option \<Rightarrow> u16 option \<Rightarrow> transport_meta" where
  "ip_expected (Ip4 h l) off mac vlan =
     meta_of (v4_of (h4_src h)) (v4_of (h4_dst h)) (l4_proto 1 l) (h4_ttl h) (h4_ff h)
       (l4_expected l (off + 4 * h4_ihl h)) mac vlan"
| "ip_expected (Ip6 h l) off mac vlan =
     meta_of (V6 (h6_src h)) (V6 (h6_dst h)) (l4_proto 58 l) (h6_hop h) 0
       (l4_expected l (off + 40)) mac vlan"

fun ip_etype :: "ip_desc \<Rightarrow> u16" where
  "ip_etype (Ip4 _ _) = 0x0800"
| "ip_etype (Ip6 _ _) = 0x86DD"

definition eth_frame :: "bytes \<Rightarrow> bytes \<Rightarrow> u16 option \<Rightarrow> ip_desc \<Rightarrow> bytes" where
  "eth_frame dst src tci p =
     dst @ src @ (case tci of None \<Rightarrow> [] | Some t \<Rightarrow> [0x81, 0x00, hi8 t, lo8 t]) @
     [hi8 (ip_etype p), lo8 (ip_etype p)] @ ip_bytes p"

lemma first_byte:
  assumes "n < 16"
  shows "unat ((0x40 OR of_nat n :: u8) AND 0x0F) = n" "drop_bit 4 (0x40 OR of_nat n :: u8) AND 0x0F = 4"
    "drop_bit 4 (0x60 OR of_nat n :: u8) AND 0x0F = 6"
proof -
  have "n \<in> set [0..<16]" using assms by simp
  then show "unat ((0x40 OR of_nat n :: u8) AND 0x0F) = n" "drop_bit 4 (0x40 OR of_nat n :: u8) AND 0x0F = 4"
    "drop_bit 4 (0x60 OR of_nat n :: u8) AND 0x0F = 6"
    by (auto simp: upt_rec)
qed

lemma parse_ipv4_bytes:
  assumes "ip_wf (Ip4 h l)"
  shows "parse_ipv4 (ip_bytes (Ip4 h l)) off mac vlan = Some (Some (ip_expected (Ip4 h l) off mac vlan))"
proof -
  let ?ip = "ip_bytes (Ip4 h l)"
  have ihl: "ihl_of ?ip = 4 * h4_ihl h"
    using assms first_byte(1) [of "h4_ihl h"] by (simp add: ihl_of_def)
  have rest: "drop (4 * h4_ihl h) ?ip = l4_bytes l" "4 * h4_ihl h \<le> length ?ip"
    using assms by (auto simp: drop_append drop_Cons')
  have "map (nth ?ip) [6,7,8,9,12,13,14,15,16,17,18,19] =
      [hi8 (h4_ff h), lo8 (h4_ff h), h4_ttl h, l4_proto 1 l,
       h4_src h ! 0, h4_src h ! 1, h4_src h ! 2, h4_src h ! 3,
       h4_dst h ! 0, h4_dst h ! 1, h4_dst h ! 2, h4_dst h ! 3]"
    using assms by (simp add: nth_append)
  then show ?thesis
    using assms rest l4_of_bytes [of 1 l]
    by (simp add: parse_ipv4_value ihl del: ip_bytes.simps)
qed

lemma parse_ipv6_bytes:
  assumes "ip_wf (Ip6 h l)"
  shows "parse_ipv6 (ip_bytes (Ip6 h l)) off mac vlan = Some (Some (ip_expected (Ip6 h l) off mac vlan))"
proof -
  let ?ip = "ip_bytes (Ip6 h l)"
  have "take 16 (drop 8 ?ip) = h6_src h" "take 16 (drop 24 ?ip) = h6_dst h"
    "drop 40 ?ip = l4_bytes l" "40 \<le> length ?ip" "?ip ! 6 = l4_proto 58 l" "?ip ! 7 = h6_hop h"
    using assms by (simp_all add: nth_append drop_Cons')
  then show ?thesis
    using assms l4_of_bytes [of 58 l] by (simp add: parse_ipv6_value del: ip_bytes.simps)
qed

lemma parse_link_frame:
  assumes "length dst = 6" and "length src = 6"
  shows "parse_link (eth_frame dst src tci p) Ethernet =
     Some (Some (if tci = None then 14 else 18, Some src, map_option (\<lambda>t. t AND 0x0FFF) tci))"
proof -
  have "be16 0x81 0 = (0x8100 :: u16)" "ip_etype p \<noteq> 0x8100" "ip_etype p = 0x0800 \<or> ip_etype p = 0x86DD"
    "ip_bytes p \<noteq> []"
    by (cases p; simp add: be16_def)+
  then show ?thesis
    using assms
    by (cases tci) (simp_all add: parse_link_def eth_frame_def idx_def slice_def try_array_def
                      nth_append Let_def)
qed

lemma parse_eth_frame:
  assumes "length dst = 6" and "length src = 6" and "ip_wf p"
  shows "parse_transport (eth_frame dst src tci p) Ethernet =
     Some (Some (ip_expected p (if tci = None then 14 else 18) (Some src)
       (map_option (\<lambda>t. t AND 0x0FFF) tci)))"
proof -
  have drop: "get_from (eth_frame dst src tci p) (if tci = None then 14 else 18) = Some (ip_bytes p)"
    using assms by (cases tci) (simp_all add: get_from_def eth_frame_def)
  obtain b bs where b: "ip_bytes p = b # bs" by (cases p) auto
  have step: "parse_transport (eth_frame dst src tci p) Ethernet =
      (let n = (if tci = None then 14 else 18); vlan = map_option (\<lambda>t. t AND 0x0FFF) tci in
       if drop_bit 4 b AND 0x0F = 4 then parse_ipv4 (ip_bytes p) n (Some src) vlan
       else if drop_bit 4 b AND 0x0F = 6 then parse_ipv6 (ip_bytes p) n (Some src) vlan
       else Some None)"
    using drop parse_link_frame [OF assms(1,2), of tci p]
    by (simp add: parse_transport_def b Let_def)
  show ?thesis
  proof (cases p)
    case (Ip4 h l)
    then have "drop_bit 4 b AND 0x0F = 4"
      using assms(3) b first_byte(2) [of "h4_ihl h"] by auto
    then show ?thesis
      using step parse_ipv4_bytes [of h l] assms(3) Ip4 by (simp only: Let_def if_True simp_thms)
  next
    case (Ip6 h l)
    then have "drop_bit 4 b AND 0x0F = 6"
      using assms(3) b first_byte(3) [of "h6_class h"] by auto
    moreover have "(6 :: u8) \<noteq> 4" by simp
    ultimately show ?thesis
      using step parse_ipv6_bytes [of h l] assms(3) Ip6 by (simp only: Let_def if_True if_False simp_thms)
  qed
qed

section \<open>Opening the device and the capture loop\<close>

text \<open>\<open>CaptureError\<close>; the pcap errors it carries are a parameter type.\<close>

datatype 'pe capture_error =
  DeviceList 'pe | InterfaceNotFound bytes | NoDefaultDevice | DeviceOpen 'pe
| Activate 'pe | FilterCompile 'pe | CaptureFailed 'pe

text \<open>What \<open>next_packet\<close> can give.\<close>

record pcap_header =
  tv_sec :: int
  tv_usec :: int
  hdr_caplen :: u32
  hdr_len :: u32

datatype 'pe poll = Packet pcap_header bytes | TimeoutExpired | NoMorePackets | PollError 'pe

text \<open>The pcap calls made before the loop: the device list, the default device, opening a
  device, activating it (which tells the data-link code) and setting a filter.\<close>

record 'pe pcap_api =
  device_list :: "'pe + bytes list"
  device_lookup :: "'pe + bytes option"
  from_device :: "bytes \<Rightarrow> 'pe + unit"
  open_capture :: "bytes \<Rightarrow> 'pe + int"
  set_filter :: "bytes \<Rightarrow> 'pe + unit"

definition map_err :: "('e \<Rightarrow> 'f) \<Rightarrow> 'e + 'a \<Rightarrow> 'f + 'a" where
  "map_err f r = (case r of Inl e \<Rightarrow> Inl (f e) | Inr x \<Rightarrow> Inr x)"

definition and_then :: "'e + 'a \<Rightarrow> ('a \<Rightarrow> 'e + 'b) \<Rightarrow> 'e + 'b" where
  "and_then r k = (case r of Inl e \<Rightarrow> Inl e | Inr x \<Rightarrow> k x)"

definition resolve_device :: "'pe pcap_api \<Rightarrow> bytes option \<Rightarrow> 'pe capture_error + bytes" where
  "resolve_device api ifc =
     (case ifc of
        Some name \<Rightarrow>
          and_then (map_err DeviceList (device_list api)) (\<lambda>devices.
            case find (\<lambda>d. d = name) devices of
              Some d \<Rightarrow> Inr d
            | None \<Rightarrow> Inl (InterfaceNotFound name))
      | None \<Rightarrow>
          and_then (map_err DeviceList (device_lookup api)) (\<lambda>d.
            case d of Some d \<Rightarrow> Inr d | None \<Rightarrow> Inl NoDefaultDevice))"

text \<open>\<open>UNIX_EPOCH + Duration::new(secs, micros * 1000)\<close>: the product wraps at 32 bits (release
  profile), whole seconds among the nanoseconds are carried, and a time past the range of a
  signed 64-bit count of seconds panics.\<close>

definition system_time_from_timeval :: "u64 \<Rightarrow> u32 \<Rightarrow> system_time panics" where
  "system_time_from_timeval secs micros =
     (let nanos = micros * 1000;
          total = uint secs + uint nanos div 1000000000
      in if total < 2 ^ 63 then Some (uint secs * 1000000000 + uint nanos) else None)"

record capture_state =
  cs_ring :: "raw_packet ring"
  packet_counter :: u64
  warnings :: "u64 list"

definition capture_packet ::
  "link_type \<Rightarrow> bytes \<Rightarrow> pcap_header \<Rightarrow> bytes \<Rightarrow> capture_state \<Rightarrow> capture_state panics" where
  "capture_packet lt ifc h data st = do {
     tm \<leftarrow> parse_transport data lt;
     ts \<leftarrow> system_time_from_timeval (word_of_int (tv_sec h)) (word_of_int (tv_usec h));
     let raw = \<lparr>timestamp = ts, pkt_data = data, orig_len = hdr_len h, cap_len = hdr_caplen h,
                interface = ifc, link_type = lt, transport = tm,
                is_truncated = (hdr_caplen h < hdr_len h), packet_id = packet_counter st,
                ids_score = 0, ids_flag = 0\<rparr>;
     let (drops, ring') = RingBuffer_push raw (cs_ring st);
     Some (st\<lparr>cs_ring := ring', packet_counter := packet_counter st + 1,
              warnings := warnings st @ (if 0 < drops \<and> drops mod 1000 = 0 then [drops] else [])\<rparr>)
   }"

datatype 'pe loop_result = Running | Done "'pe capture_error + unit"

text \<open>The loop consumes, turn by turn, the value of the shutdown flag and what pcap delivers;
  \<open>Running\<close> means that the given turns did not end it.\<close>

fun capture_loop ::
  "link_type \<Rightarrow> bytes \<Rightarrow> (bool \<times> 'pe poll) list \<Rightarrow> capture_state
     \<Rightarrow> ('pe loop_result \<times> capture_state) panics" where
  "capture_loop lt ifc [] st = Some (Running, st)"
| "capture_loop lt ifc ((shutdown, p) # turns) st =
     (if shutdown then Some (Done (Inr ()), st)
      else (case p of
              Packet h data \<Rightarrow> do {
                st' \<leftarrow> capture_packet lt ifc h data st;
                capture_loop lt ifc turns st'
              }
            | TimeoutExpired \<Rightarrow> capture_loop lt ifc turns st
            | NoMorePackets \<Rightarrow> Some (Done (Inr ()), st)
            | PollError e \<Rightarrow> Some (Done (Inl (CaptureFailed e)), st)))"

definition run_capture ::
  "'pe pcap_api \<Rightarrow> bytes option \<Rightarrow> bytes option \<Rightarrow> (bool \<times> 'pe poll) list \<Rightarrow> capture_state
     \<Rightarrow> ('pe loop_result \<times> capture_state) panics" where
  "run_capture api ifc bpf turns st =
     (case (and_then (resolve_device api ifc) (\<lambda>device.
            and_then (map_err DeviceOpen (from_device api device)) (\<lambda>_.
            and_then (map_err Activate (open_capture api device)) (\<lambda>dl.
            and_then (case bpf of
                   Some f \<Rightarrow> map_err FilterCompile (set_filter api f)
                 | None \<Rightarrow> Inr ()) (\<lambda>_.
            Inr (device, pcap_linktype_to_enum dl))))))
      of Inl e \<Rightarrow> Some (Done (Inl e), st)
       | Inr (device, lt) \<Rightarrow> capture_loop lt device turns st)"

section \<open>Lemmas on the loop\<close>

text \<open>The packets a list of turns delivers before it stops, and why it stops.\<close>

fun polled :: "(bool \<times> 'pe poll) list \<Rightarrow> (pcap_header \<times> bytes) list" where
  "polled [] = []"
| "polled ((shutdown, p) # turns) =
     (if shutdown then []
      else (case p of Packet h d \<Rightarrow> (h, d) # polled turns
            | TimeoutExpired \<Rightarrow> polled turns | NoMorePackets \<Rightarrow> [] | PollError e \<Rightarrow> []))"

fun stop_reason :: "(bool \<times> 'pe poll) list \<Rightarrow> 'pe loop_result" where
  "stop_reason [] = Running"
| "stop_reason ((shutdown, p) # turns) =
     (if shutdown then Done (Inr ())
      else (case p of Packet h d \<Rightarrow> stop_reason turns | TimeoutExpired \<Rightarrow> stop_reason turns
            | NoMorePackets \<Rightarrow> Done (Inr ()) | PollError e \<Rightarrow> Done (Inl (CaptureFailed e))))"

text \<open>A time stamp pcap can produce: a signed 64-bit count of seconds after the epoch and less
  than a million microseconds.\<close>

definition time_ok :: "pcap_header \<Rightarrow> bool" where
  "time_ok h \<longleftrightarrow> 0 \<le> tv_sec h \<and> tv_sec h < 2 ^ 63 \<and> 0 \<le> tv_usec h \<and> tv_usec h < 1000000"

lemma system_time_exact:
  assumes "time_ok h"
  shows "system_time_from_timeval (word_of_int (tv_sec h)) (word_of_int (tv_usec h)) =
     Some (tv_sec h * 1000000000 + tv_usec h * 1000)"
proof -
  have s: "uint (word_of_int (tv_sec h) :: u64) = tv_sec h"
    using assms by (simp add: time_ok_def uint_word_of_int)
  have "word_of_int (tv_usec h) * 1000 = (word_of_int (tv_usec h * 1000) :: u32)" by simp
  moreover have "uint (word_of_int (tv_usec h * 1000) :: u32) = tv_usec h * 1000 mod 2 ^ 32"
    by (simp only: uint_word_of_int) simp
  ultimately have u: "uint (word_of_int (tv_usec h) * 1000 :: u32) = tv_usec h * 1000"
    using assms by (simp add: time_ok_def)
  have "tv_usec h * 1000 div 1000000000 = 0" using assms by (simp add: time_ok_def)
  then show ?thesis
    using assms by (simp add: system_time_from_timeval_def Let_def s u time_ok_def)
qed

definition raw_of :: "link_type \<Rightarrow> bytes \<Rightarrow> u64 \<Rightarrow> pcap_header \<times> bytes \<Rightarrow> raw_packet" where
  "raw_of lt ifc pid x =
     \<lparr>timestamp = tv_sec (fst x) * 1000000000 + tv_usec (fst x) * 1000, pkt_data = snd x,
      orig_len = hdr_len (fst x), cap_len = hdr_caplen (fst x), interface = ifc, link_type = lt,
      transport = the (parse_transport (snd x) lt),
      is_truncated = (hdr_caplen (fst x) < hdr_len (fst x)), packet_id = pid,
      ids_score = 0, ids_flag = 0\<rparr>"

fun raws_of :: "link_type \<Rightarrow> bytes \<Rightarrow> u64 \<Rightarrow> (pcap_header \<times> bytes) list \<Rightarrow> raw_packet list" where
  "raws_of lt ifc pid [] = []"
| "raws_of lt ifc pid (x # xs) = raw_of lt ifc pid x # raws_of lt ifc (pid + 1) xs"

definition newest :: "nat \<Rightarrow> 'a list \<Rightarrow> 'a list" where
  "newest c xs = drop (length xs - c) xs"

lemma newest_append: "newest c (newest c xs @ ys) = newest c (xs @ ys)"
  by (cases "length xs \<le> c") (simp_all add: newest_def drop_append add.commute)

lemma push_newest:
  "ring_inv r \<Longrightarrow> buf (snd (RingBuffer_push x r)) = newest (cap r) (buf r @ [x])"
  by (cases "buf r") (auto simp: push_buf newest_def ring_inv_def)

lemma capture_packet_step:
  assumes "time_ok h" and "ring_inv (cs_ring st)"
  obtains st' where "capture_packet lt ifc h data st = Some st'"
    and "packet_counter st' = packet_counter st + 1"
    and "cs_ring st' = snd (RingBuffer_push (raw_of lt ifc (packet_counter st) (h, data)) (cs_ring st))"
proof -
  obtain m where m: "parse_transport data lt = Some m" using parse_transport_total by blast
  have "\<exists>st'. capture_packet lt ifc h data st = Some st' \<and>
      packet_counter st' = packet_counter st + 1 \<and>
      cs_ring st' = snd (RingBuffer_push (raw_of lt ifc (packet_counter st) (h, data)) (cs_ring st))"
    by (simp add: capture_packet_def raw_of_def m system_time_exact [OF assms(1)] Let_def split_beta)
  then show ?thesis using that by blast
qed

lemma capture_loop_state:
  "\<forall>(h, d) \<in> set (polled turns). time_ok h \<Longrightarrow> ring_inv (cs_ring st) \<Longrightarrow>
   \<exists>st'. capture_loop lt ifc turns st = Some (stop_reason turns, st') \<and>
     packet_counter st' = packet_counter st + of_nat (length (polled turns)) \<and>
     ring_inv (cs_ring st') \<and> cap (cs_ring st') = cap (cs_ring st) \<and>
     buf (cs_ring st') = newest (cap (cs_ring st))
       (buf (cs_ring st) @ raws_of lt ifc (packet_counter st) (polled turns))"
proof (induction turns arbitrary: st)
  case Nil
  then show ?case by (auto simp: newest_def ring_inv_def)
next
  case (Cons t turns)
  obtain sd p where t: "t = (sd, p)" by force
  have stop: "buf (cs_ring st) = newest (cap (cs_ring st)) (buf (cs_ring st))"
    using Cons.prems(2) by (auto simp: newest_def ring_inv_def)
  show ?case
  proof (cases "\<not> sd \<and> (\<exists>h d. p = Packet h d)")
    case True
    then obtain h d where p: "p = Packet h d" and sd: "\<not> sd" by blast
    have "time_ok h" using Cons.prems(1) t p sd by simp
    then obtain st1 where st1: "capture_packet lt ifc h d st = Some st1"
      "packet_counter st1 = packet_counter st + 1"
      "cs_ring st1 = snd (RingBuffer_push (raw_of lt ifc (packet_counter st) (h, d)) (cs_ring st))"
      using capture_packet_step [OF _ Cons.prems(2)] by blast
    have inv: "ring_inv (cs_ring st1)" using Cons.prems(2) by (simp add: st1 ring_inv_push)
    have "\<forall>(h, d) \<in> set (polled turns). time_ok h" using Cons.prems(1) t p sd by simp
    from Cons.IH [OF this inv] obtain st2 where
      "capture_loop lt ifc turns st1 = Some (stop_reason turns, st2)"
      "packet_counter st2 = packet_counter st1 + of_nat (length (polled turns))"
      "ring_inv (cs_ring st2)" "cap (cs_ring st2) = cap (cs_ring st1)"
      "buf (cs_ring st2) = newest (cap (cs_ring st1))
         (buf (cs_ring st1) @ raws_of lt ifc (packet_counter st1) (polled turns))"
      by blast
    then show ?thesis
      using st1 push_newest [OF Cons.prems(2)]
      by (intro exI [of _ st2]) (simp add: t p sd newest_append)
  next
    case False
    note IH = Cons.IH [OF _ Cons.prems(2)]
    show ?thesis
    proof (cases "sd \<or> p \<noteq> TimeoutExpired")
      case True
      then show ?thesis using False stop Cons.prems(2) t by (cases p) auto
    next
      case False
      then show ?thesis using IH Cons.prems(1) t by simp
    qed
  qed
qed

section \<open>Properties\<close>

text \<open>C15 (safety). Parsing a captured frame never panics: for every byte string and link type,
  all slice accesses of the Ethernet, VLAN, IPv4, IPv6, TCP, UDP and ICMP parsers are in
  bounds, and a parse is either rejected or yields metadata.\<close>

theorem parse_transport_never_panics: "parse_transport data lt \<noteq> None"
  using parse_transport_total [of data lt] by auto

text \<open>C16 (roundtrip). Parsing the frame of any well-formed packet description (Ethernet with or
  without an 802.1Q tag; IPv4 with any options or IPv6; TCP, UDP, ICMP or another protocol)
  gives back the addresses, ports, flags, TTL, fragment fields, MAC and VLAN identifier it was
  built from, and the payload offset points behind the transport header.\<close>

theorem parse_transport_roundtrip:
  assumes "length dst = 6" and "length src = 6" and "ip_wf p"
  shows "parse_transport (eth_frame dst src tci p) Ethernet =
     Some (Some (ip_expected p (if tci = None then 14 else 18) (Some src)
       (map_option (\<lambda>t. t AND 0x0FFF) tci)))"
  using assms by (rule parse_eth_frame)

definition demo_ip :: ip_desc where
  "demo_ip = Ip4 \<lparr>h4_ihl = 5, h4_tos = 0, h4_len_id = [0, 40, 0, 1], h4_ff = 0x4000, h4_ttl = 64,
      h4_sum = [0, 0], h4_src = [10, 0, 0, 1], h4_dst = [10, 0, 0, 2], h4_opts = []\<rparr>
      (Tcp 54321 80 [0, 0, 0, 1, 0, 0, 0, 0] 5 2 [1, 0, 0, 0, 0, 0])"

theorem parse_transport_roundtrip_witness:
  "parse_transport (eth_frame [1, 2, 3, 4, 5, 6] [7, 8, 9, 10, 11, 12] (Some 42) demo_ip) Ethernet =
     Some (Some \<lparr>src_ip = V4 10 0 0 1, dst_ip = V4 10 0 0 2, src_port = Some 54321,
       dst_port = Some 80, protocol = 6, tcp_flags = Some 2, ttl = 64, ip_flags = 2,
       ip_frag_offset = 0, icmp_type = None, icmp_code = None,
       eth_src_mac = Some [7, 8, 9, 10, 11, 12], vlan_id = Some 42, payload_offset = 58\<rparr>)"
  using parse_transport_roundtrip [of "[1, 2, 3, 4, 5, 6]" "[7, 8, 9, 10, 11, 12]" demo_ip "Some 42"]
  by (simp add: demo_ip_def meta_of_def)

text \<open>C40 (type). Every accepted parse is consistent: ports come in pairs and only with TCP or UDP,
  flags exactly with TCP ports, ICMP type and code together and only with an ICMP protocol;
  the three IP flag bits and the fragment offset (in bytes, a multiple of 8) are in range;
  the VLAN identifier has 12 bits, the MAC 6 bytes; and the payload offset is between 20 and
  138, so never zero.\<close>

theorem parse_transport_consistent:
  assumes "parse_transport data lt = Some (Some m)"
  shows "\<exists>n. meta_ok n m \<and> link_ok lt n (eth_src_mac m) (vlan_id m) \<and>
     20 \<le> payload_offset m \<and> payload_offset m \<le> 138"
proof -
  obtain n mac vlan where link: "parse_link data lt = Some (Some (n, mac, vlan))"
    and "parse_ipv4 (drop n data) n mac vlan = Some (Some m) \<or>
         parse_ipv6 (drop n data) n mac vlan = Some (Some m)"
    using parse_transport_cases [OF assms] by blast
  then have "meta_ok n m" "vlan_id m = vlan" "eth_src_mac m = mac"
    using parse_ipv4_meta_ok parse_ipv6_meta_ok by blast+
  moreover have "link_ok lt n mac vlan" using link by (rule parse_link_ok)
  ultimately show ?thesis by (intro exI [of _ n]) (auto simp: meta_ok_def link_ok_def)
qed

theorem parse_transport_consistent_witness:
  "\<exists>m n. parse_transport (eth_frame [1, 2, 3, 4, 5, 6] [7, 8, 9, 10, 11, 12] None demo_ip) Ethernet =
      Some (Some m) \<and> meta_ok n m \<and> payload_offset m \<le> 138"
proof -
  have "parse_transport (eth_frame [1, 2, 3, 4, 5, 6] [7, 8, 9, 10, 11, 12] None demo_ip) Ethernet =
      Some (Some (ip_expected demo_ip 14 (Some [7, 8, 9, 10, 11, 12]) None))"
    using parse_eth_frame [of "[1, 2, 3, 4, 5, 6]" "[7, 8, 9, 10, 11, 12]" demo_ip None]
    by (simp add: demo_ip_def)
  then show ?thesis using parse_transport_consistent by blast
qed

text \<open>C27 (functional). With the time stamps pcap delivers, the capture loop never panics; it ends for
  the reason the input gives (shutdown flag, exhausted source, fatal error) and turns exactly
  the packets delivered before that into \<open>RawPacket\<close>s with consecutive identifiers, of which
  the ring buffer holds the newest ones it has room for.\<close>

theorem capture_loop_correct:
  assumes "\<forall>(h, d) \<in> set (polled turns). time_ok h" and "ring_inv (cs_ring st)"
  shows "\<exists>st'. capture_loop lt ifc turns st = Some (stop_reason turns, st') \<and>
     packet_counter st' = packet_counter st + of_nat (length (polled turns)) \<and>
     buf (cs_ring st') = newest (cap (cs_ring st))
       (buf (cs_ring st) @ raws_of lt ifc (packet_counter st) (polled turns))"
  using capture_loop_state [OF assms] by blast

theorem capture_loop_correct_witness:
  "\<exists>st'. capture_loop Ethernet [] [(False, Packet \<lparr>tv_sec = 5, tv_usec = 7, hdr_caplen = 1, hdr_len = 2\<rparr> [0]),
       (False, TimeoutExpired), (True, NoMorePackets :: unit poll)]
       \<lparr>cs_ring = RingBuffer_new 4096, packet_counter = 0, warnings = []\<rparr> = Some (Done (Inr ()), st') \<and>
     packet_counter st' = 1 \<and> map packet_id (buf (cs_ring st')) = [0] \<and>
     map timestamp (buf (cs_ring st')) = [5000007000] \<and> map is_truncated (buf (cs_ring st')) = [True]"
  using capture_loop_correct [of "[(False, Packet \<lparr>tv_sec = 5, tv_usec = 7, hdr_caplen = 1, hdr_len = 2\<rparr> [0]),
       (False, TimeoutExpired), (True, NoMorePackets :: unit poll)]"
       "\<lparr>cs_ring = RingBuffer_new 4096, packet_counter = 0, warnings = []\<rparr>" Ethernet "[]"]
  by (auto simp: time_ok_def ring_inv_def RingBuffer_new_def newest_def raw_of_def)

text \<open>Asking for an interface that the device list does not hold fails with
  \<open>InterfaceNotFound\<close> before anything is opened or captured.\<close>

theorem run_capture_unknown_interface:
  assumes "device_list api = Inr devices" and "name \<notin> set devices"
  shows "run_capture api (Some name) bpf turns st = Some (Done (Inl (InterfaceNotFound name)), st)"
proof -
  have "find (\<lambda>d. d = name) devices = None" using assms(2) by (auto simp: find_None_iff)
  then show ?thesis by (simp add: run_capture_def resolve_device_def and_then_def map_err_def assms(1))
qed

theorem run_capture_unknown_interface_witness:
  "run_capture \<lparr>device_list = Inr [[0x6C, 0x6F]], device_lookup = Inr None, from_device = (\<lambda>_. Inr ()),
     open_capture = (\<lambda>_. Inr 1), set_filter = (\<lambda>_. Inl ())\<rparr> (Some [0x78]) None []
     \<lparr>cs_ring = RingBuffer_new 64, packet_counter = 0, warnings = []\<rparr> =
   Some (Done (Inl (InterfaceNotFound [0x78])),
     \<lparr>cs_ring = RingBuffer_new 64, packet_counter = 0, warnings = []\<rparr>)"
  by (rule run_capture_unknown_interface [of _ "[[0x6C, 0x6F]]"]) simp_all

end
