(* ===== verification/TestSender.thy ===== *)
theory TestSender
  imports Capture Config
begin

text \<open>
  The synthetic traffic of \<open>--test-send\<close>, \<open>tests/test_sender.rs\<close>: frames made from random
  numbers, the packets built from them without the parser of the capture, and the loop that
  sends them.

  The random number generator is a library: a state and the two draws the code makes, of a
  number in a range (both ends included) and of a byte.  \<open>rng_ok\<close> says that a range is respected.
\<close>

section \<open>Frames\<close>

record 'r rng =
  random_range :: "nat \<Rightarrow> nat \<Rightarrow> 'r \<Rightarrow> nat \<times> 'r"
  random_byte :: "'r \<Rightarrow> u8 \<times> 'r"

definition rng_ok :: "'r rng \<Rightarrow> bool" where
  "rng_ok g \<longleftrightarrow> (\<forall>lo hi r. lo \<le> hi \<longrightarrow> lo \<le> fst (random_range g lo hi r) \<and> fst (random_range g lo hi r) \<le> hi)"

definition ETH_HDR :: usize where "ETH_HDR = 14"
definition IPV4_HDR :: usize where "IPV4_HDR = 20"
definition PORT_HDR :: usize where "PORT_HDR = 4"

lemmas hdr_defs = ETH_HDR_def IPV4_HDR_def PORT_HDR_def

text \<open>\<open>buf[i] = v\<close>, and the loop that fills a part of the buffer with random bytes.\<close>

definition put :: "usize \<Rightarrow> u8 \<Rightarrow> bytes \<Rightarrow> bytes panics" where
  "put i v bs = (if i < length bs then Some (bs[i := v]) else None)"

fun fill :: "'r rng \<Rightarrow> usize \<Rightarrow> nat \<Rightarrow> bytes \<Rightarrow> 'r \<Rightarrow> bytes \<times> 'r" where
  "fill g i 0 bs r = (bs, r)"
| "fill g i (Suc n) bs r = (let (v, r) = random_byte g r in fill g (Suc i) n (bs[i := v]) r)"

definition fill_slice :: "'r rng \<Rightarrow> usize \<Rightarrow> usize \<Rightarrow> bytes \<Rightarrow> 'r \<Rightarrow> (bytes \<times> 'r) panics" where
  "fill_slice g a b bs r = (if a \<le> b \<and> b \<le> length bs then Some (fill g a (b - a) bs r) else None)"

text \<open>The four bytes of a random address.\<close>

definition put_addr :: "'r rng \<Rightarrow> usize \<Rightarrow> bytes \<Rightarrow> 'r \<Rightarrow> (bytes \<times> 'r) panics" where
  "put_addr g i bs r = do {
     let (a, r) = random_range g 1 223 r;
     bs \<leftarrow> put i (of_nat a) bs;
     let (b, r) = random_byte g r;
     bs \<leftarrow> put (i + 1) b bs;
     let (c, r) = random_byte g r;
     bs \<leftarrow> put (i + 2) c bs;
     let (d, r) = random_range g 1 254 r;
     bs \<leftarrow> put (i + 3) (of_nat d) bs;
     Some (bs, r)
   }"

definition put_ports :: "'r rng \<Rightarrow> bytes \<Rightarrow> 'r \<Rightarrow> (bytes \<times> 'r) panics" where
  "put_ports g bs r = do {
     let (s, r) = random_range g 1024 65535 r;
     let (d, r) = random_range g 1 1023 r;
     let src = (of_nat s :: u16);
     let dst = (of_nat d :: u16);
     bs \<leftarrow> put 34 (ucast (drop_bit 8 src)) bs;
     bs \<leftarrow> put 35 (ucast (src AND 0xFF)) bs;
     bs \<leftarrow> put 36 (ucast (drop_bit 8 dst)) bs;
     bs \<leftarrow> put 37 (ucast (dst AND 0xFF)) bs;
     Some (bs, r)
   }"

definition build_frame :: "'r rng \<Rightarrow> 'r \<Rightarrow> (bytes \<times> 'r) panics" where
  "build_frame g r = do {
     let (k, r) = random_range g 0 2 r;
     proto_byte \<leftarrow> idx [1, 6, 17] k;
     let (payload_len, r) = random_range g 0 256 r;
     let has_ports = (proto_byte \<noteq> 1);
     let total = ETH_HDR + IPV4_HDR + (if has_ports then PORT_HDR else 0) + payload_len;
     let bs = replicate total 0;
     (bs, r) \<leftarrow> fill_slice g 0 12 bs r;
     bs \<leftarrow> put 12 0x08 bs;
     bs \<leftarrow> put 13 0x00 bs;
     bs \<leftarrow> put 14 0x45 bs;
     let ip_len = (of_nat (total - ETH_HDR) :: u16);
     bs \<leftarrow> put 16 (ucast (drop_bit 8 ip_len)) bs;
     bs \<leftarrow> put 17 (ucast (ip_len AND 0xFF)) bs;
     let (hop, r) = random_range g 32 255 r;
     bs \<leftarrow> put 22 (of_nat hop) bs;
     bs \<leftarrow> put 23 proto_byte bs;
     (bs, r) \<leftarrow> put_addr g 26 bs r;
     (bs, r) \<leftarrow> put_addr g 30 bs r;
     (bs, r) \<leftarrow> (if has_ports \<and> ETH_HDR + IPV4_HDR + 3 < total then put_ports g bs r else Some (bs, r));
     let payload_start = ETH_HDR + IPV4_HDR + (if has_ports then PORT_HDR else 0);
     fill_slice g payload_start (length bs) bs r
   }"

text \<open>The packet of a frame.\<close>

definition frame_to_raw :: "system_time \<Rightarrow> bytes \<Rightarrow> raw_packet panics" where
  "frame_to_raw now data = do {
     let len = of_nat (length data);
     tm \<leftarrow> (if ETH_HDR + IPV4_HDR \<le> length data then do {
         proto \<leftarrow> idx data 23;
         s0 \<leftarrow> idx data 26; s1 \<leftarrow> idx data 27; s2 \<leftarrow> idx data 28; s3 \<leftarrow> idx data 29;
         d0 \<leftarrow> idx data 30; d1 \<leftarrow> idx data 31; d2 \<leftarrow> idx data 32; d3 \<leftarrow> idx data 33;
         hop \<leftarrow> idx data 22;
         let has_ports = (proto \<noteq> 1 \<and> ETH_HDR + IPV4_HDR + 3 < length data);
         (sp, dp) \<leftarrow> (if has_ports then do {
             p0 \<leftarrow> idx data 34; p1 \<leftarrow> idx data 35; p2 \<leftarrow> idx data 36; p3 \<leftarrow> idx data 37;
             Some (Some (be16 p0 p1), Some (be16 p2 p3))
           } else Some (None, None));
         mac \<leftarrow> slice data 6 12;
         Some (Some \<lparr>src_ip = V4 s0 s1 s2 s3, dst_ip = V4 d0 d1 d2 d3, src_port = sp, dst_port = dp,
           protocol = proto, tcp_flags = (if proto = 6 then Some 0x02 else None), ttl = hop,
           ip_flags = 0, ip_frag_offset = 0,
           icmp_type = (if proto = 1 then Some 8 else None), icmp_code = (if proto = 1 then Some 0 else None),
           eth_src_mac = Some mac, vlan_id = None,
           payload_offset = ETH_HDR + IPV4_HDR + (if has_ports then PORT_HDR else 0)\<rparr>)
       } else Some None);
     Some \<lparr>timestamp = now, pkt_data = data, orig_len = len, cap_len = len, interface = str ''test'',
       link_type = Ethernet, transport = tm, is_truncated = False, packet_id = 0, ids_score = 0, ids_flag = 0\<rparr>
   }"

section \<open>The shape of a frame\<close>

definition frame_shape :: "bytes \<Rightarrow> bool" where
  "frame_shape data \<longleftrightarrow> 34 \<le> length data \<and> data ! 12 = 0x08 \<and> data ! 13 = 0x00 \<and> data ! 14 = 0x45 \<and>
     data ! 20 = 0 \<and> data ! 21 = 0 \<and> (data ! 23 = 1 \<or> data ! 23 = 6 \<or> data ! 23 = 17) \<and>
     (data ! 23 \<noteq> 1 \<longrightarrow> 38 \<le> length data)"

text \<open>\<open>touches a b xs ys\<close>: \<open>ys\<close> differs from \<open>xs\<close> only from position \<open>a\<close> up to \<open>b\<close>.\<close>

definition touches :: "nat \<Rightarrow> nat \<Rightarrow> bytes \<Rightarrow> bytes \<Rightarrow> bool" where
  "touches a b xs ys \<longleftrightarrow> length ys = length xs \<and> (\<forall>j. j < a \<or> b \<le> j \<longrightarrow> ys ! j = xs ! j)"

lemma fill_touches: "touches i (i + n) bs (fst (fill g i n bs r))"
proof (induction n arbitrary: i bs r)
  case (Suc n)
  obtain v r' where "random_byte g r = (v, r')" by force
  with Suc [of "Suc i" "bs[i := v]" r'] show ?case by (auto simp: touches_def)
qed (simp add: touches_def)

lemma fill_slice_total:
  assumes "a \<le> b" and "b \<le> length bs"
  obtains bs' r' where "fill_slice g a b bs r = Some (bs', r')" and "touches a b bs bs'"
  using fill_touches [of a "b - a" bs g r] assms that
  by (cases "fill g a (b - a) bs r") (simp add: fill_slice_def)

lemma put_addr_total:
  assumes "i + 3 < length bs"
  obtains bs' r' where "put_addr g i bs r = Some (bs', r')" and "touches i (i + 4) bs bs'"
  using assms that by (auto simp: put_addr_def put_def touches_def split_beta)

lemma put_ports_total:
  assumes "37 < length bs"
  obtains bs' r' where "put_ports g bs r = Some (bs', r')" and "touches 34 38 bs bs'"
  using assms that by (auto simp: put_ports_def put_def touches_def split_beta Let_def)

text \<open>The header fields written before the addresses.\<close>

definition eth_ipv4_start :: "u8 \<Rightarrow> u16 \<Rightarrow> u8 \<Rightarrow> bytes \<Rightarrow> bytes" where
  "eth_ipv4_start proto ip_len hop bs = bs[12 := 0x08, 13 := 0x00, 14 := 0x45,
     16 := ucast (drop_bit 8 ip_len), 17 := ucast (ip_len AND 0xFF), 22 := hop, 23 := proto]"

lemma start_nth:
  assumes "24 \<le> length bs"
  shows "length (eth_ipv4_start proto ip_len hop bs) = length bs"
    and "eth_ipv4_start proto ip_len hop bs ! 12 = 0x08" and "eth_ipv4_start proto ip_len hop bs ! 13 = 0x00"
    and "eth_ipv4_start proto ip_len hop bs ! 14 = 0x45" and "eth_ipv4_start proto ip_len hop bs ! 20 = bs ! 20"
    and "eth_ipv4_start proto ip_len hop bs ! 21 = bs ! 21" and "eth_ipv4_start proto ip_len hop bs ! 23 = proto"
  using assms by (simp_all add: eth_ipv4_start_def)

lemma start_shape:
  assumes "touches 0 12 (replicate n 0) b0" and "touches 26 n (eth_ipv4_start proto ip_len hop b0) bs"
    and "34 \<le> n" and "proto = 1 \<or> proto = 6 \<or> proto = 17" and "proto \<noteq> 1 \<longrightarrow> 38 \<le> n"
  shows "frame_shape bs"
proof -
  have b0: "length b0 = n" "b0 ! 20 = 0" "b0 ! 21 = 0" using assms(1,3) by (auto simp: touches_def)
  with assms(2,3) have "bs ! j = eth_ipv4_start proto ip_len hop b0 ! j" if "j < 26" for j
    using that by (simp add: touches_def)
  with assms b0 show ?thesis by (simp add: frame_shape_def start_nth) (simp add: touches_def start_nth)
qed

lemma touches_trans:
  "touches a b xs ys \<Longrightarrow> touches c d ys zs \<Longrightarrow> m \<le> a \<Longrightarrow> m \<le> c \<Longrightarrow> b \<le> n \<Longrightarrow> d \<le> n \<Longrightarrow> touches m n xs zs"
  by (auto simp: touches_def)

lemma touches_length: "touches a b xs ys \<Longrightarrow> length ys = length xs"
  by (simp add: touches_def)

lemma rng_range: "rng_ok g \<Longrightarrow> random_range g lo hi r = (k, r') \<Longrightarrow> lo \<le> hi \<Longrightarrow> k \<le> hi"
  unfolding rng_ok_def by (metis fst_conv)

lemma build_frame_total:
  assumes "rng_ok g"
  obtains data r' where "build_frame g r = Some (data, r')" and "frame_shape data"
proof -
  obtain k r1 where k: "random_range g 0 2 r = (k, r1)" by force
  obtain pl r2 where pl: "random_range g 0 256 r1 = (pl, r2)" by force
  have "k \<le> 2" using rng_range [OF assms k] by simp
  then have "k = 0 \<or> k = 1 \<or> k = 2" by auto
  then obtain proto :: u8 where proto: "idx [1, 6, 17] k = Some proto" "proto = 1 \<or> proto = 6 \<or> proto = 17"
    by (auto simp: idx_def)
  define n where "n = ETH_HDR + IPV4_HDR + (if proto \<noteq> 1 then PORT_HDR else 0) + pl"
  have n: "34 \<le> n" "proto \<noteq> 1 \<longrightarrow> 38 \<le> n" by (simp_all add: n_def hdr_defs)
  obtain b0 r3 where b0: "fill_slice g 0 12 (replicate n 0) r2 = Some (b0, r3)" "touches 0 12 (replicate n 0) b0"
    by (rule fill_slice_total [of 0 12 "replicate n 0" g r2]) (use n in auto)
  obtain hop r4 where hop: "random_range g 32 255 r3 = (hop, r4)" by force
  define b1 where "b1 = eth_ipv4_start proto (of_nat (n - ETH_HDR)) (of_nat hop) b0"
  have len: "length b0 = n" "length b1 = n" using b0(2) by (simp_all add: touches_def b1_def eth_ipv4_start_def)
  obtain b2 r5 where b2: "put_addr g 26 b1 r4 = Some (b2, r5)" "touches 26 30 b1 b2"
    by (rule put_addr_total [of 26 b1 g r4]) (use n len in auto)
  obtain b3 r6 where b3: "put_addr g 30 b2 r5 = Some (b3, r6)" "touches 30 34 b2 b3"
    by (rule put_addr_total [of 30 b2 g r5]) (use n len touches_length [OF b2(2)] in auto)
  have l3: "length b3 = n" using len touches_length [OF b2(2)] touches_length [OF b3(2)] by simp
  obtain b4 r7 where b4: "(if proto \<noteq> 1 \<and> ETH_HDR + IPV4_HDR + 3 < n then put_ports g b3 r6 else Some (b3, r6)) = Some (b4, r7)"
    "touches 34 n b3 b4"
  proof (cases "proto \<noteq> 1 \<and> ETH_HDR + IPV4_HDR + 3 < n")
    case True
    then have "37 < length b3" by (simp add: l3 hdr_defs)
    then obtain b4 r7 where "put_ports g b3 r6 = Some (b4, r7)" "touches 34 38 b3 b4"
      by (rule put_ports_total)
    with that True l3 n show ?thesis by (auto simp: touches_def)
  next
    case False
    with that show ?thesis by (auto simp: touches_def)
  qed
  have l4: "length b4 = n" using touches_length [OF b4(2)] l3 by simp
  let ?p = "ETH_HDR + IPV4_HDR + (if proto \<noteq> 1 then PORT_HDR else 0)"
  have p: "?p \<le> n" "34 \<le> ?p" by (simp_all add: n_def hdr_defs)
  obtain b5 r8 where b5: "fill_slice g ?p n b4 r7 = Some (b5, r8)" "touches ?p n b4 b5"
    by (rule fill_slice_total [of ?p n b4 g r7]) (use p l4 in auto)
  have "build_frame g r = Some (b5, r8)"
    using k pl proto(1) b0(1) hop b2(1) b3(1) b4(1) b5(1) len l4
    by (cases "proto = 1") (simp_all add: build_frame_def put_def Let_def b1_def eth_ipv4_start_def n_def hdr_defs)
  moreover have "touches 26 n b1 b5"
    using touches_trans [OF touches_trans [OF touches_trans [OF b2(2) b3(2), of 26 n] b4(2), of 26 n] b5(2), of 26 n] n p
    by simp
  then have "frame_shape b5" unfolding b1_def by (rule start_shape [OF b0(2) _ n(1) proto(2) n(2)])
  ultimately show ?thesis by (rule that)
qed

section \<open>Frames as the capture reads them\<close>

definition synthetic_meta :: "bytes \<Rightarrow> transport_meta" where
  "synthetic_meta data = \<lparr>src_ip = V4 (data ! 26) (data ! 27) (data ! 28) (data ! 29),
     dst_ip = V4 (data ! 30) (data ! 31) (data ! 32) (data ! 33),
     src_port = (if data ! 23 \<noteq> 1 then Some (be16 (data ! 34) (data ! 35)) else None),
     dst_port = (if data ! 23 \<noteq> 1 then Some (be16 (data ! 36) (data ! 37)) else None),
     protocol = data ! 23, tcp_flags = (if data ! 23 = 6 then Some 0x02 else None), ttl = data ! 22,
     ip_flags = 0, ip_frag_offset = 0,
     icmp_type = (if data ! 23 = 1 then Some 8 else None), icmp_code = (if data ! 23 = 1 then Some 0 else None),
     eth_src_mac = Some (take 6 (drop 6 data)), vlan_id = None,
     payload_offset = 34 + (if data ! 23 \<noteq> 1 then 4 else 0)\<rparr>"

lemma frame_to_raw_value:
  assumes "frame_shape data"
  shows "\<exists>raw. frame_to_raw now data = Some raw \<and> pkt_data raw = data \<and> timestamp raw = now \<and>
     transport raw = Some (synthetic_meta data)"
  using assms by (auto simp: frame_shape_def frame_to_raw_def synthetic_meta_def hdr_defs idx_def slice_def Let_def)

lemma frame_captured:
  assumes "frame_shape data"
  shows "parse_transport data Ethernet = Some (Some (meta_of
     (V4 (data ! 26) (data ! 27) (data ! 28) (data ! 29)) (V4 (data ! 30) (data ! 31) (data ! 32) (data ! 33))
     (data ! 23) (data ! 22) 0 (l4_of 1 (data ! 23) (drop 34 data) 34) (Some (take 6 (drop 6 data))) None))"
proof -
  note f = assms [unfolded frame_shape_def]
  have link: "parse_link data Ethernet = Some (Some (14, Some (take 6 (drop 6 data)), None))"
    using f by (auto simp: parse_link_def idx_def slice_def try_array_def be16_def Let_def)
  obtain x xs where ip: "drop 14 data = x # xs" using f by (cases "drop 14 data") auto
  have x: "x = 0x45" using f hd_drop_conv_nth [of 14 data] by (simp add: ip)
  have nth: "drop 14 data ! j = data ! (14 + j)" if "j < 20" for j using f that by simp
  have "ihl_of (drop 14 data) = 20" using nth [of 0] f by (simp add: ihl_of_def)
  moreover have not_short: "\<not> length data - 14 < 20" using f by linarith
  moreover have "be16 (data ! 20) (data ! 21) = 0" using f by (simp add: be16_def)
  ultimately have "parse_ipv4 (drop 14 data) 14 (Some (take 6 (drop 6 data))) None =
    Some (Some (meta_of
     (V4 (data ! 26) (data ! 27) (data ! 28) (data ! 29)) (V4 (data ! 30) (data ! 31) (data ! 32) (data ! 33))
     (data ! 23) (data ! 22) 0 (l4_of 1 (data ! 23) (drop 34 data) 34) (Some (take 6 (drop 6 data))) None))"
    using f nth not_short by (simp add: parse_ipv4_value)
  then show ?thesis
    using f by (simp add: parse_transport_def link get_from_def ip x)
qed

section \<open>The sending loop\<close>

record test_sender_cfg =
  packets_per_tick :: usize
  tick_interval :: duration
  max_ticks :: "u64 option"

definition TestSenderConfig_default :: test_sender_cfg where
  "TestSenderConfig_default = \<lparr>packets_per_tick = 20, tick_interval = from_millis 200, max_ticks = None\<rparr>"

definition main_test_cfg :: "config \<Rightarrow> test_sender_cfg" where
  "main_test_cfg c =
     \<lparr>packets_per_tick = unwrap_or (test_packets_per_tick c) 20,
      tick_interval = from_millis (unat (unwrap_or (test_tick_ms c) 200)), max_ticks = test_max_ticks c\<rparr>"

text \<open>The packets of a tick; \<open>clk n\<close> is the time when \<open>n\<close> more are to come.\<close>

fun generate :: "'r rng \<Rightarrow> (nat \<Rightarrow> system_time) \<Rightarrow> nat \<Rightarrow> 'r \<Rightarrow> (raw_packet list \<times> 'r) panics" where
  "generate g clk 0 r = Some ([], r)"
| "generate g clk (Suc n) r = do {
     (data, r) \<leftarrow> build_frame g r;
     raw \<leftarrow> frame_to_raw (clk n) data;
     (raws, r) \<leftarrow> generate g clk n r;
     Some (raw # raws, r)
   }"

text \<open>Where the task is: at the head of its loop, sending the packets of the tick, asleep, or
  finished; and how the \<open>select!\<close> it waits in is resolved.\<close>

datatype sender_pc = TickStart | SendingTick "raw_packet list" | Asleep | SenderDone

datatype select = TokenCancelled | Proceeds | ReceiverGone

record 'r sender_state =
  s_tick :: u64
  s_pc :: sender_pc
  s_rng :: 'r
  s_sent :: "raw_packet list"

definition sender_init :: "'r \<Rightarrow> 'r sender_state" where
  "sender_init r = \<lparr>s_tick = 0, s_pc = TickStart, s_rng = r, s_sent = []\<rparr>"

definition sender_turn ::
  "'r rng \<Rightarrow> test_sender_cfg \<Rightarrow> (nat \<Rightarrow> system_time) \<Rightarrow> select \<Rightarrow> 'r sender_state \<Rightarrow> 'r sender_state panics" where
  "sender_turn g cfg clk sel s =
     (case s_pc s of
        TickStart \<Rightarrow>
          if (case max_ticks cfg of Some limit \<Rightarrow> limit \<le> s_tick s | None \<Rightarrow> False) then Some (s\<lparr>s_pc := SenderDone\<rparr>)
          else do {
            (packets, r) \<leftarrow> generate g clk (packets_per_tick cfg) (s_rng s);
            Some (s\<lparr>s_pc := SendingTick packets, s_rng := r\<rparr>)
          }
      | SendingTick [] \<Rightarrow> Some (s\<lparr>s_tick := s_tick s + 1, s_pc := Asleep\<rparr>)
      | SendingTick (raw # rest) \<Rightarrow>
          Some (case sel of
                  TokenCancelled \<Rightarrow> s\<lparr>s_pc := SenderDone\<rparr>
                | ReceiverGone \<Rightarrow> s\<lparr>s_pc := SenderDone\<rparr>
                | Proceeds \<Rightarrow> s\<lparr>s_pc := SendingTick rest, s_sent := s_sent s @ [raw]\<rparr>)
      | Asleep \<Rightarrow> Some (if sel = TokenCancelled then s\<lparr>s_pc := SenderDone\<rparr> else s\<lparr>s_pc := TickStart\<rparr>)
      | SenderDone \<Rightarrow> Some s)"

fun run_test_sender ::
  "'r rng \<Rightarrow> test_sender_cfg \<Rightarrow> ((nat \<Rightarrow> system_time) \<times> select) list \<Rightarrow> 'r sender_state \<Rightarrow> 'r sender_state panics" where
  "run_test_sender g cfg [] s = Some s"
| "run_test_sender g cfg ((clk, sel) # es) s = do {
     s' \<leftarrow> sender_turn g cfg clk sel s;
     run_test_sender g cfg es s'
   }"

section \<open>The invariant and the measure of the loop\<close>

definition synthetic :: "raw_packet \<Rightarrow> bool" where
  "synthetic p \<longleftrightarrow> frame_shape (pkt_data p) \<and> transport p = Some (synthetic_meta (pkt_data p))"

lemma generate_total:
  assumes "rng_ok g"
  shows "\<exists>ps r'. generate g clk n r = Some (ps, r') \<and> length ps = n \<and> (\<forall>p \<in> set ps. synthetic p)"
proof (induction n arbitrary: r)
  case (Suc n)
  obtain data r1 where d: "build_frame g r = Some (data, r1)" "frame_shape data"
    by (rule build_frame_total [OF assms])
  obtain raw where "frame_to_raw (clk n) data = Some raw" "synthetic raw"
    using frame_to_raw_value [OF d(2)] d(2) by (metis synthetic_def)
  with Suc [of r1] d(1) show ?case by auto
qed simp

text \<open>The packets of the ticks so far, of which \<open>todo\<close> are still to be sent.\<close>

definition sender_inv :: "test_sender_cfg \<Rightarrow> nat \<Rightarrow> 'r sender_state \<Rightarrow> bool" where
  "sender_inv cfg m s \<longleftrightarrow> max_ticks cfg = Some (of_nat m) \<and> m < 2 ^ 64 \<and> unat (s_tick s) \<le> m \<and>
     (\<forall>p \<in> set (s_sent s). synthetic p) \<and>
     (case s_pc s of
        TickStart \<Rightarrow> length (s_sent s) = unat (s_tick s) * packets_per_tick cfg
      | SendingTick todo \<Rightarrow> unat (s_tick s) < m \<and> (\<forall>p \<in> set todo. synthetic p) \<and>
          length (s_sent s) + length todo = Suc (unat (s_tick s)) * packets_per_tick cfg
      | Asleep \<Rightarrow> length (s_sent s) = unat (s_tick s) * packets_per_tick cfg
      | SenderDone \<Rightarrow> length (s_sent s) \<le> m * packets_per_tick cfg)"

definition sender_work :: "test_sender_cfg \<Rightarrow> nat \<Rightarrow> 'r sender_state \<Rightarrow> nat" where
  "sender_work cfg m s = (case s_pc s of
     TickStart \<Rightarrow> (m - unat (s_tick s)) * (packets_per_tick cfg + 3) + 1
   | SendingTick todo \<Rightarrow> (m - Suc (unat (s_tick s))) * (packets_per_tick cfg + 3) + length todo + 3
   | Asleep \<Rightarrow> (m - unat (s_tick s)) * (packets_per_tick cfg + 3) + 2
   | SenderDone \<Rightarrow> 0)"

lemma tick_suc: "unat (t :: u64) < m \<Longrightarrow> m < 2 ^ 64 \<Longrightarrow> unat (t + 1) = Suc (unat t)"
  by (subst unat_word_ariths(1)) simp

lemma sender_turn_inv:
  assumes "rng_ok g" and "sender_inv cfg m s"
  shows "\<exists>s'. sender_turn g cfg clk sel s = Some s' \<and> sender_inv cfg m s' \<and>
     (s_pc s = SenderDone \<and> s' = s \<or> sender_work cfg m s' < sender_work cfg m s) \<and>
     (s_pc s' = SenderDone \<longrightarrow> s_pc s = SenderDone \<or> sel \<noteq> Proceeds \<or>
        length (s_sent s') = m * packets_per_tick cfg)"
proof (cases "s_pc s")
  case TickStart
  note inv = assms(2) [unfolded sender_inv_def TickStart, simplified]
  have lim: "(of_nat m :: u64) \<le> s_tick s \<longleftrightarrow> m \<le> unat (s_tick s)"
    using inv by (simp add: word_le_nat_alt unat_of_nat take_bit_nat_eq_self)
  show ?thesis
  proof (cases "m \<le> unat (s_tick s)")
    case True
    then have "unat (s_tick s) = m" using inv by simp
    with True lim inv TickStart show ?thesis
      by (simp add: sender_turn_def sender_inv_def sender_work_def)
  next
    case False
    obtain ps r' where g: "generate g clk (packets_per_tick cfg) (s_rng s) = Some (ps, r')"
      "length ps = packets_per_tick cfg" "\<forall>p \<in> set ps. synthetic p"
      using generate_total [OF assms(1)] by blast
    have "m - unat (s_tick s) = Suc (m - Suc (unat (s_tick s)))" using False by simp
    with False lim inv TickStart g show ?thesis
      by (simp add: sender_turn_def sender_inv_def sender_work_def)
  qed
next
  case (SendingTick todo)
  note inv = assms(2) [unfolded sender_inv_def SendingTick, simplified]
  then have t: "unat (s_tick s + 1) = Suc (unat (s_tick s))" using tick_suc [of "s_tick s" m] by simp
  show ?thesis
  proof (cases todo)
    case Nil
    with inv SendingTick t show ?thesis
      by (simp add: sender_turn_def sender_inv_def sender_work_def)
  next
    case (Cons raw rest)
    have "Suc (unat (s_tick s)) * packets_per_tick cfg \<le> m * packets_per_tick cfg"
      using inv by (intro mult_le_mono1) simp
    with Cons inv SendingTick show ?thesis
      by (cases sel) (auto simp: sender_turn_def sender_inv_def sender_work_def)
  qed
next
  case Asleep
  have "unat (s_tick s) * packets_per_tick cfg \<le> m * packets_per_tick cfg"
    using assms(2) by (intro mult_le_mono1) (simp add: sender_inv_def)
  with Asleep assms(2) show ?thesis
    by (auto simp: sender_turn_def sender_inv_def sender_work_def)
qed (use assms(2) in \<open>simp add: sender_turn_def\<close>)

lemma sender_run_inv:
  assumes "rng_ok g"
  shows "sender_inv cfg m s \<Longrightarrow> \<exists>s'. run_test_sender g cfg es s = Some s' \<and> sender_inv cfg m s' \<and>
     (s_pc s' = SenderDone \<or> sender_work cfg m s' + length es \<le> sender_work cfg m s) \<and>
     (s_pc s' = SenderDone \<longrightarrow> s_pc s = SenderDone \<or> (\<exists>e \<in> set es. snd e \<noteq> Proceeds) \<or>
        length (s_sent s') = m * packets_per_tick cfg)"
proof (induction es arbitrary: s)
  case (Cons e es)
  obtain clk sel where e: "e = (clk, sel)" by (cases e)
  obtain s1 where s1: "sender_turn g cfg clk sel s = Some s1" "sender_inv cfg m s1"
    "s_pc s = SenderDone \<and> s1 = s \<or> sender_work cfg m s1 < sender_work cfg m s"
    "s_pc s1 = SenderDone \<longrightarrow> s_pc s = SenderDone \<or> sel \<noteq> Proceeds \<or> length (s_sent s1) = m * packets_per_tick cfg"
    using sender_turn_inv [OF assms Cons.prems] by blast
  have stay: "run_test_sender g cfg es t = Some t" if "s_pc t = SenderDone" for t
    using that by (induction es) (auto simp: sender_turn_def)
  obtain s' where s': "run_test_sender g cfg es s1 = Some s'" "sender_inv cfg m s'"
    "s_pc s' = SenderDone \<or> sender_work cfg m s' + length es \<le> sender_work cfg m s1"
    "s_pc s' = SenderDone \<longrightarrow> s_pc s1 = SenderDone \<or> (\<exists>e \<in> set es. snd e \<noteq> Proceeds) \<or>
        length (s_sent s') = m * packets_per_tick cfg"
    using Cons.IH [OF s1(2)] by blast
  have "s_pc s1 = SenderDone \<Longrightarrow> s' = s1" using stay [of s1] s'(1) by simp
  with s1 s' show ?case by (auto simp: e)
qed simp

section \<open>Properties\<close>


text \<open>With a limit on its ticks the test sender stops: whatever its waits yield, it
  is finished after at most one turn more than the limit times three plus the packets of a tick,
  having sent at most the limit times the packets of a tick, and exactly that many when nothing
  interrupts it; all of them are well-formed synthetic packets.\<close>

theorem test_sender_stops:
  assumes "rng_ok g" and "max_ticks cfg = Some limit"
    and "unat limit * (packets_per_tick cfg + 3) < length es"
  shows "\<exists>s. run_test_sender g cfg es (sender_init r) = Some s \<and> s_pc s = SenderDone \<and>
     (\<forall>p \<in> set (s_sent s). synthetic p) \<and> length (s_sent s) \<le> unat limit * packets_per_tick cfg \<and>
     ((\<forall>e \<in> set es. snd e = Proceeds) \<longrightarrow> length (s_sent s) = unat limit * packets_per_tick cfg)"
proof -
  have inv: "sender_inv cfg (unat limit) (sender_init r)"
    using assms(2) unsigned_less [where 'a = nat, of limit] by (simp add: sender_inv_def sender_init_def)
  have work: "sender_work cfg (unat limit) (sender_init r) = unat limit * (packets_per_tick cfg + 3) + 1"
    by (simp add: sender_work_def sender_init_def)
  have pos: "s_pc s \<noteq> SenderDone \<Longrightarrow> 0 < sender_work cfg m s" for m and s :: "'a sender_state"
    by (cases "s_pc s") (simp_all add: sender_work_def)
  obtain s where s: "run_test_sender g cfg es (sender_init r) = Some s" "sender_inv cfg (unat limit) s"
    "s_pc s = SenderDone \<or> sender_work cfg (unat limit) s + length es \<le> unat limit * (packets_per_tick cfg + 3) + 1"
    "s_pc s = SenderDone \<longrightarrow> s_pc (sender_init r) = SenderDone \<or> (\<exists>e \<in> set es. snd e \<noteq> Proceeds) \<or>
        length (s_sent s) = unat limit * packets_per_tick cfg"
    using sender_run_inv [OF assms(1) inv, of es, unfolded work] by blast
  have "s_pc s = SenderDone" using s(3) pos [of s "unat limit"] assms(3) by linarith
  with s show ?thesis by (auto simp: sender_inv_def sender_init_def)
qed

section \<open>Instances\<close>

definition demo_rng :: "unit rng" where
  "demo_rng = \<lparr>random_range = (\<lambda>lo hi r. (hi, r)), random_byte = (\<lambda>r. (7, r))\<rparr>"

lemma demo_rng_ok: "rng_ok demo_rng"
  by (simp add: rng_ok_def demo_rng_def)


theorem test_sender_stops_witness:
  "\<exists>s. run_test_sender demo_rng \<lparr>packets_per_tick = 2, tick_interval = from_millis 200, max_ticks = Some 3\<rparr>
       (replicate 16 (\<lambda>_. 0, Proceeds)) (sender_init ()) = Some s \<and> s_pc s = SenderDone \<and> length (s_sent s) = 6"
  using test_sender_stops [OF demo_rng_ok, of "\<lparr>packets_per_tick = 2, tick_interval = from_millis 200, max_ticks = Some 3\<rparr>"
      3 "replicate 16 (\<lambda>_. 0, Proceeds)" "()"]
  by auto

end
