(* ===== verification/Startup.thy ===== *)
theory Startup
  imports Lifecycle Geo AgentIdentity TestSender
begin

text \<open>
  \<open>main\<close> of \<open>main.rs\<close> up to the point where everything runs, from the command line, the
  environment variables and the files: what it prints, what stops it, and the process it starts,
  which \<open>Lifecycle\<close> takes on.  What is shown reaches from the files to the packets that leave the
  process, and from one run of the process to the next.
\<close>

section \<open>The engine that \<open>main\<close> builds\<close>

text \<open>\<open>main\<close> loads the baseline, then the blacklists from the files that are configured and
  readable, and constructs the engine.\<close>

definition main_engine ::
  "'b bloom \<Rightarrow> (bytes \<Rightarrow> bytes) \<Rightarrow> json_api \<Rightarrow> disk \<Rightarrow> int \<Rightarrow> bytes option \<Rightarrow> bytes option \<Rightarrow> bytes option \<Rightarrow> 'b engine"
where
  "main_engine B lc js disk now baseline_path ip_list_path domain_list_path =
     (let baseline = Baseline_new js disk now baseline_path;
          bl0 = Blacklist_new B;
          bl1 = (case Option.bind ip_list_path disk of
                   Some content \<Rightarrow> Blacklist_load_ip_list B content bl0 | None \<Rightarrow> bl0);
          bl2 = (case Option.bind domain_list_path disk of
                   Some content \<Rightarrow> Blacklist_load_domain_list lc content bl1 | None \<Rightarrow> bl1)
      in IdsEngine_new baseline bl2)"

lemma main_engine_fresh: "fresh (main_engine B lc js disk now bp ip dp)"
  by (auto simp: main_engine_def Let_def fresh_def)

lemmas main_engine_inv = fresh_inv [OF main_engine_fresh]

text \<open>No analysis and no sweep changes the blacklist or the scanner.\<close>

lemma sweep_keeps:
  "e_blacklist (fst (sweeper_tick js ok1 ok2 clk (e, d))) = e_blacklist e"
  "e_payload (fst (sweeper_tick js ok1 ok2 clk (e, d))) = e_payload e"
  by (simp_all add: sweeper_tick_def Let_def split_beta)

lemma analyze_keeps:
  assumes "ac_ok (env_ac env)" and "e_payload e = PayloadScanner_new"
    and "IdsEngine_analyze env clk pkt e = Some (r, e')"
  shows "e_blacklist e' = e_blacklist e \<and> e_payload e' = e_payload e"
proof (cases "transport pkt")
  case None
  then show ?thesis using assms(3) by (simp add: IdsEngine_analyze_def)
next
  case (Some tm)
  then show ?thesis using assms(3) analyze_findings [OF assms(1,2) Some, of clk] by (auto simp: next_engine_def)
qed

lemma run_keeps:
  assumes "ac_ok (env_ac env)"
  shows "e_payload e = PayloadScanner_new \<Longrightarrow> engine_run js env es (e, d) = Some (rs, e', d') \<Longrightarrow>
     e_blacklist e' = e_blacklist e \<and> e_payload e' = PayloadScanner_new"
proof (induction es arbitrary: e d rs)
  case (Cons ev es)
  show ?case
  proof (cases ev)
    case (Analyze clk pkt)
    with Cons.prems(2) obtain r e1 rs1 where a: "IdsEngine_analyze env clk pkt e = Some (r, e1)"
      "engine_run js env es (e1, d) = Some (rs1, e', d')"
      by (auto simp: bind_eq_Some_conv)
    from analyze_keeps [OF assms Cons.prems(1) a(1)] Cons.prems(1) Cons.IH [OF _ a(2)] show ?thesis by simp
  next
    case (SweepTick ok1 ok2 clk)
    obtain e1 d1 where t: "sweeper_tick js ok1 ok2 clk (e, d) = (e1, d1)" by force
    with sweep_keeps [of js ok1 ok2 clk e d] Cons SweepTick show ?thesis by simp
  qed
qed simp

text \<open>What the two files list.  A file that is not configured or not readable lists nothing.\<close>

definition ip_listed :: "bytes option \<Rightarrow> ip_addr \<Rightarrow> bool" where
  "ip_listed file ip \<longleftrightarrow> (\<exists>content a b c d. file = Some content \<and> ip = V4 a b c d \<and>
     (\<exists>l \<in> set (str_lines content). line_blocks l (u32_from_ipv4 a b c d)))"

definition domain_listed :: "(bytes \<Rightarrow> bytes) \<Rightarrow> bytes option \<Rightarrow> bytes \<Rightarrow> bool" where
  "domain_listed lc file name \<longleftrightarrow> (\<exists>content. file = Some content \<and>
     (\<exists>l \<in> set (str_lines content). trim l \<noteq> [] \<and> \<not> starts_with 0x23 (trim l) \<and>
        normal_domain lc (trim l) = normal_domain lc name))"

lemma main_engine_blacklist:
  "e_blacklist (main_engine B lc js disk now bp ip dp) =
     bl_run B lc (map LoadIps (opt_list (Option.bind ip disk)) @ map LoadDomains (opt_list (Option.bind dp disk)))"
  by (simp add: main_engine_def IdsEngine_new_def Let_def bl_run_def split: option.split)

lemma main_engine_ip:
  assumes "bloom_ok B"
  shows "Blacklist_check_ip B x (e_blacklist (main_engine B lc js disk now bp ip dp)) \<noteq> None \<longleftrightarrow>
     ip_listed (Option.bind ip disk) x"
proof (cases x)
  case (V4 a b c d)
  show ?thesis
    unfolding main_engine_blacklist V4 blacklist_ip_run [OF assms]
    by (cases "Option.bind ip disk"; cases "Option.bind dp disk") (simp_all add: ip_listed_def del: u32_from_ipv4.simps)
qed (simp add: ip_listed_def)

lemma main_engine_domain:
  "Blacklist_check_domain lc name (e_blacklist (main_engine B lc js disk now bp ip dp)) \<noteq> None \<longleftrightarrow>
     domain_listed lc (Option.bind dp disk) name"
  unfolding main_engine_blacklist blacklist_domain_run
  by (cases "Option.bind ip disk"; cases "Option.bind dp disk") (auto simp: domain_listed_def)

lemma addresses_listed:
  assumes "(a, b, c, d) \<in> set addrs"
  shows "ip_listed (Some (join [0x0A] (map addr_text addrs))) (V4 a b c d)"
proof -
  have "addrs \<noteq> []" using assms by auto
  then have "str_lines (join [0x0A] (map addr_text addrs)) = map addr_text addrs"
    using ipv4_numeric by (intro str_lines_join) auto
  then show ?thesis using assms addr_line_blocks [of "(a, b, c, d)" a b c d]
    by (auto simp: ip_listed_def simp del: u32_from_ipv4.simps addr_text.simps)
qed

lemma blacklisted_with:
  assumes "ac_ok (env_ac env)" and "e_payload e = PayloadScanner_new" and "\<forall>s \<in> set S. whole_score s"
    and "Blacklist_check_ip (env_bloom env) (src_ip tm) (e_blacklist e) \<noteq> None \<or>
      Blacklist_check_ip (env_bloom env) (dst_ip tm) (e_blacklist e) \<noteq> None"
  shows "90 \<le> total_score (packet_result_with env clk pkt tm e S) \<and> flag_reason (packet_result_with env clk pkt tm e S) = 7"
proof -
  obtain s where s: "(7, s) \<in> set (blacklist_findings env e tm)" "sig_score s = 90" "blacklist_findings env e tm \<noteq> []"
    by (rule blacklisted_finding) (rule assms(4))
  have "90 \<le> total_score (packet_result_with env clk pkt tm e S)"
    using total_ge_finding_with [OF assms(1-3), of 7 s] s(1,2) by (simp add: findings_with_def)
  then show ?thesis using s(3) by (simp add: packet_result_with_def first_reason_with)
qed

lemma blacklisted_result:
  assumes "ac_ok (env_ac env)" and "e_payload e = PayloadScanner_new" and "transport pkt = Some tm"
    and "Blacklist_check_ip (env_bloom env) (src_ip tm) (e_blacklist e) \<noteq> None \<or>
      Blacklist_check_ip (env_bloom env) (dst_ip tm) (e_blacklist e) \<noteq> None"
  shows "\<exists>r e'. IdsEngine_analyze env clk pkt e = Some (r, e') \<and> 90 \<le> total_score r \<and> flag_reason r = 7"
  using analyze_findings [OF assms(1-3)] blacklisted_with [OF assms(1,2) _ assms(4)]
  by (simp add: packet_result_with syn_inspection_whole)

text \<open>A listed address raises an alert for ever: if the file of blacklisted addresses that
  \<open>main\<close> loads lists an address, then after any number of packets and sweeps every packet
  from it scores at least 90, with the blacklist reason.\<close>

theorem listed_address_alerts:
  assumes "bloom_ok (env_bloom env)" and "ac_ok (env_ac env)"
    and "disk p = Some (join [0x0A] (map addr_text addrs))" and "(a, b, c, d) \<in> set addrs"
    and "engine_run js env es (main_engine (env_bloom env) (env_lc env) js disk now bp (Some p) dp, disk) = Some (rs, e, disk')"
    and "transport pkt = Some tm" and "src_ip tm = V4 a b c d"
  shows "\<exists>r e'. IdsEngine_analyze env clk pkt e = Some (r, e') \<and> 90 \<le> total_score r \<and> flag_reason r = 7"
proof -
  let ?e0 = "main_engine (env_bloom env) (env_lc env) js disk now bp (Some p) dp"
  have "e_payload ?e0 = PayloadScanner_new" by (simp add: main_engine_def IdsEngine_new_def Let_def)
  from run_keeps [OF assms(2) this assms(5)]
  have keep: "e_blacklist e = e_blacklist ?e0" "e_payload e = PayloadScanner_new" by blast+
  have "ip_listed (Option.bind (Some p) disk) (src_ip tm)"
    using addresses_listed [OF assms(4)] by (simp add: assms(3,7))
  then have "Blacklist_check_ip (env_bloom env) (src_ip tm) (e_blacklist e) \<noteq> None"
    unfolding keep(1) main_engine_ip [OF assms(1)] .
  then show ?thesis using blacklisted_result [OF assms(2) keep(2) assms(6)] by blast
qed

theorem listed_address_alerts_witness:
  "\<exists>rs e d r e'. engine_run demo_json demo_env [Analyze demo_clock demo_packet, SweepTick True True demo_sweep]
       (main_engine low_byte_bloom (map ascii_lower) demo_json
          (\<lambda>_. Some (join [0x0A] (map addr_text [(10, 0, 0, 66)]))) 0 None (Some []) None,
        \<lambda>_. Some (join [0x0A] (map addr_text [(10, 0, 0, 66)]))) = Some (rs, e, d) \<and>
     IdsEngine_analyze demo_env demo_clock demo_packet e = Some (r, e') \<and> 90 \<le> total_score r"
proof -
  let ?disk = "\<lambda>_. Some (join [0x0A] (map addr_text [(10, 0, 0, 66)]))"
  let ?e = "main_engine (env_bloom demo_env) (env_lc demo_env) demo_json ?disk 0 None (Some []) None"
  have env: "env_bloom demo_env = low_byte_bloom" "env_lc demo_env = map ascii_lower" by (simp_all add: demo_env_def)
  have "engine_inv ?e" by (rule main_engine_inv)
  then obtain rs e d where run: "engine_run demo_json demo_env
      [Analyze demo_clock demo_packet, SweepTick True True demo_sweep] (?e, ?disk) = Some (rs, e, d)"
    using engine_run_total [OF demo_env_ok] by blast
  have "bloom_ok (env_bloom demo_env)" "src_ip demo_meta = V4 10 0 0 66"
    by (simp_all add: env low_byte_bloom_ok demo_meta_def)
  from listed_address_alerts [OF this(1) demo_env_ok refl _ run demo_transport this(2), of demo_clock] run show ?thesis
    unfolding env by auto
qed

lemma scored_listed:
  assumes "bloom_ok (env_bloom env)" and "ac_ok (env_ac env)"
    and "scored env C (e_blacklist (main_engine (env_bloom env) (env_lc env) js disk now bp ip dp)) pkt"
    and "transport pkt = Some tm"
    and "ip_listed (Option.bind ip disk) (src_ip tm) \<or> ip_listed (Option.bind ip disk) (dst_ip tm)"
  shows "90 \<le> ids_score pkt \<and> ids_flag pkt = 7"
proof -
  let ?e = "main_engine (env_bloom env) (env_lc env) js disk now bp ip dp"
  obtain raw r where raw: "unscored raw = unscored pkt" "analysed env C (e_blacklist ?e) raw r"
    "ids_score pkt = total_score r" "ids_flag pkt = flag_reason r" using assms(3) by (auto simp: scored_def)
  have "transport raw = Some tm" using assms(4) raw(1) by (metis unscored_transport)
  then obtain clk f S where f: "engine_inv f" "e_blacklist f = e_blacklist ?e" "syn_answer tm S"
    "r = packet_result_with env clk raw tm f S" using raw(2) by (auto simp: analysed_def view_ok_def)
  have "Blacklist_check_ip (env_bloom env) (src_ip tm) (e_blacklist f) \<noteq> None \<or>
      Blacklist_check_ip (env_bloom env) (dst_ip tm) (e_blacklist f) \<noteq> None"
    unfolding f(2) main_engine_ip [OF assms(1)] by (rule assms(5))
  from blacklisted_with [OF assms(2) _ syn_answer_whole [OF f(3)] this, of clk raw] f(1,4) raw(3,4) show ?thesis
    by (simp add: engine_inv_def)
qed

text \<open>Every packet from a listed address leaves the pipeline as an alert: if the file of
  blacklisted addresses that \<open>main\<close> loads lists an address, then whatever the interleaving of the
  capture thread, the workers, the sweeper and the receiver, every packet from it that reaches
  the receiver carries a score of at least 90 and the blacklist reason.\<close>

theorem listed_traffic_flagged:
  assumes "bloom_ok (env_bloom env)" and "ac_ok (env_ac env)" and "chan_ok ch" and "0 < n" and "queued ch q = []"
    and "disk p = Some (join [0x0A] (map addr_text addrs))" and "(a, b, c, d) \<in> set addrs"
    and "main_engine (env_bloom env) (env_lc env) js disk now bp (Some p) dp = e" and "fresh e"
    and "pipe_reach js env ch (pipe_init n e q) s"
    and "pkt \<in> set (p_received s)" and "transport pkt = Some tm" and "src_ip tm = V4 a b c d"
  shows "90 \<le> ids_score pkt \<and> ids_flag pkt = 7"
proof -
  have "scored env (scan_pairs (p_captured s)) (e_blacklist e) pkt" using pipe_received [OF assms(2-4,9,5,10)] assms(11) by blast
  then show ?thesis
    unfolding assms(8) [symmetric]
    by (rule scored_listed [OF assms(1,2) _ assms(12)])
      (simp add: assms(6,13) addresses_listed [OF assms(7)] del: addr_text.simps)
qed

theorem listed_traffic_flagged_witness:
  "\<exists>s :: (u8 set, raw_packet list) pipe. length (p_received s) = 1 \<and>
     (\<forall>pkt \<in> set (p_received s). 90 \<le> ids_score pkt \<and> ids_flag pkt = 7)"
proof -
  let ?disk = "\<lambda>_. Some (join [0x0A] (map addr_text [(10, 0, 0, 66)]))"
  let ?e = "main_engine (env_bloom demo_env) (env_lc demo_env) demo_json ?disk 0 None (Some []) None"
  have env: "env_bloom demo_env = low_byte_bloom" "env_lc demo_env = map ascii_lower" by (simp_all add: demo_env_def)
  have inv: "fresh ?e" by (rule main_engine_fresh)
  obtain s where s: "pipe_reach demo_json demo_env (list_chan 4) (pipe_init 4 ?e []) s" "length (p_received s) = 1"
    "\<forall>p \<in> set (p_received s). transport p = transport demo_packet"
    using engine_pipe_run [OF inv zero_less_numeral] by blast
  have "bloom_ok (env_bloom demo_env)" "src_ip demo_meta = V4 10 0 0 66" "queued (list_chan 4) [] = []"
    by (simp_all add: env low_byte_bloom_ok demo_meta_def list_chan_def)
  from listed_traffic_flagged [OF this(1) demo_env_ok list_chan_ok _ this(3) refl _ refl inv s(1) _ _ this(2)] s(2,3)
  show ?thesis using demo_transport by (intro exI [of _ s]) simp
qed

section \<open>\<open>main\<close>\<close>

text \<open>What \<open>main\<close> reads of its surroundings: the interfaces that libpcap lists, with their descriptions,
  the environment variables that are set (\<open>std::env::var(_).ok()\<close>), the files with their texts, the
  clock, and what the resolution of the identity depends on.\<close>

record 'pe host =
  h_devices :: "'pe + (bytes \<times> bytes option) list"
  h_var :: "bytes \<Rightarrow> bytes option"
  h_disk :: disk
  h_now :: int
  h_home :: "bytes option"
  h_uuid :: bytes
  h_mkdir_ok :: bool
  h_write_ok :: bool
  h_os :: bytes
  h_version :: bytes

text \<open>The libraries: \<open>serde_json\<close>, the MaxMind reader, whether \<open>Channel::from_shared\<close> accepts an
  address, and \<open>mpsc::channel\<close>.\<close>

record ('m, 'me, 'q) libs =
  lb_json :: json_api
  lb_mmdb :: "('m, 'me) mmdb_api"
  lb_uri_ok :: "bytes \<Rightarrow> bool"
  lb_channel :: "usize \<Rightarrow> 'q"

text \<open>The process when everything has been spawned, with the settings of its tasks.\<close>

record ('b, 'q, 'm, 's) process =
  pr_agent :: "('b, 'q) agent"
  pr_agent_id :: bytes
  pr_geo :: "'m geo"
  pr_registered :: "('s status + unit) option"
  pr_stream :: stream_cfg
  pr_heartbeat :: heartbeat_cfg
  pr_test :: "test_sender_cfg option"

datatype ('p, 'pe) main_outcome =
    Listed "message list"
  | ListFailed 'pe
  | BadAddress
  | CapacityPanic
  | Running 'p

definition device_lines :: "(bytes \<times> bytes option) list \<Rightarrow> message list" where
  "device_lines devices =
     [fmt ''{} device(s) found:'' [FNat (length devices)], fmt [] []] @
     concat (map (\<lambda>(i, d). [fmt ''[{}] Name: {}'' [FNat i, FStr (fst d)],
                            fmt ''Description: {}'' [FStr (unwrap_or (snd d) (str ''(none)''))], fmt [] []])
       (enumerate 0 devices))"

definition host_engine :: "('m, 'me, 'q) libs \<Rightarrow> 'b env \<Rightarrow> 'pe host \<Rightarrow> 'b engine" where
  "host_engine L env h =
     main_engine (env_bloom env) (env_lc env) (lb_json L) (h_disk h) (h_now h)
       (h_var h (str ''IDS_BASELINE_PATH'')) (h_var h (str ''IDS_IP_BLACKLIST_PATH''))
       (h_var h (str ''IDS_DOMAIN_BLACKLIST_PATH''))"

definition main_run ::
  "('m, 'me, 'q) libs \<Rightarrow> 'b env \<Rightarrow> (register_request \<Rightarrow> 's + register_response) \<Rightarrow> 'pe host \<Rightarrow> config \<Rightarrow>
     (('b, 'q, 'm, 's) process, 'pe) main_outcome \<times> disk"
where
  "main_run L env rpc h cfg =
     (if list_devices cfg then
        (case h_devices h of
           Inr devices \<Rightarrow> (Listed (device_lines devices), h_disk h)
         | Inl e \<Rightarrow> (ListFailed e, h_disk h))
      else
        let engine = host_engine L env h;
            geo = main_geo (lb_mmdb L) (h_var h (str ''GEOIP_MMDB_PATH''));
            (agent_id, disk) = resolve_identity (cf_agent_id cfg) (h_home h) (h_uuid h) (h_mkdir_ok h) (h_write_ok h) (h_disk h)
        in if \<not> lb_uri_ok L (main_grpc_addr cfg) then (BadAddress, disk)
           else
             let registered = main_register rpc cfg (h_var h (str ''HOSTNAME'')) (h_os h) agent_id (h_version h)
             in (case main_start cfg (lb_channel L) engine disk of
                   None \<Rightarrow> (CapacityPanic, disk)
                 | Some agent \<Rightarrow>
                     (Running \<lparr>pr_agent = agent, pr_agent_id = agent_id, pr_geo = geo, pr_registered = registered,
                        pr_stream = main_stream_cfg cfg agent_id,
                        pr_heartbeat = main_heartbeat_cfg cfg agent_id (h_version h) (h_var h (str ''HOSTNAME'')) (h_os h),
                        pr_test = (if test_send cfg then Some (main_test_cfg cfg) else None)\<rparr>, disk)))"

text \<open>From the command line; \<open>None\<close> if \<open>clap\<close> rejects it.  Every configuration has a command line (unless a variable gives
  a setting it lacks), so the theorems on \<open>main_run\<close> for every configuration are about every command line.\<close>

definition main_program ::
  "('m, 'me, 'q) libs \<Rightarrow> 'b env \<Rightarrow> (register_request \<Rightarrow> 's + register_response) \<Rightarrow> 'pe host \<Rightarrow> cli_arg list \<Rightarrow>
     ((('b, 'q, 'm, 's) process, 'pe) main_outcome \<times> disk) option"
where
  "main_program L env rpc h cli = map_option (main_run L env rpc h) (Config_parse cli (h_var h))"

lemma main_program_config:
  assumes "grpc_addr cfg = None \<longrightarrow> h_var h (str ''GRPC_ADDR'') = None"
    and "register_token cfg = None \<longrightarrow> h_var h (str ''REGISTER_TOKEN'') = None"
  shows "main_program L env rpc h (config_args cfg) = Some (main_run L env rpc h cfg)"
  by (simp add: main_program_def config_roundtrip [of cfg "h_var h", OF assms])

lemma main_run_Running:
  assumes "main_run L env rpc h cfg = (Running p, disk)"
  shows "\<not> list_devices cfg \<and> lb_uri_ok L (main_grpc_addr cfg) \<and> 0 < channel_capacity cfg \<and> channel_capacity cfg \<le> MAX_PERMITS \<and>
     resolve_identity (cf_agent_id cfg) (h_home h) (h_uuid h) (h_mkdir_ok h) (h_write_ok h) (h_disk h) = (pr_agent_id p, disk) \<and>
     pr_geo p = main_geo (lb_mmdb L) (h_var h (str ''GEOIP_MMDB_PATH'')) \<and>
     pr_agent p = agent_init cfg (host_engine L env h) (lb_channel L (channel_capacity cfg)) disk \<and>
     pr_stream p = main_stream_cfg cfg (pr_agent_id p)"
  using assms
  by (auto simp: main_run_def main_start_def Let_def split: if_splits sum.splits prod.splits)

lemma main_run_runs:
  assumes "\<not> list_devices cfg" and "lb_uri_ok L (main_grpc_addr cfg)" and "0 < channel_capacity cfg"
    and "channel_capacity cfg \<le> MAX_PERMITS"
  shows "\<exists>p disk. main_run L env rpc h cfg = (Running p, disk)"
  using assms by (auto simp: main_run_def main_start_def Let_def split: prod.splits)

section \<open>What an engine's threads leave alone\<close>

text \<open>No turn of a worker and no call of the sweeper changes where the baseline is saved.\<close>

lemma observe_path: "persist_path (observe lc ob b) = persist_path b"
  by (cases ob) (simp_all add: observe_defs)

lemma stage_turn_path:
  "stage_turn env clk pkt tm e st = Some (e', st') \<Longrightarrow> persist_path (e_baseline e') = persist_path (e_baseline e)"
  by (cases st) (auto simp: stage_turn_def Let_def bind_eq_Some_conv observe_path dest: detector_turn_baseline
      split: prod.splits list.splits if_splits)

lemma worker_turn_path:
  "worker_turn env clk e w = Some (e', w') \<Longrightarrow> persist_path (e_baseline e') = persist_path (e_baseline e)"
  by (auto simp: worker_turn_def bind_eq_Some_conv dest: stage_turn_path split: option.splits)

lemma analyzer_turn_path:
  assumes "analyzer_turn env ch s s'"
  shows "persist_path (e_baseline (p_engine s')) = persist_path (e_baseline (p_engine s))"
  using assms
  by (cases rule: analyzer_turn.cases)
    (auto simp: drain_turn_def pop_turn_def collect_turn_def forward_turn_def score_turn_def Let_def bind_eq_Some_conv
      dest: worker_turn_path split: prod.splits pop_turn.splits option.splits list.splits)

text \<open>The sweeper writes no file but that one.\<close>

lemma persist_other: "persist_path b = Some path \<Longrightarrow> q \<noteq> path \<Longrightarrow> Baseline_persist js ok b d q = d q"
  by (simp add: Baseline_persist_def split: option.split)

lemma sweeper_call_files:
  assumes "sweeper_call js call (e, d) = (e', d')" and "persist_path (e_baseline e) = Some path"
  shows "persist_path (e_baseline e') = Some path \<and> (\<forall>q. q \<noteq> path \<longrightarrow> d' q = d q)"
proof (cases call)
  case (TickPhase t u)
  then show ?thesis using assms by (auto simp: enter_refinement_def)
qed (use assms in \<open>auto simp: persist_other\<close>)

definition saves_to :: "bytes \<Rightarrow> disk \<Rightarrow> ('b, 'q) agent \<Rightarrow> bool" where
  "saves_to path disk s \<longleftrightarrow> persist_path (e_baseline (p_engine (ag_pipe s))) = Some path \<and>
     (\<forall>q. q \<noteq> path \<longrightarrow> ag_disk s q = disk q)"

lemma saves_to_step:
  assumes "saves_to path disk s" and "agent_step js env ch s s'" shows "saves_to path disk s'"
  using assms(2)
proof (cases rule: agent_step.cases)
  case (analyzes t)
  then show ?thesis using assms(1) analyzer_turn_path [of env ch "ag_pipe s" t] by (simp add: saves_to_def)
next
  case (sweeps call e d)
  then show ?thesis using assms(1) sweeper_call_files [OF sweeps(2)] by (auto simp: saves_to_def)
qed (use assms(1) in \<open>auto simp: saves_to_def clean_exit_def persist_other\<close>)

lemma saves_to_reach: "agent_reach js env ch s t \<Longrightarrow> saves_to path disk s \<Longrightarrow> saves_to path disk t"
  by (induction rule: rtranclp_induct) (auto intro: saves_to_step)

text \<open>What the stream has received comes from the capture, scored by an engine with the blacklist of the
  start.\<close>

lemma process_pipe:
  assumes "ac_ok (env_ac env)" and "chan_ok ch"
    and "main_run L env rpc h cfg = (Running p, disk)" and "\<not> test_send cfg"
    and "queued ch (lb_channel L (channel_capacity cfg)) = []"
    and "agent_reach (lb_json L) (geo_env (lb_mmdb L) (pr_geo p) env) ch (pr_agent p) s"
  shows "subseq (map unscored (p_received (ag_pipe s))) (map unscored (p_captured (ag_pipe s))) \<and>
     (\<forall>q \<in> set (p_received (ag_pipe s)).
        scored (geo_env (lb_mmdb L) (pr_geo p) env) (scan_pairs (p_captured (ag_pipe s)))
          (e_blacklist (host_engine L env h)) q \<and> 0 \<le> ids_score q \<and> ids_score q \<le> 100)"
proof -
  let ?env = "geo_env (lb_mmdb L) (pr_geo p) env"
  have ac: "ac_ok (env_ac ?env)" using assms(1) by (simp add: geo_env_def)
  have start: "pr_agent p = agent_init cfg (host_engine L env h) (lb_channel L (channel_capacity cfg)) disk"
    using main_run_Running [OF assms(3)] by blast
  have "fresh (host_engine L env h)" unfolding host_engine_def by (rule main_engine_fresh)
  then have "capture_mode ?env (e_blacklist (host_engine L env h)) ch (pr_agent p)"
    unfolding start by (rule capture_mode_init [OF assms(4) _ assms(5)])
  then have "capture_mode ?env (e_blacklist (host_engine L env h)) ch s"
    by (rule capture_mode_reach [OF ac assms(2,6)])
  then show ?thesis unfolding capture_mode_def by (intro pipe_inv_received [OF ac]) blast
qed

section \<open>Properties of the process\<close>

text \<open>The text of the file that a variable names.\<close>

definition host_file :: "'pe host \<Rightarrow> bytes \<Rightarrow> bytes option" where
  "host_file h var = Option.bind (h_var h var) (h_disk h)"

text \<open>C7 (safety). From the file to the wire: in every run of the process that captures, from
  \<open>main\<close> on and whatever its threads do in whatever order, Ctrl-C included, every packet that the
  stream receives and whose source or destination the file named by \<open>IDS_IP_BLACKLIST_PATH\<close> lists
  (by its address or by a block that contains it) carries a score of at least 90 and the
  blacklist reason.\<close>

theorem process_flags_listed:
  assumes "bloom_ok (env_bloom env)" and "ac_ok (env_ac env)" and "chan_ok ch"
    and "main_run L env rpc h cfg = (Running p, disk)" and "\<not> test_send cfg"
    and "queued ch (lb_channel L (channel_capacity cfg)) = []"
    and "agent_reach (lb_json L) (geo_env (lb_mmdb L) (pr_geo p) env) ch (pr_agent p) s"
    and "pkt \<in> set (p_received (ag_pipe s))" and "transport pkt = Some tm"
    and "ip_listed (host_file h (str ''IDS_IP_BLACKLIST_PATH'')) (src_ip tm) \<or>
      ip_listed (host_file h (str ''IDS_IP_BLACKLIST_PATH'')) (dst_ip tm)"
  shows "90 \<le> ids_score pkt \<and> ids_flag pkt = 7"
proof -
  let ?env = "geo_env (lb_mmdb L) (pr_geo p) env"
  have env: "env_bloom ?env = env_bloom env" "env_lc ?env = env_lc env" "env_ac ?env = env_ac env"
    by (simp_all add: geo_env_def)
  have ac: "bloom_ok (env_bloom ?env)" "ac_ok (env_ac ?env)" unfolding env by (rule assms(1), rule assms(2))
  have "scored ?env (scan_pairs (p_captured (ag_pipe s))) (e_blacklist (host_engine L env h)) pkt"
    using process_pipe [OF assms(2-7)] assms(8) by blast
  then show ?thesis
    unfolding host_engine_def env(1,2) [symmetric]
    by (rule scored_listed [OF ac _ assms(9)]) (use assms(10) in \<open>simp add: host_file_def\<close>)
qed

text \<open>C12 (roundtrip). A restart continues where the last save left off.  Take a process without
  \<open>--agent-id\<close>, with a home directory, with \<open>IDS_BASELINE_PATH\<close> set to another file than that of the
  identity, whose first start could create and write the file of the identity.  Whatever it did
  since \<open>main\<close>, and whenever the sweeper then succeeds in saving the baseline, in a state that
  \<open>serde_json\<close> reads back, a process that is started with the same settings from the files of that
  moment starts too, knows the same ports, addresses, countries and domains, and has the same
  identity, whatever UUID it would generate and even if it cannot write itself.\<close>

theorem restart_faithful:
  assumes "main_run L env rpc h cfg = (Running p, disk)"
    and "h_var h (str ''IDS_BASELINE_PATH'') = Some path"
    and "cf_agent_id cfg = None" and "h_home h = Some home" and "identity_path (Some home) \<noteq> Some path"
    and "uuid_text (h_uuid h)" and "h_mkdir_ok h" and "h_write_ok h"
    and "agent_reach (lb_json L) env' ch (pr_agent p) s"
    and "json_keeps (lb_json L) (bl_state (e_baseline (p_engine (ag_pipe s))))"
    and "sweeper_call (lb_json L) (Persist True) (p_engine (ag_pipe s), ag_disk s) = (e, saved)"
    and "h_var h' = h_var h" and "h_home h' = h_home h" and "h_disk h' = saved"
  shows "\<exists>p' disk'. main_run L env rpc h' cfg = (Running p', disk') \<and> pr_agent_id p' = pr_agent_id p \<and>
     same_knowledge (bl_state (e_baseline (p_engine (ag_pipe s)))) (bl_state (e_baseline (p_engine (ag_pipe (pr_agent p')))))"
proof -
  note run = main_run_Running [OF assms(1)]
  have "saves_to path disk (pr_agent p)"
    using run by (simp add: saves_to_def agent_init_def pipe_init_def host_engine_def main_engine_def
        IdsEngine_new_def Baseline_new_def assms(2) Let_def)
  then have inv: "persist_path (e_baseline (p_engine (ag_pipe s))) = Some path" "\<And>q. q \<noteq> path \<Longrightarrow> ag_disk s q = disk q"
    using saves_to_reach [OF assms(9)] by (auto simp: saves_to_def)
  have saved: "saved = Baseline_persist (lb_json L) True (e_baseline (p_engine (ag_pipe s))) (ag_disk s)"
    using assms(11) by auto
  have id1: "resolve_identity None (Some home) (h_uuid h) True True (h_disk h) = (pr_agent_id p, disk)"
    using run assms(3,4,7,8) by simp
  have "\<exists>p' disk'. main_run L env rpc h' cfg = (Running p', disk')"
    by (rule main_run_runs) (use run in simp_all)
  then obtain p' disk' where p': "main_run L env rpc h' cfg = (Running p', disk')" by (elim exE)
  note run' = main_run_Running [OF p']
  have "resolve_identity None (Some home) (h_uuid h') (h_mkdir_ok h') (h_write_ok h') saved = (pr_agent_id p, saved)"
    by (rule identity_kept [OF assms(6) id1]) (use inv(2) assms(5) persist_other [OF inv(1)] saved in auto)
  then have "pr_agent_id p' = pr_agent_id p" using run' assms(3,4,13,14) by simp
  moreover have "e_baseline (p_engine (ag_pipe (pr_agent p'))) = Baseline_new (lb_json L) saved (h_now h') (Some path)"
    using run' by (simp add: agent_init_def pipe_init_def host_engine_def main_engine_def IdsEngine_new_def
        assms(2,12,14) Let_def)
  ultimately show ?thesis using p' reload [OF assms(10) inv(1)] unfolding saved by metis
qed

section \<open>Instances\<close>

definition demo_libs :: "(unit, unit, raw_packet list) libs" where
  "demo_libs = \<lparr>lb_json = demo_json, lb_mmdb = \<lparr>open_readfile = (\<lambda>_. Inl ()), lookup = (\<lambda>_ _. Inl ())\<rparr>,
     lb_uri_ok = (\<lambda>_. True), lb_channel = (\<lambda>_. [])\<rparr>"

text \<open>A host with one variable, which names the only file.\<close>

definition demo_host :: "bytes \<Rightarrow> bytes \<Rightarrow> unit host" where
  "demo_host var content =
     \<lparr>h_devices = Inr [], h_var = (\<lambda>v. if v = var then Some [] else None),
      h_disk = (\<lambda>q. if q = [] then Some content else None), h_now = 0, h_home = Some (str ''/root''),
      h_uuid = str ''ab-12'', h_mkdir_ok = True, h_write_ok = True, h_os = [], h_version = []\<rparr>"

lemma demo_geo: "geo_env (lb_mmdb demo_libs) (main_geo (lb_mmdb demo_libs) p) demo_env = demo_env"
  by (simp add: geo_env_def main_geo_def demo_libs_def GeoDetector_load_def GeoDetector_new_def
      GeoDetector_country_code_def demo_env_def fun_eq_iff split: option.split)

lemma demo_runs:
  fixes rpc :: "register_request \<Rightarrow> unit + register_response"
  obtains p disk where "main_run demo_libs demo_env rpc (demo_host var content) (demo_config test) = (Running p, disk)"
proof -
  have "\<exists>p disk. main_run demo_libs demo_env rpc (demo_host var content) (demo_config test) = (Running p, disk)"
    by (rule main_run_runs) (simp_all add: demo_config_def demo_libs_def MAX_PERMITS_def)
  then show ?thesis using that by blast
qed

lemma demo_process:
  obtains p d and s :: "(u8 set, raw_packet list) agent" where
    "main_run demo_libs demo_env (\<lambda>_. Inl ()) (demo_host var content) (demo_config False) = (Running p, d)"
    "agent_reach demo_json demo_env (list_chan 4) (pr_agent p) s" "length (p_received (ag_pipe s)) = 1"
    "\<forall>q \<in> set (p_received (ag_pipe s)). transport q = transport demo_packet"
    "geo_env (lb_mmdb demo_libs) (pr_geo p) demo_env = demo_env" "queued (list_chan 4) (lb_channel demo_libs 64) = []"
proof -
  let ?e = "host_engine demo_libs demo_env (demo_host var content)"
  obtain p d where p: "main_run demo_libs demo_env (\<lambda>_. Inl ()) (demo_host var content) (demo_config False) = (Running p, d)"
    by (rule demo_runs)
  note run = main_run_Running [OF p]
  have start: "ag_pipe (pr_agent p) = pipe_init 4096 ?e []" "ag_capture (pr_agent p) = Capturing"
    "\<not> ag_stream_done (pr_agent p)"
    using run by (simp_all add: agent_init_def demo_config_sel) (simp add: demo_libs_def)
  have "fresh ?e" unfolding host_engine_def by (rule main_engine_fresh)
  from engine_pipe_run [OF this zero_less_numeral] obtain t where t:
    "pipe_reach demo_json demo_env (list_chan 4) (pipe_init 4096 ?e []) t" "length (p_received t) = 1"
    "\<forall>q \<in> set (p_received t). transport q = transport demo_packet" "\<not> closed (p_ring t)" by blast
  obtain s where s: "agent_reach demo_json demo_env (list_chan 4) (pr_agent p) s" "ag_pipe s = t"
    by (rule pipeline_in_process [OF t(1,4) start])
  have "geo_env (lb_mmdb demo_libs) (pr_geo p) demo_env = demo_env" using run demo_geo by simp
  then show ?thesis using that [OF p s(1)] s(2) t(2,3) by (simp add: list_chan_def demo_libs_def)
qed

theorem process_flags_listed_witness:
  "\<exists>p d (s :: (u8 set, raw_packet list) agent).
     main_run demo_libs demo_env (\<lambda>_. Inl ()) (demo_host (str ''IDS_IP_BLACKLIST_PATH'') (join [0x0A] (map addr_text [(10, 0, 0, 66)])))
       (demo_config False) = (Running p, d) \<and>
     agent_reach demo_json demo_env (list_chan 4) (pr_agent p) s \<and> length (p_received (ag_pipe s)) = 1 \<and>
     (\<forall>pkt \<in> set (p_received (ag_pipe s)). 90 \<le> ids_score pkt \<and> ids_flag pkt = 7)"
proof -
  let ?h = "demo_host (str ''IDS_IP_BLACKLIST_PATH'') (join [0x0A] (map addr_text [(10, 0, 0, 66)]))"
  obtain p d and s :: "(u8 set, raw_packet list) agent" where
    p: "main_run demo_libs demo_env (\<lambda>_. Inl ()) ?h (demo_config False) = (Running p, d)"
    and s: "agent_reach demo_json demo_env (list_chan 4) (pr_agent p) s" "length (p_received (ag_pipe s)) = 1"
      "\<forall>q \<in> set (p_received (ag_pipe s)). transport q = transport demo_packet"
    and geo: "geo_env (lb_mmdb demo_libs) (pr_geo p) demo_env = demo_env"
    by (rule demo_process)
  have hyps: "bloom_ok (env_bloom demo_env)" "src_ip demo_meta = V4 10 0 0 66" "queued (list_chan 4) (lb_channel demo_libs n) = []"
    for n
    by (simp_all add: demo_env_def low_byte_bloom_ok demo_meta_def list_chan_def demo_libs_def demo_host_def)
  have listed: "ip_listed (host_file ?h (str ''IDS_IP_BLACKLIST_PATH'')) (V4 10 0 0 66)"
    using addresses_listed [of 10 0 0 66 "[(10, 0, 0, 66)]"] by (simp add: host_file_def demo_host_def del: addr_text.simps)
  have reach: "agent_reach (lb_json demo_libs) (geo_env (lb_mmdb demo_libs) (pr_geo p) demo_env) (list_chan 4) (pr_agent p) s"
    unfolding geo using s(1) by (simp add: demo_libs_def)
  have "90 \<le> ids_score q \<and> ids_flag q = 7" if "q \<in> set (p_received (ag_pipe s))" for q
    using process_flags_listed [OF hyps(1) demo_env_ok list_chan_ok p _ hyps(3) reach that, of demo_meta]
      that s(3) demo_transport listed by (simp add: demo_config_sel hyps(2))
  then show ?thesis using p s(1,2) by blast
qed

theorem restart_faithful_witness:
  "\<exists>p disk p' disk'.
     main_run demo_libs demo_env (\<lambda>_. Inl ()) (demo_host (str ''IDS_BASELINE_PATH'') []) (demo_config False) = (Running p, disk) \<and>
     main_run demo_libs demo_env (\<lambda>_. Inl ())
       ((demo_host (str ''IDS_BASELINE_PATH'') [])\<lparr>h_uuid := [], h_write_ok := False, h_disk := disk([] \<mapsto> [])\<rparr>) (demo_config False) =
       (Running p', disk') \<and> pr_agent_id p' = pr_agent_id p"
proof -
  let ?h = "demo_host (str ''IDS_BASELINE_PATH'') []"
  obtain p disk where p: "main_run demo_libs demo_env (\<lambda>_. Inl ()) ?h (demo_config False) = (Running p, disk)"
    by (rule demo_runs)
  note run = main_run_Running [OF p]
  let ?h' = "?h\<lparr>h_uuid := [], h_write_ok := False, h_disk := disk([] \<mapsto> [])\<rparr>"
  have agent: "ag_disk (pr_agent p) = disk" "bl_state (e_baseline (p_engine (ag_pipe (pr_agent p)))) = demo_state"
    "persist_path (e_baseline (p_engine (ag_pipe (pr_agent p)))) = Some []"
    using run by (simp_all add: agent_init_def pipe_init_def host_engine_def main_engine_def IdsEngine_new_def
        Baseline_new_def demo_libs_def demo_host_def demo_json_def Let_def)
  have h: "h_var ?h (str ''IDS_BASELINE_PATH'') = Some []" "cf_agent_id (demo_config False) = None"
    "h_home ?h = Some (str ''/root'')" "identity_path (Some (str ''/root'')) \<noteq> Some []"
    "uuid_text (h_uuid ?h)" "h_mkdir_ok ?h" "h_write_ok ?h"
    by (simp_all add: demo_host_def demo_config_def identity_path_def str_def uuid_text_def)
  have "json_keeps (lb_json demo_libs) (bl_state (e_baseline (p_engine (ag_pipe (pr_agent p)))))"
    by (simp add: agent json_keeps_def demo_json_def demo_libs_def same_knowledge_def)
  moreover have "sweeper_call (lb_json demo_libs) (Persist True) (p_engine (ag_pipe (pr_agent p)), ag_disk (pr_agent p)) =
      (p_engine (ag_pipe (pr_agent p)), disk([] \<mapsto> []))"
    by (simp add: agent Baseline_persist_def demo_libs_def demo_json_def)
  ultimately obtain p' disk' where
    "main_run demo_libs demo_env (\<lambda>_. Inl ()) ?h' (demo_config False) = (Running p', disk')" "pr_agent_id p' = pr_agent_id p"
    using restart_faithful [OF p h rtranclp.rtrancl_refl, where h' = ?h'] by auto
  with p show ?thesis by blast
qed

end
