(* ===== verification/Alarms.thy ===== *)
theory Alarms imports Startup begin

text \<open>
  What a reason means.  The pipeline writes into each packet a score and a reason
  (\<open>src/src/ids/score.rs\<close>, \<open>src/src/ids/mod.rs\<close>); this theory relates the reason that the stream
  sees to what it stands for: the entry of a blacklist file, the captured traffic, the bytes of
  the packet.  It rests on \<open>scored\<close> of \<open>Analyzer\<close>, which every received packet satisfies, and on
  the contents of the blacklist that \<open>main\<close> loads.
\<close>

section \<open>What each section's finding stands for\<close>

lemma blacklist_findings_nonempty:
  "blacklist_findings env e tm \<noteq> [] \<longleftrightarrow>
     Blacklist_check_ip (env_bloom env) (src_ip tm) (e_blacklist e) \<noteq> None \<or>
     Blacklist_check_ip (env_bloom env) (dst_ip tm) (e_blacklist e) \<noteq> None"
proof -
  have nil: "opt_list x = [] \<longleftrightarrow> x = None" for x :: "signal option" by (cases x) simp_all
  show ?thesis by (simp add: blacklist_findings_def tagged_def nil)
qed

lemma scan_inspection_evidence:
  assumes "view_ok env C bl e" and "pair_in tm C" and "finite C" and "fst (scan_inspection env clk tm e) \<noteq> None"
  shows "\<exists>port. dst_port tm = Some port \<and>
     (20 \<le> card {p. (src_ip tm, p) \<in> C} \<or> 50 \<le> card {s. (s, port) \<in> C})"
proof (cases "dst_port tm")
  case (Some port)
  with assms(2) have "(src_ip tm, port) \<in> C" by (simp add: pair_in_def)
  from scan_evidence [OF view_ok_std(1) [OF assms(1)] this assms(3), of "ec_scan clk"] assms(4) Some
  show ?thesis by (simp add: scan_inspection_def)
qed (use assms(4) in \<open>simp add: scan_inspection_def\<close>)

lemma syn_answer_keys: "syn_answer tm S \<Longrightarrow> S \<noteq> [] \<Longrightarrow> syn_keys tm \<noteq> None"
  by (cases "syn_keys tm") (simp_all add: syn_answer_def)

lemma geo_signal_country: "geo_signal c b tm \<noteq> None \<Longrightarrow> \<exists>code. c = Some code \<and> \<not> Baseline_is_known_country code b"
  by (auto simp: geo_signal_def split: option.splits if_splits)

definition carries_signature :: "raw_packet \<Rightarrow> transport_meta \<Rightarrow> bool" where
  "carries_signature pkt tm \<longleftrightarrow>
     has_payload pkt tm \<and> (\<exists>(pat, _, _) \<in> set SIGNATURES. \<exists>i. occurs_at pat i (payload_of pkt tm))"

lemma payload_hits_nonempty:
  assumes "ac_ok (env_ac env)" and "e_payload e = PayloadScanner_new"
  shows "payload_hits env pkt tm e \<noteq> [] \<longleftrightarrow> carries_signature pkt tm"
  using scan_all_exact [OF assms(1), of "payload_of pkt tm"]
  by (auto simp: payload_hits_def carries_signature_def assms(2))

section \<open>What a reason stands for\<close>

text \<open>The evidence behind a reason, for a packet with the files of listed addresses and domains and
  the packets captured so far.  The reason 0 says that there was none: the packet is not listed and
  carries no signature.  Any reason but that of the blacklist (7) says that the files do not list
  the addresses.  Nothing more is said of the rate reason (6): it is about the times at which
  packets of the source were analysed, which the pipeline does not record.\<close>

definition justified ::
  "'b env \<Rightarrow> bytes option \<Rightarrow> bytes option \<Rightarrow> raw_packet list \<Rightarrow> raw_packet \<Rightarrow> transport_meta \<Rightarrow> int \<Rightarrow> bool" where
  "justified env ipf domf captured pkt tm reason \<longleftrightarrow>
     (let listed = ip_listed ipf (src_ip tm) \<or> ip_listed ipf (dst_ip tm) \<or>
            (\<exists>n. query_of pkt tm = Some n \<and> domain_listed (env_lc env) domf n)
      in (reason = 0 \<longrightarrow> \<not> listed \<and> \<not> carries_signature pkt tm) \<and>
         (reason = 1 \<longrightarrow> (\<exists>port. dst_port tm = Some port \<and>
            (20 \<le> card {p. (src_ip tm, p) \<in> scan_pairs captured} \<or> 50 \<le> card {s. (s, port) \<in> scan_pairs captured}))) \<and>
         (reason = 2 \<longrightarrow> syn_keys tm \<noteq> None) \<and>
         (reason = 3 \<longrightarrow> query_of pkt tm \<noteq> None) \<and>
         (reason = 4 \<longrightarrow> country_code env (src_ip tm) \<noteq> None) \<and>
         (reason = 5 \<longrightarrow> carries_signature pkt tm) \<and>
         (reason = 7 \<longrightarrow> listed) \<and>
         (reason \<noteq> 7 \<longrightarrow> \<not> ip_listed ipf (src_ip tm) \<and> \<not> ip_listed ipf (dst_ip tm)) \<and> 0 \<le> reason \<and> reason \<le> 7)"

lemma justified_unscored:
  assumes "unscored raw = unscored pkt"
  shows "justified env ipf domf cs raw tm r = justified env ipf domf cs pkt tm r"
proof -
  have "pkt_data raw = pkt_data pkt" using arg_cong [OF assms, of pkt_data] by (simp add: unscored_def)
  then have "carries_signature raw tm = carries_signature pkt tm" "query_of raw tm = query_of pkt tm"
    by (simp_all only: carries_signature_def query_of_def dns_query_section_def payload_of_def has_payload_def)
  then show ?thesis unfolding justified_def by presburger
qed

lemma reason_justified:
  assumes "ac_ok (env_ac env)" and "view_ok env (scan_pairs cs) bl e" and "pair_in tm (scan_pairs cs)" and "syn_answer tm S"
    and "\<And>x. Blacklist_check_ip (env_bloom env) x bl \<noteq> None \<longleftrightarrow> ip_listed ipf x"
    and "\<And>n. Blacklist_check_domain (env_lc env) n bl \<noteq> None \<longleftrightarrow> domain_listed (env_lc env) domf n"
  shows "justified env ipf domf cs pkt tm (first_reason (findings_with env clk pkt tm e S))"
proof -
  have e: "e_payload e = PayloadScanner_new" "e_blacklist e = bl" using assms(2) by (auto simp: view_ok_def engine_inv_def)
  have dns: "first_reason (dns_findings env pkt tm e) =
     (case query_of pkt tm of None \<Rightarrow> 0
      | Some n \<Rightarrow> if domain_listed (env_lc env) domf n then 7
          else if the (DnsDetector_inspect_payload (env_lc env) (env_lg env) (payload_of pkt tm)) \<noteq> [] then 3 else 0)"
    unfolding first_reason_dns e(2) assms(6) ..
  show ?thesis
    unfolding first_reason_with blacklist_findings_nonempty e(2) assms(5) payload_hits_nonempty [OF assms(1) e(1)] dns justified_def Let_def
    using scan_inspection_evidence [OF assms(2,3) finite_scan_pairs, of clk] syn_answer_keys [OF assms(4)]
      geo_signal_country [of "country_code env (src_ip tm)" "e_baseline e" tm]
    by (auto split: option.split)
qed

section \<open>Property\<close>

text \<open>C8 (safety). What a reason means in a run of the process that captures (without
  \<open>--test-send\<close>): whatever its threads do in whatever order, for every packet that the stream
  receives the reason written into it, unless it is the rate limiter's, is backed by what
  was captured and loaded.  The port scan reason says that its source reached 20 ports, or 50
  sources its port, among the captured packets; the blacklist reason that the files list its source, its
  destination or the name it asks for; the payload reason that a signature occurs in its payload;
  the SYN flood, DNS and country reasons need a TCP packet with ports, a query and a known country.
  A packet with no reason is neither listed nor carries a signature, and a packet with any other
  reason than the blacklist's, the rate limiter's included, has no listed address.  (What the rate
  limiter's reason says of the past traffic is left open.)\<close>

theorem process_reasons_justified:
  assumes "bloom_ok (env_bloom env)" and "ac_ok (env_ac env)" and "chan_ok ch"
    and "main_run L env rpc h cfg = (Running p, disk)" and "\<not> test_send cfg"
    and "queued ch (lb_channel L (channel_capacity cfg)) = []"
    and "agent_reach (lb_json L) (geo_env (lb_mmdb L) (pr_geo p) env) ch (pr_agent p) s"
    and "pkt \<in> set (p_received (ag_pipe s))" and "transport pkt = Some tm"
  shows "justified (geo_env (lb_mmdb L) (pr_geo p) env) (host_file h (str ''IDS_IP_BLACKLIST_PATH''))
     (host_file h (str ''IDS_DOMAIN_BLACKLIST_PATH'')) (p_captured (ag_pipe s)) pkt tm (ids_flag pkt)"
proof -
  let ?env = "geo_env (lb_mmdb L) (pr_geo p) env" and ?cs = "p_captured (ag_pipe s)"
  let ?bl = "e_blacklist (host_engine L env h)"
  have env: "env_bloom ?env = env_bloom env" "env_lc ?env = env_lc env" "env_ac ?env = env_ac env"
    by (simp_all add: geo_env_def)
  have lists: "Blacklist_check_ip (env_bloom ?env) x ?bl \<noteq> None \<longleftrightarrow> ip_listed (host_file h (str ''IDS_IP_BLACKLIST_PATH'')) x"
    "Blacklist_check_domain (env_lc ?env) n ?bl \<noteq> None \<longleftrightarrow>
      domain_listed (env_lc ?env) (host_file h (str ''IDS_DOMAIN_BLACKLIST_PATH'')) n" for x n
    unfolding host_engine_def env host_file_def by (rule main_engine_ip [OF assms(1)], rule main_engine_domain)
  have "scored ?env (scan_pairs ?cs) ?bl pkt" using process_pipe [OF assms(2-7)] assms(8) by blast
  then obtain raw r where raw: "unscored raw = unscored pkt" "analysed ?env (scan_pairs ?cs) ?bl raw r" "ids_flag pkt = flag_reason r"
    by (auto simp: scored_def)
  have "transport raw = Some tm" using assms(9) raw(1) by (metis unscored_transport)
  then obtain clk e S where e: "pair_in tm (scan_pairs ?cs)" "view_ok ?env (scan_pairs ?cs) ?bl e" "syn_answer tm S"
    "r = packet_result_with ?env clk raw tm e S" using raw(2) by (auto simp: analysed_def)
  have "ids_flag pkt = first_reason (findings_with ?env clk raw tm e S)"
    by (simp add: raw(3) e(4) packet_result_with_def)
  then show ?thesis
    unfolding justified_unscored [OF raw(1), symmetric]
    using reason_justified [OF assms(2) [folded env(3)] e(2,1,3) lists, of raw clk] by simp
qed

theorem process_reasons_justified_witness:
  "\<exists>p d (s :: (u8 set, raw_packet list) agent) q.
     main_run demo_libs demo_env (\<lambda>_. Inl ()) (demo_host (str ''IDS_IP_BLACKLIST_PATH'') []) (demo_config False) = (Running p, d) \<and>
     agent_reach demo_json demo_env (list_chan 4) (pr_agent p) s \<and> q \<in> set (p_received (ag_pipe s)) \<and>
     transport q = Some demo_meta \<and> justified demo_env (Some []) None (p_captured (ag_pipe s)) q demo_meta (ids_flag q)"
proof -
  let ?h = "demo_host (str ''IDS_IP_BLACKLIST_PATH'') []"
  obtain p d and s :: "(u8 set, raw_packet list) agent" where
    p: "main_run demo_libs demo_env (\<lambda>_. Inl ()) ?h (demo_config False) = (Running p, d)"
    and s: "agent_reach demo_json demo_env (list_chan 4) (pr_agent p) s" "length (p_received (ag_pipe s)) = 1"
      "\<forall>q \<in> set (p_received (ag_pipe s)). transport q = transport demo_packet"
    and geo: "geo_env (lb_mmdb demo_libs) (pr_geo p) demo_env = demo_env"
    by (rule demo_process)
  obtain q where q: "q \<in> set (p_received (ag_pipe s))" using s(2) by (cases "p_received (ag_pipe s)") auto
  have tm: "transport q = Some demo_meta" using q s(3) demo_transport by simp
  have hyps: "bloom_ok (env_bloom demo_env)" "\<not> test_send (demo_config False)"
    "queued (list_chan 4) (lb_channel demo_libs (channel_capacity (demo_config False))) = []"
    by (simp_all add: demo_env_def low_byte_bloom_ok demo_config_sel list_chan_def demo_libs_def)
  have files: "host_file ?h (str ''IDS_IP_BLACKLIST_PATH'') = Some []" "host_file ?h (str ''IDS_DOMAIN_BLACKLIST_PATH'') = None"
    by (simp_all add: host_file_def demo_host_def str_def)
  have reach: "agent_reach (lb_json demo_libs) (geo_env (lb_mmdb demo_libs) (pr_geo p) demo_env) (list_chan 4) (pr_agent p) s"
    unfolding geo using s(1) by (simp add: demo_libs_def)
  from process_reasons_justified [OF hyps(1) demo_env_ok list_chan_ok p hyps(2,3) reach q tm]
  show ?thesis using p s(1) q tm unfolding geo files by blast
qed

end
