(* ===== verification/Locking.thy ===== *)
theory Locking
  imports Prelude
begin

text \<open>
  Locks and the threads that share them, and the contract under which they never deadlock: every
  lock has a rank, and a thread acquires a lock only while all it holds rank below it.

  A thread is what it still has to do, a list of acquisitions and releases, and what it holds.  A
  lock is a \<open>RwLock\<close> or a shard of a concurrent map: any number of threads may hold it shared, or one
  exclusively.  Which of several waiting threads gets a lock is left open.
\<close>

section \<open>Threads\<close>

datatype mode = Shared | Exclusive

datatype 'l lock_op = Acquire 'l mode | Release 'l

record 'l lock_thread =
  holding :: "('l \<times> mode) list"
  todo :: "'l lock_op list"

fun compatible :: "mode \<Rightarrow> mode \<Rightarrow> bool" where
  "compatible Shared Shared = True"
| "compatible _ _ = False"

definition grantable :: "'l lock_thread list \<Rightarrow> nat \<Rightarrow> 'l \<Rightarrow> mode \<Rightarrow> bool" where
  "grantable ts i l m \<longleftrightarrow> (\<forall>j < length ts. j \<noteq> i \<longrightarrow> (\<forall>h \<in> set (holding (ts ! j)). fst h = l \<longrightarrow> compatible m (snd h)))"

text \<open>A release gives up the lock that was acquired last under this name.\<close>

fun drop_lock :: "'l \<Rightarrow> ('l \<times> mode) list \<Rightarrow> ('l \<times> mode) list" where
  "drop_lock l [] = []"
| "drop_lock l ((k, m) # hs) = (if k = l then hs else (k, m) # drop_lock l hs)"

inductive lock_step :: "'l lock_thread list \<Rightarrow> 'l lock_thread list \<Rightarrow> bool" where
  acquire: "i < length ts \<Longrightarrow> todo (ts ! i) = Acquire l m # ops \<Longrightarrow> grantable ts i l m \<Longrightarrow>
     lock_step ts (ts[i := \<lparr>holding = (l, m) # holding (ts ! i), todo = ops\<rparr>])"
| release: "i < length ts \<Longrightarrow> todo (ts ! i) = Release l # ops \<Longrightarrow>
     lock_step ts (ts[i := \<lparr>holding = drop_lock l (holding (ts ! i)), todo = ops\<rparr>])"

text \<open>Threads that hold nothing, each with a list of calls to make.\<close>

definition lock_threads :: "('c \<Rightarrow> 'l lock_op list) \<Rightarrow> 'c list list \<Rightarrow> 'l lock_thread list" where
  "lock_threads call_ops css = map (\<lambda>cs. \<lparr>holding = [], todo = concat (map call_ops cs)\<rparr>) css"

abbreviation lock_reach :: "'l lock_thread list \<Rightarrow> 'l lock_thread list \<Rightarrow> bool" where
  "lock_reach \<equiv> lock_step\<^sup>*\<^sup>*"

definition thread_done :: "'l lock_thread \<Rightarrow> bool" where
  "thread_done t \<longleftrightarrow> todo t = [] \<and> holding t = []"

definition ops_left :: "'l lock_thread list \<Rightarrow> nat" where
  "ops_left ts = (\<Sum>t \<leftarrow> ts. length (todo t))"

text \<open>Two threads never hold a lock in modes that exclude each other.\<close>

definition exclusion :: "'l lock_thread list \<Rightarrow> bool" where
  "exclusion ts \<longleftrightarrow> (\<forall>i < length ts. \<forall>j < length ts. i \<noteq> j \<longrightarrow>
     (\<forall>h \<in> set (holding (ts ! i)). \<forall>h' \<in> set (holding (ts ! j)). fst h = fst h' \<longrightarrow> compatible (snd h) (snd h')))"

lemma compatible_sym: "compatible m m' \<Longrightarrow> compatible m' m"
  by (cases m; cases m') simp_all

lemma set_drop_lock: "set (drop_lock l hs) \<subseteq> set hs"
  by (induction l hs rule: drop_lock.induct) auto

lemma exclusion_update:
  assumes "exclusion ts" and "i < length ts"
    and new: "\<And>j h h'. j < length ts \<Longrightarrow> j \<noteq> i \<Longrightarrow> h \<in> set (holding t) \<Longrightarrow> h' \<in> set (holding (ts ! j)) \<Longrightarrow>
      fst h = fst h' \<Longrightarrow> compatible (snd h) (snd h')"
  shows "exclusion (ts[i := t])"
  unfolding exclusion_def
proof (intro allI ballI impI)
  fix a b h h'
  assume ab: "a < length (ts[i := t])" "b < length (ts[i := t])" "a \<noteq> b"
    and h: "h \<in> set (holding (ts[i := t] ! a))" "h' \<in> set (holding (ts[i := t] ! b))" "fst h = fst h'"
  consider "a = i" "b \<noteq> i" | "b = i" "a \<noteq> i" | "a \<noteq> i" "b \<noteq> i" using ab(3) by blast
  then show "compatible (snd h) (snd h')"
  proof cases
    case 1
    then show ?thesis using new [of b h h'] ab h by simp
  next
    case 2
    then show ?thesis using new [of a h' h] ab h by (simp add: compatible_sym)
  next
    case 3
    then show ?thesis using assms(1) ab h by (simp add: exclusion_def)
  qed
qed

lemma exclusion_step: "lock_step ts ts' \<Longrightarrow> exclusion ts \<Longrightarrow> exclusion ts'"
proof (induction rule: lock_step.induct)
  case (acquire i ts l m ops)
  have old: "compatible (snd h) (snd h')" if "j < length ts" "j \<noteq> i" "h \<in> set (holding (ts ! i))"
    "h' \<in> set (holding (ts ! j))" "fst h = fst h'" for j h h'
    using acquire(1,4) that by (simp add: exclusion_def)
  show ?case
  proof (rule exclusion_update [OF acquire(4,1)])
    fix j h h'
    assume j: "j < length ts" "j \<noteq> i" "h' \<in> set (holding (ts ! j))" "fst h = fst h'"
      and "h \<in> set (holding \<lparr>holding = (l, m) # holding (ts ! i), todo = ops\<rparr>)"
    then consider "h = (l, m)" | "h \<in> set (holding (ts ! i))" by auto
    then show "compatible (snd h) (snd h')"
    proof cases
      case 1
      then show ?thesis using acquire(3) j unfolding grantable_def by (metis fst_conv snd_conv)
    qed (use old j in blast)
  qed
next
  case (release i ts l ops)
  have old: "compatible (snd h) (snd h')" if "j < length ts" "j \<noteq> i" "h \<in> set (drop_lock l (holding (ts ! i)))"
    "h' \<in> set (holding (ts ! j))" "fst h = fst h'" for j h h'
    using release(1,3) that(1,2,4,5) subsetD [OF set_drop_lock that(3)] unfolding exclusion_def by blast
  show ?case
    by (rule exclusion_update [OF release(3,1)]) (use old in auto)
qed

lemma sum_list_update_less:
  fixes f :: "'a \<Rightarrow> nat"
  shows "i < length xs \<Longrightarrow> f y < f (xs ! i) \<Longrightarrow> sum_list (map f (xs[i := y])) < sum_list (map f xs)"
proof (induction xs arbitrary: i)
  case (Cons x xs)
  then show ?case by (cases i) auto
qed simp

lemma step_ops_left: "lock_step ts ts' \<Longrightarrow> ops_left ts' < ops_left ts"
  by (induction rule: lock_step.induct) (simp_all add: ops_left_def sum_list_update_less)

section \<open>The contract\<close>

text \<open>A program that starts with the locks \<open>held\<close> keeps to the ranks and gives everything back.\<close>

fun disciplined :: "('l \<Rightarrow> nat) \<Rightarrow> 'l list \<Rightarrow> 'l lock_op list \<Rightarrow> bool" where
  "disciplined rank held [] \<longleftrightarrow> held = []"
| "disciplined rank held (Acquire l m # ops) \<longleftrightarrow> (\<forall>h \<in> set held. rank h < rank l) \<and> disciplined rank (l # held) ops"
| "disciplined rank held (Release l # ops) \<longleftrightarrow> l \<in> set held \<and> disciplined rank (remove1 l held) ops"

lemma disciplined_append:
  "disciplined rank held ops \<Longrightarrow> disciplined rank [] ops' \<Longrightarrow> disciplined rank held (ops @ ops')"
  by (induction rank held ops rule: disciplined.induct) auto

lemma disciplined_concat: "\<forall>ops \<in> set opss. disciplined rank [] ops \<Longrightarrow> disciplined rank [] (concat opss)"
  by (induction opss) (auto intro: disciplined_append)

lemma map_fst_drop_lock: "map fst (drop_lock l hs) = remove1 l (map fst hs)"
  by (induction l hs rule: drop_lock.induct) auto

definition thread_ok :: "('l \<Rightarrow> nat) \<Rightarrow> 'l lock_thread \<Rightarrow> bool" where
  "thread_ok rank t \<longleftrightarrow> disciplined rank (map fst (holding t)) (todo t)"

text \<open>The client is a set of calls, each with the locks it takes.\<close>

locale ranked_locks =
  fixes rank :: "'l \<Rightarrow> nat"
    and call_ops :: "'c \<Rightarrow> 'l lock_op list"
  assumes ranked: "disciplined rank [] (call_ops c)"
begin

lemma start_ok: "t \<in> set (lock_threads call_ops css) \<Longrightarrow> thread_ok rank t"
  by (auto simp: lock_threads_def thread_ok_def intro!: disciplined_concat ranked)

lemma step_ok: "lock_step ts ts' \<Longrightarrow> \<forall>t \<in> set ts. thread_ok rank t \<Longrightarrow> \<forall>t \<in> set ts'. thread_ok rank t"
proof (induction rule: lock_step.induct)
  case (acquire i ts l m ops)
  then have "thread_ok rank (ts ! i)" by simp
  then have "thread_ok rank \<lparr>holding = (l, m) # holding (ts ! i), todo = ops\<rparr>"
    using acquire(2) by (simp add: thread_ok_def)
  then show ?case using acquire(4) set_update_subset_insert by (metis insert_iff subsetD)
next
  case (release i ts l ops)
  then have "thread_ok rank (ts ! i)" by simp
  then have "thread_ok rank \<lparr>holding = drop_lock l (holding (ts ! i)), todo = ops\<rparr>"
    using release(2) by (simp add: thread_ok_def map_fst_drop_lock)
  then show ?case using release(3) set_update_subset_insert by (metis insert_iff subsetD)
qed

lemma reach_ok:
  assumes "lock_reach (lock_threads call_ops css) ts"
  shows "(\<forall>t \<in> set ts. thread_ok rank t) \<and> exclusion ts \<and> length ts = length css"
  using assms
proof (induction rule: rtranclp_induct)
  case base
  then show ?case using start_ok by (auto simp: exclusion_def lock_threads_def)
next
  case (step ts ts')
  moreover have "length ts' = length ts" using step(2) by (cases rule: lock_step.cases) auto
  ultimately show ?case using step_ok exclusion_step by metis
qed

lemma free_step:
  assumes "i < length ts" and "todo (ts ! i) = Acquire l m # ops"
    and "\<And>t. t \<in> set ts \<Longrightarrow> l \<notin> fst ` set (holding t)"
  shows "\<exists>ts'. lock_step ts ts'"
proof -
  have "grantable ts i l m" unfolding grantable_def using assms(3) by (metis image_eqI nth_mem)
  then show ?thesis using lock_step.acquire [OF assms(1,2)] by blast
qed

text \<open>The thread that holds the lock of the highest rank can always go on.\<close>

lemma no_deadlock:
  assumes "\<forall>t \<in> set ts. thread_ok rank t"
  shows "(\<forall>t \<in> set ts. thread_done t) \<or> (\<exists>ts'. lock_step ts ts')"
proof (cases "\<exists>i < length ts. \<exists>l ops. todo (ts ! i) = Release l # ops")
  case True
  then obtain i l ops where "i < length ts" "todo (ts ! i) = Release l # ops" by blast
  from lock_step.release [OF this] show ?thesis by (rule disjI2 [OF exI])
next
  case False
  have ok: "disciplined rank (map fst (holding (ts ! i))) (todo (ts ! i))" if "i < length ts" for i
    using assms that by (simp add: thread_ok_def)
  have waits: "\<exists>l m ops. todo (ts ! i) = Acquire l m # ops" if "i < length ts" "todo (ts ! i) \<noteq> []" for i
  proof (cases "todo (ts ! i)")
    case (Cons op ops)
    then show ?thesis using False that(1) by (cases op) auto
  qed (use that in simp)
  have busy: "todo (ts ! i) \<noteq> []" if "i < length ts" "holding (ts ! i) \<noteq> []" for i
    using ok [OF that(1)] that(2) by (metis disciplined.simps(1) map_is_Nil_conv)
  let ?held = "\<Union>t \<in> set ts. fst ` set (holding t)"
  show ?thesis
  proof (cases "?held = {}")
    case True
    then have none: "holding t = []" if "t \<in> set ts" for t using that by auto
    show ?thesis
    proof (cases "\<forall>t \<in> set ts. todo t = []")
      case True
      then show ?thesis using none by (simp add: thread_done_def)
    next
      case False
      then obtain i where "i < length ts" "todo (ts ! i) \<noteq> []" by (auto simp: in_set_conv_nth)
      with waits obtain l m ops where "todo (ts ! i) = Acquire l m # ops" by blast
      with \<open>i < length ts\<close> none show ?thesis by (intro disjI2 free_step) auto
    qed
  next
    case False
    let ?top = "Max (rank ` ?held)"
    have fin: "finite (rank ` ?held)" by simp
    have "rank ` ?held \<noteq> {}" using False by blast
    then have "?top \<in> rank ` ?held" by (rule Max_in [OF fin])
    then obtain k where k: "k \<in> ?held" "rank k = ?top" by (metis (no_types, lifting) imageE)
    then obtain t where t: "t \<in> set ts" "k \<in> fst ` set (holding t)" by blast
    then obtain i where i: "i < length ts" "k \<in> fst ` set (holding (ts ! i))" by (metis in_set_conv_nth)
    then have "holding (ts ! i) \<noteq> []" by auto
    with busy waits i(1) obtain l m ops where l: "todo (ts ! i) = Acquire l m # ops" by blast
    have "rank k < rank l" using ok [OF i(1)] i(2) by (auto simp: l)
    have "l \<notin> ?held"
    proof
      assume "l \<in> ?held"
      then have "rank l \<le> ?top" by (intro Max_ge [OF fin] imageI)
      with \<open>rank k < rank l\<close> k(2) show False by simp
    qed
    then show ?thesis by (intro disjI2 free_step [OF i(1) l]) blast
  qed
qed

lemma all_finish:
  assumes "\<forall>t \<in> set ts. thread_ok rank t"
  shows "\<exists>ts'. lock_reach ts ts' \<and> (\<forall>t \<in> set ts'. thread_done t)"
  using assms
proof (induction "ops_left ts" arbitrary: ts rule: less_induct)
  case less
  show ?case
  proof (cases "\<forall>t \<in> set ts. thread_done t")
    case False
    then obtain ts1 where s: "lock_step ts ts1" using no_deadlock [OF less.prems] by blast
    from less.hyps [OF step_ops_left [OF s] step_ok [OF s less.prems]] s show ?thesis
      by (meson converse_rtranclp_into_rtranclp)
  qed blast
qed

end

text \<open>No run is longer than the operations there are.\<close>

lemma run_length: "(lock_step ^^ n) ts ts' \<Longrightarrow> n + ops_left ts' \<le> ops_left ts"
proof (induction n arbitrary: ts')
  case (Suc n)
  then obtain u where "(lock_step ^^ n) ts u" "lock_step u ts'" by auto
  with Suc.IH [of u] step_ops_left [of u ts'] show ?case by simp
qed simp

end
