(* ===== verification/EngineLocks.thy ===== *)
theory EngineLocks
  imports Locking SynFlood Packet
begin

text \<open>
  The locks of the engine.  The worker threads, the sweeper and \<open>main\<close> share the detectors, the
  blacklist, the country database and the baseline; each guards its state with a \<open>RwLock\<close> or with
  the shards of a \<open>DashMap\<close>.  Every call is written down as the acquisitions and releases it makes,
  in order; a guard that is a temporary of a statement is released at its end.  Which shard an
  entry lies in, and what a call reads before it branches, are arguments: what is shown holds for
  every map and every branch.

  A call on an entry of a \<open>DashMap\<close> locks its shard, \<open>len\<close> reads the shards one after the other, and
  \<open>retain\<close> writes them one after the other, as its documentation says.
\<close>

datatype lock =
    BucketShard nat
  | PortsShard nat
  | SrcsShard nat
  | CounterShard nat
  | HalfOpenShard nat
  | GeoReader
  | IpBloom
  | IpExact
  | IpCidrs
  | Domains
  | PhaseLock
  | StateLock

section \<open>What the calls lock\<close>

definition reading :: "lock \<Rightarrow> lock lock_op list" where
  "reading l = [Acquire l Shared, Release l]"

definition writing :: "lock \<Rightarrow> lock lock_op list" where
  "writing l = [Acquire l Exclusive, Release l]"

text \<open>\<open>retain\<close> and \<open>len\<close> of a map with \<open>n\<close> shards.\<close>

definition retaining :: "(nat \<Rightarrow> lock) \<Rightarrow> nat \<Rightarrow> lock lock_op list" where
  "retaining shard n = concat (map (\<lambda>i. writing (shard i)) [0..<n])"

definition counting :: "(nat \<Rightarrow> lock) \<Rightarrow> nat \<Rightarrow> lock lock_op list" where
  "counting shard n = concat (map (\<lambda>i. reading (shard i)) [0..<n])"

subsection \<open>Blacklist and country database\<close>

definition check_ip_ops :: "bool \<Rightarrow> bool \<Rightarrow> bool \<Rightarrow> lock lock_op list" where
  "check_ip_ops v4 bloom_hit exact_hit =
     (if \<not> v4 then []
      else reading IpBloom @
        (if bloom_hit then reading IpExact @ (if exact_hit then [] else reading IpCidrs) else reading IpCidrs))"

definition check_domain_ops :: "lock lock_op list" where
  "check_domain_ops = reading Domains"

definition country_code_ops :: "lock lock_op list" where
  "country_code_ops = reading GeoReader"

subsection \<open>Detectors\<close>

text \<open>The guard of the bucket lives to the end of the call.\<close>

definition rate_inspect_ops :: "nat \<Rightarrow> lock lock_op list" where
  "rate_inspect_ops s = [Acquire (BucketShard s) Exclusive, Release (BucketShard s)]"

definition scan_inspect_ops :: "nat \<Rightarrow> nat \<Rightarrow> bool \<Rightarrow> lock lock_op list" where
  "scan_inspect_ops s p horizontal_hit =
     writing (PortsShard s) @ (if horizontal_hit then [] else writing (SrcsShard p))"

text \<open>\<open>c\<close>, \<open>f\<close>, \<open>r\<close> are the shards of the counters of the source, of the flow and of its reverse; the
  map of half-open flows has \<open>n\<close> shards.\<close>

definition syn_inspect_ops :: "nat \<Rightarrow> nat \<Rightarrow> nat \<Rightarrow> nat \<Rightarrow> u8 \<Rightarrow> bool \<Rightarrow> lock lock_op list" where
  "syn_inspect_ops n c f r flags flow_tracked =
     writing (CounterShard c) @
     (if is_syn flags then writing (HalfOpenShard f)
      else if is_syn_ack flags \<or> is_rst flags \<or> is_ack flags then writing (HalfOpenShard r) @ writing (HalfOpenShard f)
      else []) @
     counting HalfOpenShard n @
     (if is_rst flags then
        reading (HalfOpenShard f) @ (if flow_tracked then [] else reading (HalfOpenShard r))
      else [])"

definition rate_sweep_ops :: "nat \<Rightarrow> lock lock_op list" where
  "rate_sweep_ops n = retaining BucketShard n"

definition scan_sweep_ops :: "nat \<Rightarrow> nat \<Rightarrow> lock lock_op list" where
  "scan_sweep_ops n m = retaining PortsShard n @ retaining SrcsShard m"

definition syn_sweep_ops :: "nat \<Rightarrow> nat \<Rightarrow> lock lock_op list" where
  "syn_sweep_ops n m = retaining HalfOpenShard n @ retaining CounterShard m"

subsection \<open>Baseline\<close>

definition phase_ops :: "lock lock_op list" where
  "phase_ops = reading PhaseLock"

definition known_ops :: "lock lock_op list" where
  "known_ops = reading StateLock"

definition observe_ops :: "lock lock_op list" where
  "observe_ops = writing StateLock"

definition persist_ops :: "bool \<Rightarrow> lock lock_op list" where
  "persist_ops has_path = (if has_path then reading StateLock else [])"

text \<open>The guard of the phase lives to the end of \<open>finish_learning\<close>: the one place where a thread
  acquires a lock while it holds another.\<close>

definition finish_learning_ops :: "bool \<Rightarrow> bool \<Rightarrow> lock lock_op list" where
  "finish_learning_ops has_path learning =
     [Acquire PhaseLock Exclusive] @
     (if learning then writing StateLock @ persist_ops has_path else []) @
     [Release PhaseLock]"

definition tick_phase_ops :: "bool \<Rightarrow> bool \<Rightarrow> bool \<Rightarrow> bool \<Rightarrow> lock lock_op list" where
  "tick_phase_ops has_path learning expired still_learning =
     phase_ops @ (if learning \<and> expired then finish_learning_ops has_path still_learning else [])"

section \<open>Calls\<close>

datatype engine_call =
    CheckIp bool bool bool
  | CheckDomain
  | CountryCode
  | RateInspect nat
  | ScanInspect nat nat bool
  | SynInspect nat nat nat nat u8 bool
  | Phase
  | Known
  | Observe
  | ScanSweep nat nat
  | SynSweep nat nat
  | RateSweep nat
  | TickPhase bool bool bool bool
  | Persist bool

fun call_ops :: "engine_call \<Rightarrow> lock lock_op list" where
  "call_ops (CheckIp v4 bloom exact) = check_ip_ops v4 bloom exact"
| "call_ops CheckDomain = check_domain_ops"
| "call_ops CountryCode = country_code_ops"
| "call_ops (RateInspect s) = rate_inspect_ops s"
| "call_ops (ScanInspect s p hit) = scan_inspect_ops s p hit"
| "call_ops (SynInspect n c f r flags tracked) = syn_inspect_ops n c f r flags tracked"
| "call_ops Phase = phase_ops"
| "call_ops Known = known_ops"
| "call_ops Observe = observe_ops"
| "call_ops (ScanSweep n m) = scan_sweep_ops n m"
| "call_ops (SynSweep n m) = syn_sweep_ops n m"
| "call_ops (RateSweep n) = rate_sweep_ops n"
| "call_ops (TickPhase path learning expired still) = tick_phase_ops path learning expired still"
| "call_ops (Persist path) = persist_ops path"

text \<open>The state of the baseline ranks above everything else.\<close>

fun lock_rank :: "lock \<Rightarrow> nat" where
  "lock_rank StateLock = 1"
| "lock_rank _ = 0"

lemma disciplined_single: "disciplined rank [] (reading l)" "disciplined rank [] (writing l)"
  by (simp_all add: reading_def writing_def)

lemma disciplined_shards: "disciplined rank [] (retaining shard n)" "disciplined rank [] (counting shard n)"
  by (auto simp: retaining_def counting_def disciplined_single intro!: disciplined_concat)

lemma finish_learning_disciplined: "disciplined lock_rank [] (finish_learning_ops has_path learning)"
  by (simp add: finish_learning_ops_def persist_ops_def reading_def writing_def)

lemmas ops_defs =
  check_ip_ops_def check_domain_ops_def country_code_ops_def rate_inspect_ops_def scan_inspect_ops_def
  syn_inspect_ops_def rate_sweep_ops_def scan_sweep_ops_def syn_sweep_ops_def phase_ops_def known_ops_def
  observe_ops_def persist_ops_def tick_phase_ops_def

lemma call_disciplined: "disciplined lock_rank [] (call_ops c)"
  by (cases c) (auto simp: ops_defs disciplined_single disciplined_shards finish_learning_disciplined
      intro!: disciplined_append)

interpretation engine_locks: ranked_locks lock_rank call_ops
  by unfold_locales (rule call_disciplined)

section \<open>Properties\<close>

text \<open>C11 (liveness). The threads that share the engine never deadlock: whatever calls each of them makes and
  however they are scheduled, as long as one of them is not through with its calls some thread can
  go on, from every reachable state all calls can be brought to an end, and no schedule takes more
  turns than there are acquisitions and releases.  Nor do two threads ever hold a lock of which
  one holds it exclusively, which is what makes a call on one entry atomic.\<close>

theorem engine_deadlock_free:
  assumes "lock_reach (lock_threads call_ops css) ts"
  shows "((\<forall>t \<in> set ts. thread_done t) \<or> (\<exists>ts'. lock_step ts ts')) \<and>
     (\<exists>ts'. lock_reach ts ts' \<and> (\<forall>t \<in> set ts'. thread_done t)) \<and>
     (\<forall>n ts'. (lock_step ^^ n) ts ts' \<longrightarrow> n \<le> ops_left ts) \<and> exclusion ts"
proof -
  note ok = engine_locks.reach_ok [OF assms]
  have "\<forall>n ts'. (lock_step ^^ n) ts ts' \<longrightarrow> n \<le> ops_left ts" using run_length by fastforce
  with ok engine_locks.no_deadlock [of ts] engine_locks.all_finish [of ts] show ?thesis by blast
qed

text \<open>The sweeper at the end of the learning phase, beside an analysis that checks and observes.\<close>

theorem engine_deadlock_free_witness:
  "\<exists>ts. lock_reach (lock_threads call_ops [[TickPhase True True True True], [CheckIp True True False, Observe]]) ts \<and>
     (\<exists>ts'. lock_reach ts ts' \<and> (\<forall>t \<in> set ts'. thread_done t)) \<and> \<not> (\<forall>t \<in> set ts. thread_done t)"
proof -
  let ?ts = "lock_threads call_ops [[TickPhase True True True True], [CheckIp True True False, Observe]]"
  have "\<not> thread_done (hd ?ts)"
    by (simp add: lock_threads_def thread_done_def tick_phase_ops_def phase_ops_def reading_def)
  moreover have "hd ?ts \<in> set ?ts" by (simp add: lock_threads_def)
  ultimately show ?thesis using engine_deadlock_free [OF rtranclp.rtrancl_refl, of _ ] by blast
qed

end
