(* ===== verification/Entropy.thy ===== *)
theory Entropy
  imports Dns
begin

text \<open>
  Which labels the entropy check of \<open>ids/dns.rs\<close> flags, in its \<open>f64\<close> arithmetic.  The binary
  logarithm is a parameter of \<open>shannon_entropy\<close>; \<open>lg_ok\<close> is what is asked of it: zero or less below
  one, and within \<open>2 ^ -40\<close> of the real logarithm.
\<close>

section \<open>Counting bytes\<close>

lemma byte_counts_snoc:
  "byte_counts (data @ [b]) = (byte_counts data)[unat b := byte_counts data ! unat b + 1]"
  by (simp add: byte_counts_def)

lemma length_byte_counts [simp]: "length (byte_counts data) = 256"
  by (induction data rule: rev_induct) (simp_all add: byte_counts_snoc, simp add: byte_counts_def)

lemma unat_byte_lt [simp]: "unat (b :: u8) < 256"
  by (rule order_less_le_trans [OF unsigned_less]) simp

lemma byte_counts_count:
  "length data < 2 ^ 32 \<Longrightarrow> unat (byte_counts data ! unat b) = count_list data b"
proof (induction data rule: rev_induct)
  case Nil
  then show ?case by (simp add: byte_counts_def)
next
  case (snoc c data)
  have "count_list data b \<le> length data" by (rule count_le_length)
  with snoc have "unat (byte_counts data ! unat b) + 1 < 2 ^ 32" by simp
  then have "unat (byte_counts data ! unat b + 1) = unat (byte_counts data ! unat b) + 1"
    by (simp add: unat_word_ariths)
  with snoc show ?case
    by (cases "c = b") (simp_all add: byte_counts_snoc nth_list_update word_unat_eq_iff [symmetric] eq_commute [of "unat _" "unat _"])
qed

text \<open>The counts that are not zero: what \<open>shannon_entropy\<close> sums over.\<close>

definition present :: "bytes \<Rightarrow> nat list" where
  "present data = map unat (filter (\<lambda>c. 0 < c) (byte_counts data))"

lemma present_count:
  assumes "length data < 2 ^ 32" and "k \<in> set (present data)"
  shows "\<exists>b. k = count_list data b \<and> 0 < k"
proof -
  obtain i where i: "i < 256" "k = unat (byte_counts data ! i)" "0 < byte_counts data ! i"
    using assms(2) by (auto simp: present_def in_set_conv_nth)
  have "i = unat (of_nat i :: u8)" using i(1) by (simp add: unat_of_nat)
  with i(2) byte_counts_count [OF assms(1), of "of_nat i"] have "k = count_list data (of_nat i)" by simp
  moreover have "0 < k" using i(2,3) by (simp add: word_less_nat_alt)
  ultimately show ?thesis by blast
qed

lemma sum_list_filter_pos: "sum_list (map unat (filter (\<lambda>c. 0 < c) cs)) = sum_list (map unat cs)"
  for cs :: "u32 list"
  by (induction cs) (auto simp: word_gt_0)

lemma sum_list_bump:
  "i < length cs \<Longrightarrow> unat (cs ! i + 1) = unat (cs ! i) + 1 \<Longrightarrow>
     sum_list (map unat (cs[i := cs ! i + 1])) = sum_list (map unat cs) + 1" for cs :: "u32 list"
proof (induction cs arbitrary: i)
  case (Cons c cs)
  then show ?case by (cases i) auto
qed simp

lemma sum_present: "length data < 2 ^ 32 \<Longrightarrow> sum_list (present data) = length data"
proof -
  have "length data < 2 ^ 32 \<Longrightarrow> sum_list (map unat (byte_counts data)) = length data"
  proof (induction data rule: rev_induct)
    case Nil
    then show ?case by (simp add: byte_counts_def sum_list_replicate)
  next
    case (snoc c data)
    have "count_list data c \<le> length data" by (rule count_le_length)
    with snoc byte_counts_count [of data c] have "unat (byte_counts data ! unat c) + 1 < 2 ^ 32" by simp
    then have "unat (byte_counts data ! unat c + 1) = unat (byte_counts data ! unat c) + 1"
      by (simp add: unat_word_ariths)
    with snoc show ?case by (simp add: byte_counts_snoc sum_list_bump)
  qed
  then show "length data < 2 ^ 32 \<Longrightarrow> sum_list (present data) = length data"
    by (simp add: present_def sum_list_filter_pos)
qed

lemma length_le_sum: "\<forall>k \<in> set ks. 0 < k \<Longrightarrow> length ks \<le> sum_list ks" for ks :: "nat list"
  by (induction ks) auto

lemma distinct_count: "distinct xs \<Longrightarrow> count_list xs x \<le> 1"
  by (induction xs) (auto simp: count_notin)

lemma present_distinct:
  assumes "distinct data" and "length data < 2 ^ 32"
  shows "present data = replicate (length data) 1"
proof -
  have "k = 1" if "k \<in> set (present data)" for k
    using present_count [OF assms(2) that] distinct_count [OF assms(1)] by (metis One_nat_def le_antisym Suc_leI)
  then have "present data = replicate (length (present data)) 1" by (simp add: replicate_length_same)
  moreover have "sum_list (replicate n 1) = n" for n :: nat by (simp add: sum_list_replicate)
  ultimately show ?thesis using sum_present [OF assms(2)] by metis
qed

section \<open>Rounding errors\<close>

definition ulp_half :: rat where "ulp_half = 1 / 9007199254740992"

lemma ulp_half_pos: "0 < ulp_half" "ulp_half < 1"
  by (simp_all add: ulp_half_def)

lemma f64_within:
  assumes "0 \<le> q" shows "f64 q \<le> q * (1 + ulp_half)" and "q * (1 - ulp_half) \<le> f64 q"
proof -
  have "2 powi (- int 53) = ulp_half" by (simp add: ulp_half_def power_int_def power_divide)
  with rnd_error [OF assms, of 53] have "\<bar>f64 q - q\<bar> \<le> q * ulp_half" by (simp only: f64_def)
  then show "f64 q \<le> q * (1 + ulp_half)" and "q * (1 - ulp_half) \<le> f64 q" by (auto simp: algebra_simps abs_le_iff)
qed

definition sum_f64 :: "rat list \<Rightarrow> rat" where
  "sum_f64 xs = foldl (\<lambda>acc x. f64 (acc + x)) 0 xs"

lemma sum_f64_upper: "\<forall>x \<in> set xs. 0 \<le> x \<Longrightarrow> 0 \<le> sum_f64 xs \<and> sum_f64 xs \<le> sum_list xs * (1 + ulp_half) ^ length xs"
proof (induction xs rule: rev_induct)
  case Nil
  then show ?case by (simp add: sum_f64_def)
next
  case (snoc x xs)
  have eq: "sum_f64 (xs @ [x]) = f64 (sum_f64 xs + x)" by (simp add: sum_f64_def)
  have s: "0 \<le> sum_f64 xs" "sum_f64 xs \<le> sum_list xs * (1 + ulp_half) ^ length xs" "0 \<le> x" using snoc by auto
  have "1 \<le> (1 + ulp_half) ^ length xs" using ulp_half_pos by (intro one_le_power) simp
  then have "x \<le> x * (1 + ulp_half) ^ length xs" using s(3) by (simp add: mult_le_cancel_left1)
  then have "sum_f64 xs + x \<le> (sum_list xs + x) * (1 + ulp_half) ^ length xs" using s(2) by (simp add: distrib_right)
  then have "(sum_f64 xs + x) * (1 + ulp_half) \<le> (sum_list xs + x) * (1 + ulp_half) ^ length xs * (1 + ulp_half)"
    using ulp_half_pos by (intro mult_right_mono) auto
  with f64_within(1) [of "sum_f64 xs + x"] s f64_nonneg [of "sum_f64 xs + x"] show ?case
    by (simp add: eq mult.assoc mult.commute [of "1 + ulp_half"])
qed

lemma sum_f64_lower: "\<forall>x \<in> set xs. 0 \<le> x \<Longrightarrow> sum_list xs * (1 - ulp_half) ^ length xs \<le> sum_f64 xs"
proof (induction xs rule: rev_induct)
  case Nil
  then show ?case by (simp add: sum_f64_def)
next
  case (snoc x xs)
  have eq: "sum_f64 (xs @ [x]) = f64 (sum_f64 xs + x)" by (simp add: sum_f64_def)
  have s: "0 \<le> sum_f64 xs" "sum_list xs * (1 - ulp_half) ^ length xs \<le> sum_f64 xs" "0 \<le> x"
    using snoc sum_f64_upper [of xs] by auto
  have "(1 - ulp_half) ^ length xs \<le> 1" using ulp_half_pos by (intro power_le_one) simp_all
  then have "x * (1 - ulp_half) ^ length xs \<le> x" using s(3) by (simp add: mult_left_le)
  then have "(sum_list xs + x) * (1 - ulp_half) ^ length xs \<le> sum_f64 xs + x" using s(2) by (simp add: distrib_right)
  then have "(sum_list xs + x) * (1 - ulp_half) ^ length xs * (1 - ulp_half) \<le> (sum_f64 xs + x) * (1 - ulp_half)"
    using ulp_half_pos by (intro mult_right_mono) auto
  with f64_within(2) [of "sum_f64 xs + x"] s show ?case
    by (simp add: eq mult.assoc mult.commute [of "1 - ulp_half"])
qed

section \<open>The terms\<close>

definition lg_ok :: "(rat \<Rightarrow> rat) \<Rightarrow> bool" where
  "lg_ok lg \<longleftrightarrow> (\<forall>p. 0 < p \<and> p \<le> 1 \<longrightarrow>
     lg p \<le> 0 \<and> \<bar>real_of_rat (lg p) - log 2 (real_of_rat p)\<bar> \<le> 1 / 2 ^ 40)"

definition entropy_term :: "(rat \<Rightarrow> rat) \<Rightarrow> nat \<Rightarrow> nat \<Rightarrow> rat" where
  "entropy_term lg n c = (let p = f64 (f64 (of_nat c) / f64 (of_nat n)) in f64 ((- p) * lg p))"

lemma shannon_present:
  "data \<noteq> [] \<Longrightarrow> shannon_entropy lg data = sum_f64 (map (entropy_term lg (length data)) (present data))"
  by (simp add: shannon_entropy_def sum_f64_def entropy_term_def present_def Let_def comp_def)

text \<open>The binary logarithm near one.\<close>

lemma ln2_ge_half: "1 / 2 \<le> ln (2 :: real)"
proof -
  have "exp (1 / 2 :: real) \<le> 1 + 1 / 2 + (1 / 2)\<^sup>2" by (rule exp_bound) simp_all
  also have "\<dots> \<le> 2" by (simp add: power2_eq_square)
  finally show ?thesis using ln_ge_iff [of 2 "1 / 2"] by simp
qed

lemma log2_above: "0 < x \<Longrightarrow> log 2 (1 + x) \<le> 2 * x" for x :: real
proof -
  assume x: "0 < x"
  have "ln (1 + x) \<le> x" using x by (intro ln_add_one_self_le_self) simp
  also have "x * 1 \<le> x * (2 * ln 2)" using ln2_ge_half x by (intro mult_left_mono) simp_all
  then have "x \<le> 2 * x * ln 2" by simp
  finally show ?thesis by (simp add: log_def pos_divide_le_eq)
qed

lemma log2_below: "0 < x \<Longrightarrow> x < 1 / 2 \<Longrightarrow> - 4 * x \<le> log 2 (1 - x)" for x :: real
proof -
  assume x: "0 < x" "x < 1 / 2"
  have "1 / (1 - x) \<le> 1 + 2 * x"
  proof -
    have "0 \<le> x * (1 - 2 * x)" using x by (intro mult_nonneg_nonneg) simp_all
    then have "1 \<le> (1 + 2 * x) * (1 - x)" by (simp add: algebra_simps)
    then show ?thesis using x by (simp add: pos_divide_le_eq)
  qed
  then have "log 2 (1 / (1 - x)) \<le> log 2 (1 + 2 * x)" using x by (subst log_le_cancel_iff) simp_all
  also have "\<dots> \<le> 4 * x" using log2_above [of "2 * x"] x by simp
  finally show ?thesis using x by (simp add: log_divide)
qed

lemma log2_11: "log 2 11 \<le> 346 / 100" and log2_12: "358 / 100 \<le> log 2 12"
proof -
  have "(11::real) ^ 100 \<le> 2 ^ 346" by simp
  then have "log 2 ((11::real) ^ 100) \<le> log 2 (2 ^ 346)" by (subst log_le_cancel_iff) simp_all
  then have "100 * log 2 11 \<le> 346 * log 2 2" by (simp only: log_nat_power zero_less_numeral of_nat_numeral)
  then show "log 2 11 \<le> 346 / 100" by simp
  have "(2::real) ^ 358 \<le> 12 ^ 100" by simp
  then have "log 2 ((2::real) ^ 358) \<le> log 2 (12 ^ 100)" by (subst log_le_cancel_iff) simp_all
  then have "358 * log 2 2 \<le> 100 * log 2 12" by (simp only: log_nat_power zero_less_numeral of_nat_numeral)
  then show "358 / 100 \<le> log 2 12" by simp
qed

text \<open>One term against \<open>(c / n) * log 2 (n / c)\<close>.\<close>

definition half :: real where "half = 1 / 2 ^ 53"

definition lg_err :: real where "lg_err = 1 / 2 ^ 39"

lemma half_pos: "0 < half" "half < 1 / 2" by (simp_all add: half_def)

lemma real_f64:
  assumes "0 \<le> q"
  shows "real_of_rat (f64 q) \<le> real_of_rat q * (1 + half)" and "real_of_rat q * (1 - half) \<le> real_of_rat (f64 q)"
proof -
  have h: "real_of_rat ulp_half = half" by (simp add: ulp_half_def half_def of_rat_divide)
  show "real_of_rat (f64 q) \<le> real_of_rat q * (1 + half)"
    using f64_within(1) [OF assms] of_rat_less_eq [where ?'a = real, of "f64 q" "q * (1 + ulp_half)"]
    by (simp add: of_rat_mult of_rat_add h)
  show "real_of_rat q * (1 - half) \<le> real_of_rat (f64 q)"
    using f64_within(2) [OF assms] of_rat_less_eq [where ?'a = real, of "q * (1 - ulp_half)" "f64 q"]
    by (simp add: of_rat_mult of_rat_diff h)
qed

lemma f64_count: "n \<le> 256 \<Longrightarrow> f64 (of_nat n) = of_nat n"
  unfolding f64_def by (rule rnd_of_nat) simp

lemma share:
  assumes "1 \<le> c" "c \<le> n" "n \<le> 256"
  defines "p \<equiv> f64 (f64 (of_nat c) / f64 (of_nat n))"
  shows "0 < p" and "p \<le> 1"
    and "real_of_rat p \<le> (c / n) * (1 + half)" and "(c / n) * (1 - half) \<le> real_of_rat p"
proof -
  have p: "p = f64 (of_nat c / of_nat n)" using assms by (simp add: f64_count)
  have q: "0 < (of_nat c / of_nat n :: rat)" "(of_nat c / of_nat n :: rat) \<le> 1" using assms by auto
  have r: "real_of_rat (of_nat c / of_nat n) = c / n" by (simp add: of_rat_divide)
  show "p \<le> 1" using f64_le_nat [of "of_nat c / of_nat n" 1] q by (simp add: p)
  show "real_of_rat p \<le> (c / n) * (1 + half)" and lo: "(c / n) * (1 - half) \<le> real_of_rat p"
    using real_f64 [of "of_nat c / of_nat n"] q by (simp_all add: p r)
  have "0 < (c / n) * (1 - half)" using assms half_pos by simp
  with lo have "0 < real_of_rat p" by linarith
  then show "0 < p" by simp
qed

lemma share_log:
  assumes ok: "lg_ok lg" and c: "1 \<le> c" "c \<le> n" "n \<le> 256"
  defines "p \<equiv> f64 (f64 (of_nat c) / f64 (of_nat n))"
  shows "lg p \<le> 0" and "\<bar>- real_of_rat (lg p) - log 2 (n / c)\<bar> \<le> lg_err"
proof -
  note s = share [OF c, folded p_def]
  have cn: "0 < real c" "0 < real n" using c by auto
  from ok s(1,2) have l: "lg p \<le> 0" "\<bar>real_of_rat (lg p) - log 2 (real_of_rat p)\<bar> \<le> 1 / 2 ^ 40"
    by (auto simp: lg_ok_def)
  then show "lg p \<le> 0" by simp
  have sum: "log 2 (real c / real n) = - log 2 (n / c)" using cn by (simp add: log_divide)
  have "log 2 (real_of_rat p) \<le> log 2 ((c / n) * (1 + half))"
    using s cn half_pos by (subst log_le_cancel_iff) simp_all
  also have "\<dots> = log 2 (c / n) + log 2 (1 + half)" using cn half_pos by (intro log_mult_pos) simp_all
  also have "\<dots> \<le> - log 2 (n / c) + 2 * half" using log2_above [OF half_pos(1)] by (simp add: sum)
  finally have hi: "log 2 (real_of_rat p) \<le> - log 2 (n / c) + 2 * half" .
  have "- log 2 (n / c) - 4 * half \<le> log 2 (c / n) + log 2 (1 - half)"
    using log2_below [OF half_pos] by (simp add: sum)
  also have "\<dots> = log 2 ((c / n) * (1 - half))" using cn half_pos by (intro log_mult_pos [symmetric]) simp_all
  also have "\<dots> \<le> log 2 (real_of_rat p)" using s cn half_pos by (subst log_le_cancel_iff) simp_all
  finally have lo: "- log 2 (n / c) - 4 * half \<le> log 2 (real_of_rat p)" .
  have "1 / 2 ^ 40 + 4 * half \<le> lg_err" by (simp add: half_def lg_err_def)
  with hi lo l(2) show "\<bar>- real_of_rat (lg p) - log 2 (n / c)\<bar> \<le> lg_err"
    using half_pos by linarith
qed

lemma term_bounds:
  assumes ok: "lg_ok lg" and c: "1 \<le> c" "c \<le> n" "n \<le> 256"
  shows "0 \<le> entropy_term lg n c"
    and "real_of_rat (entropy_term lg n c) \<le> (c / n) * ((1 + half) ^ 2 * (log 2 n + lg_err))"
    and "(c / n) * ((1 - half) ^ 2 * (log 2 (n / c) - lg_err)) \<le> real_of_rat (entropy_term lg n c)"
proof -
  define p where "p = f64 (f64 (of_nat c) / f64 (of_nat n))"
  define L where "L = - lg p"
  note s = share [OF c, folded p_def] and l = share_log [OF ok c, folded p_def]
  have t: "entropy_term lg n c = f64 (p * L)" by (simp add: entropy_term_def Let_def p_def L_def)
  have L0: "0 \<le> L" using l(1) by (simp add: L_def)
  then have q0: "0 \<le> p * L" using s(1) by simp
  have cn: "0 < real c" "0 < real n" using c by auto
  show "0 \<le> entropy_term lg n c" unfolding t by (rule f64_nonneg [OF q0])
  have rL: "0 \<le> real_of_rat L" using L0 by simp
  have Lb: "\<bar>real_of_rat L - log 2 (n / c)\<bar> \<le> lg_err" using l(2) by (simp add: L_def of_rat_minus)
  have h: "0 \<le> 1 - half" "0 \<le> 1 + half" using half_pos by auto
  have "log 2 (n / c) \<le> log 2 n" using cn c by (simp add: log_divide)
  with Lb have up: "real_of_rat L \<le> log 2 n + lg_err" by linarith
  have "real_of_rat p * real_of_rat L \<le> (c / n) * (1 + half) * (log 2 n + lg_err)"
    using s(3) up rL cn h by (intro mult_mono) auto
  then have "real_of_rat (p * L) * (1 + half) \<le> (c / n) * (1 + half) * (log 2 n + lg_err) * (1 + half)"
    unfolding of_rat_mult using h(2) by (rule mult_right_mono)
  with real_f64(1) [OF q0] show "real_of_rat (entropy_term lg n c) \<le> (c / n) * ((1 + half) ^ 2 * (log 2 n + lg_err))"
    unfolding t by (simp add: power2_eq_square mult.assoc mult.commute mult.left_commute)
  have "(c / n) * (1 - half) * (log 2 (n / c) - lg_err) \<le> (c / n) * (1 - half) * real_of_rat L"
    using Lb cn h by (intro mult_left_mono) auto
  also have "\<dots> \<le> real_of_rat p * real_of_rat L" using s(4) rL by (rule mult_right_mono)
  finally have "(c / n) * (1 - half) * (log 2 (n / c) - lg_err) * (1 - half) \<le> real_of_rat (p * L) * (1 - half)"
    unfolding of_rat_mult using h(1) by (rule mult_right_mono)
  with real_f64(2) [OF q0] show "(c / n) * ((1 - half) ^ 2 * (log 2 (n / c) - lg_err)) \<le> real_of_rat (entropy_term lg n c)"
    unfolding t by (simp add: power2_eq_square mult.assoc mult.commute mult.left_commute)
qed

section \<open>The entropy of a label\<close>

lemma real_sum_f64:
  assumes "\<forall>x \<in> set xs. 0 \<le> x"
  shows "real_of_rat (sum_f64 xs) \<le> real_of_rat (sum_list xs) * (1 + half) ^ length xs"
    and "real_of_rat (sum_list xs) * (1 - half) ^ length xs \<le> real_of_rat (sum_f64 xs)"
proof -
  have h: "real_of_rat ulp_half = half" by (simp add: ulp_half_def half_def of_rat_divide)
  have "real_of_rat (sum_f64 xs) \<le> real_of_rat (sum_list xs * (1 + ulp_half) ^ length xs)"
    using sum_f64_upper [OF assms] by (simp only: of_rat_less_eq)
  then show "real_of_rat (sum_f64 xs) \<le> real_of_rat (sum_list xs) * (1 + half) ^ length xs"
    by (simp add: of_rat_mult of_rat_power of_rat_add h)
  have "real_of_rat (sum_list xs * (1 - ulp_half) ^ length xs) \<le> real_of_rat (sum_f64 xs)"
    using sum_f64_lower [OF assms] by (simp only: of_rat_less_eq)
  then show "real_of_rat (sum_list xs) * (1 - half) ^ length xs \<le> real_of_rat (sum_f64 xs)"
    by (simp add: of_rat_mult of_rat_power of_rat_diff h)
qed

lemma sum_terms_upper:
  assumes "\<forall>k \<in> set ks. real_of_rat (f k) \<le> (real k / n) * B"
  shows "real_of_rat (sum_list (map f ks)) \<le> (real (sum_list ks) / n) * B"
  using assms by (induction ks) (auto simp: of_rat_add add_divide_distrib distrib_right intro: add_mono)

lemma present_range:
  assumes "length data \<le> 256" "k \<in> set (present data)"
  shows "1 \<le> k" "k \<le> length data"
proof -
  obtain b where "k = count_list data b" "0 < k" using present_count [OF _ assms(2)] assms(1) by auto
  then show "1 \<le> k" "k \<le> length data" using count_le_length [of data b] by auto
qed

lemma entropy_upper:
  assumes ok: "lg_ok lg" and data: "data \<noteq> []" "length data \<le> 256"
  shows "real_of_rat (shannon_entropy lg data) \<le>
    (log 2 (length data) + lg_err) * (1 + half) ^ (length data + 2)"
proof -
  define n B where "n = length data" and "B = (1 + half) ^ 2 * (log 2 n + lg_err)"
  note r = present_range [OF data(2), folded n_def]
  have n: "1 \<le> n" "n \<le> 256" using data by (auto simp: n_def Suc_le_eq)
  have B0: "0 \<le> B" using n half_pos by (simp add: B_def lg_err_def)
  have nonneg: "\<forall>x \<in> set (map (entropy_term lg n) (present data)). 0 \<le> x"
    using r n by (auto intro: term_bounds(1) [OF ok])
  have "real_of_rat (sum_list (map (entropy_term lg n) (present data))) \<le> (real (sum_list (present data)) / n) * B"
    unfolding B_def using r n by (intro sum_terms_upper ballI term_bounds(2) [OF ok])
  also have "\<dots> = B" using sum_present [of data] data by (simp add: n_def)
  finally have "real_of_rat (sum_list (map (entropy_term lg n) (present data))) \<le> B" .
  then have "real_of_rat (sum_list (map (entropy_term lg n) (present data))) * (1 + half) ^ length (present data)
      \<le> B * (1 + half) ^ length (present data)" using half_pos by (intro mult_right_mono) auto
  also have "\<dots> \<le> B * (1 + half) ^ n"
    using length_le_sum [of "present data"] sum_present [of data] r data(2) half_pos B0
    by (intro mult_left_mono power_increasing) (auto simp: n_def Suc_le_eq)
  finally show ?thesis
    using real_sum_f64(1) [OF nonneg] unfolding shannon_present [OF data(1)] n_def [symmetric]
    by (simp add: B_def power_add power2_eq_square mult.commute mult.left_commute mult.assoc)
qed

lemma entropy_distinct_lower:
  assumes ok: "lg_ok lg" and data: "data \<noteq> []" "length data \<le> 256" "distinct data"
  shows "(log 2 (length data) - lg_err) * (1 - half) ^ (length data + 2) \<le> real_of_rat (shannon_entropy lg data)"
proof -
  define n where "n = length data"
  define t where "t = entropy_term lg n 1"
  have n: "1 \<le> n" "n \<le> 256" using data by (auto simp: n_def Suc_le_eq)
  have p: "present data = replicate n 1" using present_distinct [OF data(3)] data(2) by (simp add: n_def)
  have t0: "0 \<le> t" and t: "(1 / n) * ((1 - half) ^ 2 * (log 2 n - lg_err)) \<le> real_of_rat t"
    using term_bounds(1,3) [OF ok, of 1 n] n by (auto simp: t_def)
  have s: "sum_list (map (entropy_term lg n) (present data)) = of_nat n * t"
    by (simp add: p t_def sum_list_replicate)
  have "(1 - half) ^ 2 * (log 2 n - lg_err) \<le> real n * real_of_rat t"
    using t n by (simp add: pos_divide_le_eq mult.commute)
  then have "(1 - half) ^ 2 * (log 2 n - lg_err) * (1 - half) ^ n \<le> real n * real_of_rat t * (1 - half) ^ n"
    using half_pos by (intro mult_right_mono) auto
  also have "\<dots> \<le> real_of_rat (shannon_entropy lg data)"
    using real_sum_f64(2) [of "map (entropy_term lg n) (present data)"] t0
    unfolding shannon_present [OF data(1)] n_def [symmetric] s by (simp add: p t_def of_rat_mult)
  finally show ?thesis by (simp add: n_def power_add power2_eq_square mult.commute mult.left_commute mult.assoc)
qed

section \<open>Which labels are flagged\<close>

text \<open>The logarithm cut to 41 binary digits satisfies the hypothesis.\<close>

definition log2_down :: "rat \<Rightarrow> rat" where
  "log2_down p = of_int \<lfloor>2 ^ 41 * log 2 (real_of_rat p)\<rfloor> / 2 ^ 41"

lemma log2_down_ok: "lg_ok log2_down"
  unfolding lg_ok_def
proof (intro allI impI)
  fix p :: rat assume p: "0 < p \<and> p \<le> 1"
  define x where "x = 2 ^ 41 * log 2 (real_of_rat p)"
  have "log 2 (real_of_rat p) \<le> log 2 1" using p by (subst log_le_cancel_iff) simp_all
  then have "x \<le> 0" by (simp add: x_def)
  then have "\<lfloor>x\<rfloor> \<le> 0" by (simp add: floor_le_iff)
  then have "log2_down p \<le> 0" by (simp add: log2_down_def x_def divide_le_0_iff)
  moreover have "real_of_rat (log2_down p) = of_int \<lfloor>x\<rfloor> / 2199023255552" and "log 2 (real_of_rat p) = x / 2199023255552"
    by (simp_all add: log2_down_def x_def of_rat_divide of_rat_power)
  then have "\<bar>real_of_rat (log2_down p) - log 2 (real_of_rat p)\<bar> \<le> 1 / 1099511627776"
    using of_int_floor_le [of x] real_of_int_floor_add_one_ge [of x] by linarith
  ultimately show "log2_down p \<le> 0 \<and> \<bar>real_of_rat (log2_down p) - log 2 (real_of_rat p)\<bar> \<le> 1 / 2 ^ 40"
    by simp
qed

lemma short_entropy:
  assumes "lg_ok lg" and "length data \<le> 11"
  shows "shannon_entropy lg data \<le> ENTROPY_THRESHOLD"
proof (cases "data = []")
  case False
  have "log 2 (length data) \<le> log 2 11" using assms(2) False by (subst log_le_cancel_iff) simp_all
  with log2_11 have l: "log 2 (length data) \<le> 346 / 100" by (rule order_trans [rotated])
  have "(log 2 (length data) + lg_err) * (1 + half) ^ (length data + 2) \<le> (346 / 100 + lg_err) * (1 + half) ^ 13"
    using l assms(2) False half_pos by (intro mult_mono power_increasing) (auto simp: lg_err_def Suc_le_eq)
  also have "\<dots> \<le> 7 / 2" by (simp add: half_def lg_err_def power_divide)
  finally have "real_of_rat (shannon_entropy lg data) \<le> real_of_rat ENTROPY_THRESHOLD"
    using entropy_upper [OF assms(1) False] assms(2) by (simp add: ENTROPY_THRESHOLD_def of_rat_divide)
  then show ?thesis by (simp only: of_rat_less_eq)
qed (simp add: shannon_entropy_def ENTROPY_THRESHOLD_def)

lemma distinct_entropy:
  assumes "lg_ok lg" and "distinct data" and "12 \<le> length data"
  shows "ENTROPY_THRESHOLD < shannon_entropy lg data"
proof -
  have len: "length data \<le> 256"
    using card_mono [OF finite subset_UNIV, of "set data"] distinct_card [OF assms(2)]
    by (simp add: card_word)
  have ne: "data \<noteq> []" using assms(3) by auto
  have "log 2 12 \<le> log 2 (length data)" using assms(3) ne by (subst log_le_cancel_iff) simp_all
  with log2_12 have l: "358 / 100 \<le> log 2 (length data)" by (rule order_trans)
  have "7 / 2 < (358 / 100 - lg_err) * (1 - 258 * half)" by (simp add: half_def lg_err_def)
  also have "\<dots> \<le> (358 / 100 - lg_err) * (1 - half) ^ 258"
    using Bernoulli_inequality [of "- half" 258] half_pos by (intro mult_left_mono) (auto simp: lg_err_def)
  also have "\<dots> \<le> (log 2 (length data) - lg_err) * (1 - half) ^ (length data + 2)"
    using l len half_pos by (intro mult_mono power_decreasing) (auto simp: lg_err_def)
  also have "\<dots> \<le> real_of_rat (shannon_entropy lg data)" by (rule entropy_distinct_lower [OF assms(1) ne len assms(2)])
  finally have "real_of_rat ENTROPY_THRESHOLD < real_of_rat (shannon_entropy lg data)"
    by (simp add: ENTROPY_THRESHOLD_def of_rat_divide)
  then show ?thesis by (simp only: of_rat_less)
qed

lemma high_entropy_signal:
  "''dns_high_entropy'' \<in> sig_name ` set (label_signals lg label) \<longleftrightarrow> ENTROPY_THRESHOLD < shannon_entropy lg label"
  by (auto simp: label_signals_def Let_def)

text \<open>C33 (bounds). Whatever \<open>log2\<close> the platform has, as long as it is within \<open>2 ^ -40\<close> of the real
  logarithm and not positive below one, the entropy check of \<open>ids/dns.rs\<close>, in its \<open>f64\<close> arithmetic, never flags a label of
  eleven bytes or fewer, and always flags a label of twelve or more bytes that are all different:
  neither the rounding of the shares, of the products nor of the running sum moves a label across
  the threshold \<open>3.5\<close>.
\<close>

theorem dns_entropy_threshold:
  assumes "lg_ok lg"
  shows "(length label \<le> 11 \<longrightarrow> ''dns_high_entropy'' \<notin> sig_name ` set (label_signals lg label)) \<and>
    (distinct label \<and> 12 \<le> length label \<longrightarrow>
       ''dns_high_entropy'' \<in> sig_name ` set (label_signals lg label))"
  using short_entropy [OF assms, of label] distinct_entropy [OF assms, of label]
  by (auto simp: high_entropy_signal)

theorem dns_entropy_threshold_witness:
  "''dns_high_entropy'' \<notin> sig_name ` set (label_signals log2_down (str ''google'')) \<and>
   ''dns_high_entropy'' \<in> sig_name ` set (label_signals log2_down (str ''q7x2k9wz4vb1''))"
  using dns_entropy_threshold [OF log2_down_ok, of "str ''google''"]
    dns_entropy_threshold [OF log2_down_ok, of "str ''q7x2k9wz4vb1''"]
  by (simp add: str_def)

end
