(* ===== verification/Spec2Isabelle.thy ===== *)
theory Spec2Isabelle
  imports Alarms EngineLocks Entropy RepoTests
begin

text \<open>
  A model of the monitor agent: it captures packets, scores them with an intrusion detection engine
  and streams the result to an ingestion service.  All paths below are under \<open>src/src\<close>.

  \<^bold>\<open>The program.\<close>  \<open>main.rs\<close> builds the engine (\<open>ids/mod.rs\<close> with its detectors), starts the sweeper
  thread, and then either the synthetic sender or the capture thread, which starts the analyzer
  thread.  Capture (\<open>capture.rs\<close>) pushes parsed packets into a ring buffer (\<open>ring_buffer.rs\<close>); the
  analyzer (\<open>analyzer.rs\<close>) takes them out in batches, scores each, and forwards them to a bounded
  channel; the stream (\<open>grpc_client.rs\<close>) turns them into events and sends these in batches, while
  the heartbeat loop reports counters.  The sweeper evicts idle state of the detectors every 30
  seconds, ends the learning phase of the baseline, and saves it.

  \<^bold>\<open>Theories and sources.\<close>
  \<^item> \<open>Prelude\<close>, \<open>Floats\<close>, \<open>RustStr\<close>, \<open>AddrText\<close>, \<open>Table\<close>, \<open>Sweep\<close>, \<open>Fifo\<close>: what the components share and
    what they use of the Rust library: machine words, slices whose reads may panic, durations,
    \<open>f32\<close> and \<open>f64\<close> rounding, strings, addresses as text, concurrent maps; and the contracts
    \<open>lossy_fifo\<close> (a bounded queue that drops the oldest), \<open>keyed_table\<close> (a map) and
    \<open>swept_detector\<close> (a detector whose verdicts do not depend on its sweeps).  \<open>Locking\<close>: threads that
    acquire and release locks, and the contract \<open>ranked_locks\<close> (every call acquires in the order of a
    rank).
  \<^item> \<open>Packet\<close>: \<open>raw_packet.rs\<close>.  \<open>Capture\<close>: \<open>capture.rs\<close> and \<open>error.rs\<close>.  \<open>RingBuffer\<close>: \<open>ring_buffer.rs\<close>,
    the queue operations and, as the step relation \<open>ring_step\<close>, their use by any number of threads
    through the mutex and the condition variable; it interprets \<open>lossy_fifo\<close>.
  \<^item> \<open>Score\<close>, \<open>RateLimit\<close>, \<open>PortScan\<close>, \<open>SynFlood\<close>, \<open>Blacklist\<close>, \<open>Payload\<close>, \<open>Dns\<close>, \<open>Baseline\<close>, \<open>Geo\<close>: the files
    of the same names in \<open>ids/\<close>, a record for each struct and a definition for each method, named
    after both (\<open>RateLimiter_inspect\<close> is \<open>RateLimiter::inspect\<close>).  \<open>RateLimit\<close> and \<open>PortScan\<close> interpret
    \<open>swept_detector\<close>.
  \<^item> \<open>Engine\<close>: \<open>ids/mod.rs\<close>; \<open>IdsEngine_analyze\<close> is one definition per section of \<open>analyze\<close>, in the order
    of the source, and \<open>sweeper_tick\<close> is a round of the sweeper thread.
  \<^item> \<open>Workers\<close>: \<open>analyze\<close> again, as turns with one access to an entry of a map or to the baseline each
    (\<open>stage_turn\<close>), and the sweeper as calls that sweep one map each (\<open>sweeper_call\<close>), for the threads
    that share the engine.
  \<^item> \<open>Analyzer\<close>: \<open>analyzer.rs\<close>, the analyzer thread and its pool as \<open>analyzer_turn\<close>, and the pipeline with
    the capture thread, the sweeper and the receiver as the step relation \<open>pipe_step\<close>.
  \<^item> \<open>GrpcClient\<close> and \<open>GrpcTasks\<close>: \<open>grpc_client.rs\<close>, the conversion of packets and the batching loop, and
    the tasks around it.  \<open>AgentIdentity\<close>: \<open>agent_identity.rs\<close>.  \<open>Config\<close>: \<open>config.rs\<close> (\<open>Config_parse\<close>
    from the options and the environment) and what \<open>main\<close> derives from the settings.  \<open>TestSender\<close>: \<open>tests/test_sender.rs\<close>.
  \<^item> \<open>EngineLocks\<close>: what each method of the detectors, the blacklist and the baseline locks, in order
    (\<open>call_ops\<close>); it interprets \<open>ranked_locks\<close>.  \<open>Entropy\<close>: the rounding errors of \<open>shannon_entropy\<close> of
    \<open>ids/dns.rs\<close> and the threshold it is compared with.
  \<^item> \<open>Lifecycle\<close>: the threads of \<open>main.rs\<close> and its shutdown, as the step relation \<open>agent_step\<close>.
    \<open>Startup\<close>: \<open>main\<close> from the command line, the environment variables and the files to the process
    whose threads then run (\<open>main_run\<close>).  \<open>Alarms\<close>: what the reason in a received packet stands for.
  \<^item> \<open>RepoTests\<close>: the unit tests of \<open>tests/\<close> as lemmas.  This theory: the property from one end to the
    other.

  \<^bold>\<open>What is shown.\<close>
  \<^item> The pipeline: packets arrive in order, unaltered, at most once, with the score of an analysis of
    themselves (\<open>pipeline_faithful\<close>, and from the start of the process \<open>end_to_end\<close>), however analyses
    and sweeps interleave; an
    undisturbed analysis is \<open>IdsEngine_analyze\<close> (\<open>analyze_uninterrupted\<close>); the ring buffer refines the sequential queue and
    loses no wake-up; the analyzer gets to the end of its work in a bounded number of turns.
  \<^item> The parsers: no byte string makes them panic; what they accept is consistent; and they invert the
    wire formats.  The capture loop numbers its packets and ends for the right reason.
  \<^item> The engine: it never panics; scores are exact sums with no rounding error; blacklisted traffic is
    always an alert; suspicious traffic is never learned; which reason is reported.
  \<^item> The detectors: exact thresholds for SYN floods and port scans, bounds on false alarms, the rate
    limiter in its floating-point arithmetic, and sweeps that no verdict depends on.
  \<^item> Blacklist, payload, DNS, baseline, identity: exact matching, round trips, the phase latch.
  \<^item> The stream: every event goes into exactly one numbered batch; when the service refuses a batch, its
    events are lost, and nothing else (\<open>service_failures_cost\<close>).  In which fields the synthetic traffic
    agrees with what the capture would parse.
  \<^item> The process: every packet from or to an address that the loaded list covers arrives as an alert
    (\<open>process_flags_listed\<close>), and the reason in every packet, unless it is the rate limiter's, is backed
    by the loaded lists, the bytes of the packet and the traffic captured
    (\<open>process_reasons_justified\<close>); a restart has the identity and the knowledge of the last save
    (\<open>restart_faithful\<close>); the threads that share the engine never deadlock (\<open>engine_deadlock_free\<close>).
  \<^item> The shutdown: it works with \<open>--test-send\<close>; with a capture it hangs, because nothing closes the
    ring buffer, although the analyzer would exit if it were closed.

  \<^bold>\<open>Modelling choices.\<close>  Arithmetic is that of the release profile: machine integers wrap and shift
  amounts are masked.  \<open>usize\<close> values that are lengths of buffers are natural numbers.  Floating-point
  numbers are finite and represented by rationals, rounded after each operation as IEEE 754 does
  to nearest; the values that occur are far from overflow.  A computation that may panic yields an
  option, \<open>None\<close> for the panic (which, in the release profile, aborts the process).  Every clock reading is an input, so that the theorems hold for
  clocks of any behaviour unless they say otherwise; a sweep reads the clock once.  An
  access to one entry of a map, or to the baseline, is atomic: the code holds its lock.  Between the
  accesses of an analysis, also between those of one call of a detector, anything may happen to the
  engine, so that a packet is scored against views of the engine of different moments.  Taking the
  size of a map, and sweeping one map, are one step each, although the code visits its shards one
  after the other.  All packets of a batch may be under way at once (the code runs four at a time, which
  is one of the schedules); the sweeper's calls come in any order.  Runs are lists of
  what the waits of a loop yield; no fuel is used, every recursion is structural or has a measure.

  \<^bold>\<open>Parameters.\<close>  Libraries are arguments, with what the code relies on as named hypotheses: a Bloom
  filter without false negatives (\<open>bloom_ok\<close>), an Aho-Corasick automaton that finds exactly the
  occurrences (\<open>ac_ok\<close>), a bounded channel that appends or refuses (\<open>chan_ok\<close>), a JSON codec that reads
  back what it wrote (\<open>json_keeps\<close>), a random number generator that respects ranges (\<open>rng_ok\<close>);
  a binary logarithm within its error
  (\<open>lg_ok\<close>, for the entropy only); and, with no hypothesis, libpcap, BLAKE3, the MaxMind reader, the 64-bit hash of the standard
  library, and lower-casing.  Each hypothesis has an instance that satisfies it.

  \<^bold>\<open>Not modelled.\<close>  How \<open>clap\<close> splits the command line, the log output other than what a loop only logs, the
  transport and the encoding of gRPC, the generated protocol code and \<open>build.rs\<close>.  Of the unit tests,
  those that need a network interface, the one of the rate limiter for connections, and the port
  scan through the engine.
  Waiting for an answer of the service is taken to end.
\<close>

section \<open>From capture to service\<close>

lemma events_of_filter:
  "events_of b cfg raws =
     map (\<lambda>r. the (parse_packet b r (cfg_agent_id cfg)))
       (filter (\<lambda>r. parse_packet b r (cfg_agent_id cfg) \<noteq> None) raws)"
  by (simp add: events_of_def List.map_filter_def comp_def)

text \<open>What the stream makes of the packets it received.\<close>

lemma stream_of_received:
  assumes "prefix (taken_in es) rcv" and "subseq (map unscored rcv) caught" and "\<forall>q \<in> set rcv. good q"
  shows "\<exists>raws. subseq raws caught \<and>
     list_all2 (\<lambda>ev raw. \<exists>q. unscored q = raw \<and> good q \<and> parse_packet b q (cfg_agent_id cfg) = Some ev)
       (sent_events (run_packet_stream b cfg es (stream_init AgentCounters_default))) raws"
proof -
  let ?s = "run_packet_stream b cfg es (stream_init AgentCounters_default)"
  let ?P = "\<lambda>r. parse_packet b r (cfg_agent_id cfg)"
  define R where "R = filter (\<lambda>r. ?P r \<noteq> None) (taken_in es)"
  define T where "T = take (length (sent_events ?s)) R"
  have "running (stream_init AgentCounters_default)" by (simp add: stream_init_def)
  from stream_run_inv [OF stream_inv_init [of b cfg] this, of es]
  have "sent_events ?s @ pending ?s = map (\<lambda>r. the (?P r)) R"
    by (simp add: stream_inv_def events_of_filter R_def)
  then have sent: "sent_events ?s = map (\<lambda>r. the (?P r)) T"
    by (metis T_def append_eq_conv_conj take_map)
  have "subseq T R" unfolding T_def by (simp add: prefix_imp_subseq take_is_prefix)
  also have "subseq R (taken_in es)" unfolding R_def by simp
  also have "subseq (taken_in es) rcv" using assms(1) by (rule prefix_imp_subseq)
  finally have "subseq (map unscored T) caught"
    using subseq_map [of T rcv unscored] assms(2) by (blast intro: subseq_order.trans)
  moreover have "\<exists>p. unscored p = unscored q \<and> good p \<and> ?P p = Some (the (?P q))" if "q \<in> set T" for q
  proof -
    have "q \<in> set R" using that unfolding T_def by (rule in_set_takeD)
    then show ?thesis using set_mono_prefix [OF assms(1)] assms(3) by (intro exI [of _ q]) (auto simp: R_def)
  qed
  then have "list_all2 (\<lambda>ev raw. \<exists>q. unscored q = raw \<and> good q \<and> ?P q = Some ev) (sent_events ?s) (map unscored T)"
    unfolding sent list_all2_map1 list_all2_map2 by (simp add: list_all2_same)
  ultimately show ?thesis by blast
qed

text \<open>C6 (safety). End to end, when it captures: start the process with any files and any settings
  but \<open>--test-send\<close>; whatever its threads do and in whatever order, the events its stream hands to the service are the events of captured
  packets under the identity that \<open>main\<close> resolved, in the order of capture and each at most once,
  changed in nothing but the score and the reason, which are those of an analysis of the packet
  (\<open>analysed\<close>) by a well-formed engine with the blacklist that \<open>main\<close> loaded, whose port scan
  detector remembers nothing but captured packets (\<open>scan_pairs\<close>), with a score between 0 and 100.\<close>

theorem end_to_end:
  assumes "ac_ok (env_ac env)" and "chan_ok ch"
    and "main_run L env rpc h cfg = (Running p, disk)" and "\<not> test_send cfg"
    and "queued ch (lb_channel L (channel_capacity cfg)) = []"
    and "agent_reach (lb_json L) (geo_env (lb_mmdb L) (pr_geo p) env) ch (pr_agent p) s"
    and "prefix (taken_in es) (p_received (ag_pipe s))"
  shows "\<exists>raws. subseq raws (map unscored (p_captured (ag_pipe s))) \<and>
     list_all2 (\<lambda>ev raw. \<exists>q. unscored q = raw \<and>
         (scored (geo_env (lb_mmdb L) (pr_geo p) env) (scan_pairs (p_captured (ag_pipe s)))
            (e_blacklist (host_engine L env h)) q \<and> 0 \<le> ids_score q \<and> ids_score q \<le> 100) \<and>
         parse_packet b q (pr_agent_id p) = Some ev)
       (sent_events (run_packet_stream b (pr_stream p) es (stream_init AgentCounters_default))) raws"
proof -
  have "cfg_agent_id (pr_stream p) = pr_agent_id p"
    using main_run_Running [OF assms(3)] by (simp add: main_stream_cfg_def)
  note stream = stream_of_received [of es "p_received (ag_pipe s)" _ _ b "pr_stream p", unfolded this]
  show ?thesis
    by (rule stream [OF assms(7)]) (use process_pipe [OF assms(1-6)] in blast)+
qed

theorem end_to_end_witness:
  "\<exists>p d (s :: (u8 set, raw_packet list) agent) raws.
     main_run demo_libs demo_env (\<lambda>_. Inl ()) (demo_host [] []) (demo_config False) = (Running p, d) \<and>
     agent_reach demo_json demo_env (list_chan 4) (pr_agent p) s \<and> length (p_received (ag_pipe s)) = 1 \<and>
     subseq raws (map unscored (p_captured (ag_pipe s))) \<and>
     list_all2 (\<lambda>ev raw. \<exists>q. unscored q = raw \<and> ids_score q \<le> 100 \<and> parse_packet id q (pr_agent_id p) = Some ev)
       (sent_events (run_packet_stream id (pr_stream p)
          [stream_event.Packet (hd (p_received (ag_pipe s))) True, FlushTick True] (stream_init AgentCounters_default))) raws"
proof -
  obtain p d and s :: "(u8 set, raw_packet list) agent" where
    p: "main_run demo_libs demo_env (\<lambda>_. Inl ()) (demo_host [] []) (demo_config False) = (Running p, d)"
    and s: "agent_reach demo_json demo_env (list_chan 4) (pr_agent p) s" "length (p_received (ag_pipe s)) = 1"
    and geo: "geo_env (lb_mmdb demo_libs) (pr_geo p) demo_env = demo_env"
    by (rule demo_process)
  let ?es = "[stream_event.Packet (hd (p_received (ag_pipe s))) True, FlushTick True]"
  have pre: "prefix (taken_in ?es) (p_received (ag_pipe s))"
    using s(2) by (cases "p_received (ag_pipe s)") auto
  have q: "queued (list_chan 4) (lb_channel demo_libs n) = []" for n by (simp add: list_chan_def demo_libs_def)
  have reach: "agent_reach (lb_json demo_libs) (geo_env (lb_mmdb demo_libs) (pr_geo p) demo_env) (list_chan 4) (pr_agent p) s"
    unfolding geo using s(1) by (simp add: demo_libs_def)
  have "\<not> test_send (demo_config False)" by (simp add: demo_config_sel)
  from end_to_end [OF demo_env_ok list_chan_ok p this q reach pre, of id] obtain raws where
    raws: "subseq raws (map unscored (p_captured (ag_pipe s)))"
    "list_all2 (\<lambda>ev raw. \<exists>q. unscored q = raw \<and>
       (scored (geo_env (lb_mmdb demo_libs) (pr_geo p) demo_env) (scan_pairs (p_captured (ag_pipe s)))
          (e_blacklist (host_engine demo_libs demo_env (demo_host [] []))) q \<and>
        0 \<le> ids_score q \<and> ids_score q \<le> 100) \<and> parse_packet id q (pr_agent_id p) = Some ev)
     (sent_events (run_packet_stream id (pr_stream p) ?es (stream_init AgentCounters_default))) raws" by blast
  have "list_all2 (\<lambda>ev raw. \<exists>q. unscored q = raw \<and> ids_score q \<le> 100 \<and> parse_packet id q (pr_agent_id p) = Some ev)
     (sent_events (run_packet_stream id (pr_stream p)
        [stream_event.Packet (hd (p_received (ag_pipe s))) True, FlushTick True] (stream_init AgentCounters_default))) raws"
    by (rule list_all2_mono [OF raws(2)]) blast
  with p s raws(1) show ?thesis by blast
qed

end
